(* ===== verification/Prelude.thy ===== *)
theory Prelude
  imports Main "HOL-Library.Word" "HOL-Library.Multiset"
begin

text \<open>
  Shared vocabulary of the development: the machine integers of the Rust sources as words,
  the collections of lemmas the component proofs use, and the generic facts about words,
  lists and options that more than one component needs.
\<close>

unbundle bit_operations_syntax

section \<open>Machine integers\<close>

type_synonym u8 = "8 word"
type_synonym u32 = "32 word"
type_synonym u64 = "64 word"

text \<open>
  \<open>usize\<close> is 64 bits wide on the targets the sources are written for. Lengths and indices of
  in-memory arrays are natural numbers; a \<open>usize\<close> that the code lets wrap around is a word.
\<close>

type_synonym usize = "64 word"

text \<open>Identifiers of registered component and resource types are indices of the registries.\<close>

type_synonym ComponentId = nat
type_synonym ResourceId = nat

named_theorems bounds_simps \<open>numeric values of the constants of the sources\<close>
named_theorems op_defs \<open>unfolding of the operations of a component\<close>

text \<open>
  What running an operation gives: a value, an unwinding panic, or undefined behaviour (an access
  that the code's \<open>unsafe\<close> blocks require never to happen).
\<close>

datatype 'a outcome = Done 'a | Panic | Undef

fun of_read :: "'a option \<Rightarrow> 'a outcome" where
  "of_read (Some x) = Done x"
| "of_read None = Undef"

lemma unat_of_nat_32 [simp]: "unat (of_nat n :: u32) = n mod 4294967296"
  by (simp add: unat_of_nat)

lemma unat_of_nat_64 [simp]: "unat (of_nat n :: u64) = n mod 18446744073709551616"
  by (simp add: unat_of_nat)

lemma unat_minus_one_32 [simp]: "unat (- 1 :: u32) = 4294967295"
  by (simp add: unsigned_minus_1_eq_mask mask_eq_exp_minus_1)

lemma unat_lt_32: "unat (x :: u32) < 4294967296"
  by (rule less_le_trans [OF unsigned_less]) simp

lemma unat_lt_64: "unat (x :: u64) < 18446744073709551616"
  by (rule less_le_trans [OF unsigned_less]) simp

text \<open>
  \<open>NonMaxU32::new\<close>: identifiers are 32-bit integers other than the maximum. The sources count in \<open>usize\<close> and truncate.
\<close>

definition NonMaxU32_new :: "u32 \<Rightarrow> nat option" where
  "NonMaxU32_new n = (if n XOR - 1 = 0 then None else Some (unat n))"

lemma xor_minus_one_eq_0: "(a :: u32) XOR - 1 = 0 \<longleftrightarrow> a = - 1"
proof
  assume "a XOR - 1 = 0"
  then have "a XOR (- 1 XOR - 1) = - 1" by (simp only: xor.assoc [symmetric]) simp
  then show "a = - 1" by simp
qed simp

lemma NonMaxU32_new_of_nat: "n \<le> 4294967295 \<Longrightarrow> NonMaxU32_new (of_nat n) = (if n = 4294967295 then None else Some n)"
proof -
  assume n: "n \<le> 4294967295"
  have "(of_nat n :: u32) XOR - 1 = 0 \<longleftrightarrow> of_nat n = (- 1 :: u32)" by (rule xor_minus_one_eq_0)
  also have "\<dots> \<longleftrightarrow> n = 4294967295" using n by (simp add: word_unat_eq_iff)
  finally show ?thesis using n by (simp add: NonMaxU32_new_def)
qed

lemma unat_minus_le: "b \<le> a \<Longrightarrow> unat (a - b) = unat a - unat (b :: 'a::len word)"
  by (simp add: unat_sub)

lemma bit_32_lt: "bit (w :: 32 word) n \<Longrightarrow> n < 32"
  by (drule bit_imp_le_length) simp

lemma bit_64_lt: "bit (w :: 64 word) n \<Longrightarrow> n < 64"
  by (drule bit_imp_le_length) simp

text \<open>
  Capacity of a \<open>Vec\<close> after \<open>reserve(additional)\<close>: unchanged when there is room, otherwise at least
  doubled and never below the size the vector starts with.
\<close>

definition vec_reserve :: "nat \<Rightarrow> nat \<Rightarrow> nat \<Rightarrow> nat" where
  "vec_reserve cap len additional =
     (if additional \<le> cap - len then cap else max (max (2 * cap) (len + additional)) 4)"

lemma vec_reserve_room: "len \<le> cap \<Longrightarrow> len + additional \<le> vec_reserve cap len additional"
  by (auto simp: vec_reserve_def)

lemma vec_reserve_mono: "cap \<le> vec_reserve cap len additional"
  by (auto simp: vec_reserve_def)

section \<open>Swap-remove\<close>

text \<open>\<open>Vec::swap_remove\<close>: the last element fills the gap.\<close>

definition swap_remove :: "nat \<Rightarrow> 'a list \<Rightarrow> 'a list" where
  "swap_remove i xs = (butlast xs)[i := last xs]"

lemma length_swap_remove [simp]: "length (swap_remove i xs) = length xs - 1"
  by (simp add: swap_remove_def)

lemma nth_swap_remove:
  "i < length xs \<Longrightarrow> j < length xs - 1 \<Longrightarrow>
   swap_remove i xs ! j = (if j = i then xs ! (length xs - 1) else xs ! j)"
  by (cases "xs = []") (auto simp: swap_remove_def nth_list_update nth_butlast last_conv_nth)

lemma mset_swap_remove: "i < length xs \<Longrightarrow> mset xs = add_mset (xs ! i) (mset (swap_remove i xs))"
proof -
  assume i: "i < length xs"
  then have ne: "xs \<noteq> []" by auto
  define ys where "ys = butlast xs"
  define z where "z = last xs"
  have xs: "xs = ys @ [z]" using ne by (simp add: ys_def z_def)
  show ?thesis
  proof (cases "i < length ys")
    case True
    then show ?thesis unfolding xs swap_remove_def
      by (simp add: nth_append mset_update)
  next
    case False
    then have "i = length ys" using i xs by simp
    then show ?thesis unfolding xs swap_remove_def by (simp add: list_update_beyond)
  qed
qed

end
