(* ===== verification/Ticks.thy ===== *)
theory Ticks
  imports Prelude
begin

text \<open>
  Change-detection time (\<open>crates/voker-ecs/src/tick.rs\<close>, the bulk clamp of
  \<open>utils/helper.rs\<close> and the clock part of \<open>world/world.rs\<close>).

  A tick is a 32-bit counter that wraps around. Ages are measured by wrapping subtraction and
  clamped at \<open>MAX_TICK_AGE\<close>; a periodic pass over the stored ticks keeps ages from wrapping. What the clock needs
  of that pass is the locale \<open>tick_pass\<close>; its lemmas show that, as long as the world is maintained regularly, the
  comparison the systems use agrees with the comparison of the true, unbounded times. Theory \<open>WorldTicks\<close> interprets
  the locale on the storages of a world.
\<close>

section \<open>Constants and the tick type\<close>

definition CHECK_CYCLE :: u32 where
  "CHECK_CYCLE = push_bit 29 1"

definition MAX_TICK_AGE :: u32 where
  "MAX_TICK_AGE = (- 1) - push_bit 1 CHECK_CYCLE - 1"

datatype Tick = Tick (Tick_get: u32)

definition Tick_MAX_AGE :: Tick where
  "Tick_MAX_AGE = Tick MAX_TICK_AGE"

definition Tick_relative_to :: "Tick \<Rightarrow> Tick \<Rightarrow> Tick" where
  "Tick_relative_to self other = Tick (Tick_get self - Tick_get other)"

definition Tick_is_newer_than :: "Tick \<Rightarrow> Tick \<Rightarrow> Tick \<Rightarrow> bool" where
  "Tick_is_newer_than self other now =
     (let since_insert = min (Tick_get (Tick_relative_to now self)) MAX_TICK_AGE;
          since_system = min (Tick_get (Tick_relative_to now other)) MAX_TICK_AGE
      in since_system > since_insert)"

definition Tick_check_tick :: "Tick \<Rightarrow> Tick \<Rightarrow> Tick" where
  "Tick_check_tick self now =
     (let age = Tick_relative_to now self;
          fallback = Tick_relative_to now Tick_MAX_AGE
      in if Tick_get age > MAX_TICK_AGE then fallback else self)"

text \<open>The bulk version works on the raw integers of a slice of ticks.\<close>

definition check_slice_tick :: "u32 list \<Rightarrow> u32 \<Rightarrow> u32 list" where
  "check_slice_tick arr now =
     (let fall_back = now - MAX_TICK_AGE
      in map (\<lambda>x. let age = now - x in if age > MAX_TICK_AGE then fall_back else x) arr)"

section \<open>The world's clock\<close>

text \<open>
  The fields of \<open>World\<close> that drive time, with the storages that hold ticks as a parameter.
  \<open>check_all\<close> is the pass over every schedule, resource, table and map at the current tick. The event \<open>CheckTicks\<close> that
  \<open>check_ticks_cold\<close> triggers at its end is returned; the observers it calls are not part of the model.
\<close>

record 's world_clock =
  clk_this_run :: u32
  clk_last_run :: Tick
  clk_last_check :: Tick
  clk_storages :: 's

definition World_clock_alloc :: "'s \<Rightarrow> 's world_clock" where
  "World_clock_alloc s =
     \<lparr>clk_this_run = 1, clk_last_run = Tick 0, clk_last_check = Tick 0, clk_storages = s\<rparr>"

definition World_advance_tick :: "'s world_clock \<Rightarrow> Tick \<times> 's world_clock" where
  "World_advance_tick w = (Tick (clk_this_run w), w\<lparr>clk_this_run := clk_this_run w + 1\<rparr>)"

definition check_ticks_cold ::
  "(Tick \<Rightarrow> 's \<Rightarrow> 's) \<Rightarrow> 's world_clock \<Rightarrow> Tick \<times> 's world_clock" where
  "check_ticks_cold check_all w =
     (let now = Tick (clk_this_run w)
      in (now, w\<lparr>clk_storages := check_all now (clk_storages w)\<rparr>))"

definition World_check_ticks ::
  "(Tick \<Rightarrow> 's \<Rightarrow> 's) \<Rightarrow> 's world_clock \<Rightarrow> Tick option \<times> 's world_clock" where
  "World_check_ticks check_all w =
     (if clk_this_run w - Tick_get (clk_last_check w) \<ge> CHECK_CYCLE
      then (let (event, w') = check_ticks_cold check_all w in (Some event, w'))
      else (None, w))"

definition World_reset_last_run ::
  "(Tick \<Rightarrow> 's \<Rightarrow> 's) \<Rightarrow> 's world_clock \<Rightarrow> Tick \<times> 's world_clock" where
  "World_reset_last_run check_all w =
     (let w1 = snd (World_check_ticks check_all w);
          last_run = clk_this_run w1;
          this_run = last_run + 1;
          w2 = w1\<lparr>clk_last_run := Tick last_run, clk_this_run := this_run\<rparr>;
          w3 = snd (World_check_ticks check_all w2)
      in (Tick this_run, w3))"

section \<open>Ages\<close>

lemma CHECK_CYCLE_eq [bounds_simps]: "CHECK_CYCLE = 536870912"
  by (simp add: CHECK_CYCLE_def push_bit_eq_mult)

lemma MAX_TICK_AGE_eq [bounds_simps]: "MAX_TICK_AGE = 3221225470"
  by (simp add: MAX_TICK_AGE_def CHECK_CYCLE_eq push_bit_eq_mult)

definition tick_age :: "u32 \<Rightarrow> Tick \<Rightarrow> nat" where
  "tick_age now t = unat (now - Tick_get t)"

definition clamped_age :: "u32 \<Rightarrow> Tick \<Rightarrow> nat" where
  "clamped_age now t = min (tick_age now t) 3221225470"

lemma newer_iff_clamped_age:
  "Tick_is_newer_than a b (Tick now) \<longleftrightarrow> clamped_age now a < clamped_age now b"
  by (simp add: Tick_is_newer_than_def Tick_relative_to_def clamped_age_def tick_age_def
      MAX_TICK_AGE_eq Let_def min_def word_less_nat_alt word_le_nat_alt)

lemma tick_age_check:
  "tick_age now (Tick_check_tick t (Tick now)) = clamped_age now t"
  by (simp add: Tick_check_tick_def Tick_relative_to_def clamped_age_def tick_age_def
      Tick_MAX_AGE_def MAX_TICK_AGE_eq Let_def word_less_nat_alt)

text \<open>The bulk pass is the single-tick clamp on every element.\<close>

lemma check_slice_tick_eq:
  "map Tick (check_slice_tick arr now) = map (\<lambda>t. Tick_check_tick t (Tick now)) (map Tick arr)"
  by (simp add: check_slice_tick_def Tick_check_tick_def Tick_relative_to_def Tick_MAX_AGE_def
      Let_def)

section \<open>Runs of the clock\<close>

text \<open>
  What the clock relies on of the storages: the pass keeps them well formed, clamps every tick it reaches and leaves
  the others alone. \<open>tick_at\<close> reads the tick at a place of the storages, \<open>reached\<close> says which places the pass visits.
\<close>

locale tick_pass =
  fixes pass :: "Tick \<Rightarrow> 's \<Rightarrow> 's"
    and tick_at :: "'s \<Rightarrow> 'p \<Rightarrow> Tick option"
    and reached :: "'s \<Rightarrow> 'p \<Rightarrow> bool"
    and ok :: "'s \<Rightarrow> bool"
  assumes pass_ok: "ok s \<Longrightarrow> ok (pass now s)"
    and pass_tick: "ok s \<Longrightarrow> tick_at (pass now s) p =
      (if reached s p then map_option (\<lambda>t. Tick_check_tick t now) (tick_at s p) else tick_at s p)"

text \<open>The world's own \<open>last_run\<close> is a tick too, which no pass visits.\<close>

datatype 'p tick_place = World_last_run | Stored 'p

definition tick_of :: "('s \<Rightarrow> 'p \<Rightarrow> Tick option) \<Rightarrow> 's world_clock \<Rightarrow> 'p tick_place \<Rightarrow> Tick option" where
  "tick_of tick_at w p =
     (case p of World_last_run \<Rightarrow> Some (clk_last_run w) | Stored q \<Rightarrow> tick_at (clk_storages w) q)"

text \<open>
  A run is followed together with the true (unbounded) time \<open>T\<close>, the number \<open>g\<close> of ticks since the world was last
  asked to validate, and a partial function \<open>ss\<close> from places to the true times at which their ticks were written.

  Between passes the storages change arbitrarily, except that a tick with a known time was either moved from another
  place or is the tick of a run that began at most \<open>MAX_TICK_AGE\<close> ticks ago. A pass keeps the times of the
  places it reaches, and of the others as long as they are younger than \<open>MAX_TICK_AGE\<close>.
\<close>

definition ticks_written ::
  "('s \<Rightarrow> 'p \<Rightarrow> Tick option) \<Rightarrow> nat \<Rightarrow> 's world_clock \<Rightarrow> ('p tick_place \<rightharpoonup> nat) \<Rightarrow>
   's world_clock \<Rightarrow> ('p tick_place \<rightharpoonup> nat) \<Rightarrow> bool" where
  "ticks_written tick_at T w ss w' ss' \<longleftrightarrow> (\<forall>p s. ss' p = Some s \<longrightarrow>
     (s \<le> T \<and> T - s \<le> unat MAX_TICK_AGE \<and> tick_of tick_at w' p = Some (Tick (of_nat s))) \<or>
     (\<exists>q. ss q = Some s \<and> tick_of tick_at w' p = tick_of tick_at w q))"

definition times_kept ::
  "(Tick \<Rightarrow> 's \<Rightarrow> 's) \<Rightarrow> ('s \<Rightarrow> 'p \<Rightarrow> bool) \<Rightarrow> nat \<Rightarrow> 's world_clock \<Rightarrow>
   ('p tick_place \<rightharpoonup> nat) \<Rightarrow> ('p tick_place \<rightharpoonup> nat) \<Rightarrow> bool" where
  "times_kept pass reached T w ss ss' \<longleftrightarrow> (\<forall>p s. ss' p = Some s \<longrightarrow> ss p = Some s \<and>
     (fst (World_check_ticks pass w) = None \<or> (\<exists>q. p = Stored q \<and> reached (clk_storages w) q) \<or>
      T - s < unat MAX_TICK_AGE))"

text \<open>The step of \<open>reset_last_run\<close> between its two validations.\<close>

definition World_next_run :: "'s world_clock \<Rightarrow> 's world_clock" where
  "World_next_run w = w\<lparr>clk_last_run := Tick (clk_this_run w), clk_this_run := clk_this_run w + 1\<rparr>"

text \<open>The one assumption on the driver: validation is asked for at least once every \<open>2 ^ 28\<close> ticks.\<close>

definition MAINTENANCE :: nat where
  "MAINTENANCE = 268435456"

inductive clock_reach ::
  "(Tick \<Rightarrow> 's \<Rightarrow> 's) \<Rightarrow> ('s \<Rightarrow> 'p \<Rightarrow> Tick option) \<Rightarrow> ('s \<Rightarrow> 'p \<Rightarrow> bool) \<Rightarrow> ('s \<Rightarrow> bool) \<Rightarrow>
   nat \<Rightarrow> nat \<Rightarrow> ('p tick_place \<rightharpoonup> nat) \<Rightarrow> 's world_clock \<Rightarrow> bool"
  for pass tick_at reached ok where
  start: "ok s \<Longrightarrow> clock_reach pass tick_at reached ok 1 0 [World_last_run \<mapsto> 0] (World_clock_alloc s)"
| advance: "clock_reach pass tick_at reached ok T g ss w \<Longrightarrow> g < MAINTENANCE \<Longrightarrow>
     clock_reach pass tick_at reached ok (T + 1) (g + 1) ss (snd (World_advance_tick w))"
| store: "clock_reach pass tick_at reached ok T g ss w \<Longrightarrow> ok s' \<Longrightarrow>
     ticks_written tick_at T w ss (w\<lparr>clk_storages := s'\<rparr>) ss' \<Longrightarrow>
     clock_reach pass tick_at reached ok T g ss' (w\<lparr>clk_storages := s'\<rparr>)"
| check: "clock_reach pass tick_at reached ok T g ss w \<Longrightarrow> times_kept pass reached T w ss ss' \<Longrightarrow>
     clock_reach pass tick_at reached ok T 0 ss' (snd (World_check_ticks pass w))"
| reset: "clock_reach pass tick_at reached ok T g ss w \<Longrightarrow> times_kept pass reached T w ss ss1 \<Longrightarrow>
     times_kept pass reached (T + 1) (World_next_run (snd (World_check_ticks pass w)))
       (ss1(World_last_run \<mapsto> T)) ss2 \<Longrightarrow>
     clock_reach pass tick_at reached ok (T + 1) 0 ss2 (snd (World_reset_last_run pass w))"

text \<open>One stored tick: its age is exact up to the clamp, and cannot have wrapped.\<close>

definition age_ok :: "nat \<Rightarrow> nat \<Rightarrow> nat \<Rightarrow> Tick \<Rightarrow> bool" where
  "age_ok C T s t \<longleftrightarrow> s \<le> T \<and>
     min (tick_age (of_nat T) t) 3221225470 = min (T - s) 3221225470 \<and>
     tick_age (of_nat T) t \<le> 3221225470 + (T - C)"

lemma age_ok_written:
  assumes "s \<le> T" "T - s \<le> 3221225470"
  shows "age_ok C T s (Tick (of_nat s))"
proof -
  have "(of_nat T - of_nat s :: u32) = of_nat (T - s)" using assms(1) by (simp add: of_nat_diff)
  then have "tick_age (of_nat T) (Tick (of_nat s)) = (T - s) mod 4294967296"
    by (simp add: tick_age_def unat_of_nat)
  with assms show ?thesis by (simp add: age_ok_def)
qed

lemma age_ok_young: "age_ok C T s t \<Longrightarrow> T - s < 3221225470 \<Longrightarrow> age_ok T T s t"
  unfolding age_ok_def by linarith

lemma tick_age_Suc:
  assumes "tick_age now t < 4294967295"
  shows "tick_age (now + 1) t = tick_age now t + 1"
proof -
  have "now + 1 - Tick_get t = (now - Tick_get t) + 1" by (simp add: algebra_simps)
  moreover have "unat ((now - Tick_get t) + 1) = unat (now - Tick_get t) + 1"
    using assms unat_add_lem [of "now - Tick_get t" 1] by (simp add: tick_age_def)
  ultimately show ?thesis unfolding tick_age_def by presburger
qed

lemma age_ok_advance:
  assumes ok: "age_ok C T s t" and C: "C \<le> T" "T - C < 1073741824"
  shows "age_ok C (T + 1) s t"
proof -
  have lt: "tick_age (of_nat T) t < 4294967295"
    using ok C unfolding age_ok_def by linarith
  have "tick_age (of_nat (T + 1)) t = tick_age (of_nat T) t + 1"
    using tick_age_Suc [OF lt] by (simp add: add.commute)
  with ok C show ?thesis
    unfolding age_ok_def by linarith
qed

lemma age_ok_check:
  assumes "age_ok C T s t"
  shows "age_ok T T s (Tick_check_tick t (Tick (of_nat T)))"
  using assms by (simp add: age_ok_def tick_age_check clamped_age_def)

text \<open>
  The world: \<open>C\<close> is the time of the last pass that really ran. The clock's own \<open>last_check\<close>
  stays at its initial value, so a pass runs exactly when the wrapped time is at least
  \<open>CHECK_CYCLE\<close>; between two passes there are at most \<open>CHECK_CYCLE + 2 * MAINTENANCE\<close> ticks.
\<close>

definition clock_inv ::
  "('s \<Rightarrow> 'p \<Rightarrow> Tick option) \<Rightarrow> ('s \<Rightarrow> bool) \<Rightarrow> nat \<Rightarrow> nat \<Rightarrow> nat \<Rightarrow>
   ('p tick_place \<rightharpoonup> nat) \<Rightarrow> 's world_clock \<Rightarrow> bool" where
  "clock_inv tick_at ok C T g ss w \<longleftrightarrow>
     clk_this_run w = of_nat T \<and> clk_last_check w = Tick 0 \<and> ok (clk_storages w) \<and>
     g \<le> MAINTENANCE \<and> g \<le> T \<and> C \<le> T - g \<and>
     T - g - C \<le> (if (T - g) mod 4294967296 \<ge> 536870912 then 0
                  else (T - g) mod 4294967296 + MAINTENANCE) \<and>
     (\<forall>p s. ss p = Some s \<longrightarrow> (\<exists>t. tick_of tick_at w p = Some t \<and> age_ok C T s t))"

lemma check_due_iff:
  "clk_this_run w = of_nat T \<Longrightarrow> clk_last_check w = Tick 0 \<Longrightarrow>
   clk_this_run w - Tick_get (clk_last_check w) \<ge> CHECK_CYCLE \<longleftrightarrow>
   T mod 4294967296 \<ge> 536870912"
  by (simp add: CHECK_CYCLE_eq word_le_nat_alt)

lemma mod_block:
  fixes T' T m :: nat
  assumes "T \<le> T'" "T' - T \<le> 268435456" "T' mod 4294967296 < 536870912"
  shows "T mod 4294967296 \<ge> 536870912 \<or> T' - T + T mod 4294967296 = T' mod 4294967296"
proof (cases "T mod 4294967296 \<ge> 536870912")
  case False
  have "T' mod 4294967296 = (T mod 4294967296 + (T' - T)) mod 4294967296"
    using assms(1) by (metis le_add_diff_inverse mod_add_left_eq)
  moreover have "T mod 4294967296 + (T' - T) < 4294967296"
    using False assms(2) by linarith
  ultimately show ?thesis by (simp add: add.commute)
qed simp

lemma clock_inv_gap: "clock_inv tick_at ok C T g ss w \<Longrightarrow> C \<le> T \<and> T - C < 1073741824"
  by (auto simp: clock_inv_def MAINTENANCE_def split: if_splits)

lemma clock_inv_age:
  "clock_inv tick_at ok C T g ss w \<Longrightarrow> ss p = Some s \<Longrightarrow> \<exists>t. tick_of tick_at w p = Some t \<and> age_ok C T s t"
  by (simp add: clock_inv_def)

lemma tick_of_advance [simp]: "tick_of tick_at (snd (World_advance_tick w)) p = tick_of tick_at w p"
  by (cases p) (simp_all add: tick_of_def World_advance_tick_def)

lemma clock_inv_advance:
  assumes inv: "clock_inv tick_at ok C T g ss w" and g: "g < MAINTENANCE"
  shows "clock_inv tick_at ok C (T + 1) (g + 1) ss (snd (World_advance_tick w))"
proof -
  have "\<exists>t. tick_of tick_at (snd (World_advance_tick w)) p = Some t \<and> age_ok C (T + 1) s t" if "ss p = Some s" for p s
    using clock_inv_age [OF inv that] clock_inv_gap [OF inv] age_ok_advance [of C T s] by auto
  with inv g show ?thesis
    by (auto simp: clock_inv_def World_advance_tick_def add.commute split: if_splits)
qed

lemma clock_inv_next:
  assumes inv: "clock_inv tick_at ok C T 0 ss w"
  shows "clock_inv tick_at ok C (T + 1) 1 (ss(World_last_run \<mapsto> T)) (World_next_run w)"
proof -
  have adv: "clock_inv tick_at ok C (T + 1) 1 ss (snd (World_advance_tick w))"
    using clock_inv_advance [OF inv] by (simp add: MAINTENANCE_def)
  have now: "clk_this_run w = of_nat T" using inv by (simp add: clock_inv_def)
  have "\<exists>t. tick_of tick_at (World_next_run w) p = Some t \<and> age_ok C (T + 1) s t"
    if "(ss(World_last_run \<mapsto> T)) p = Some s" for p s
  proof (cases p)
    case World_last_run
    then show ?thesis using that age_ok_written [of T "T + 1" C] now by (simp add: tick_of_def World_next_run_def)
  next
    case (Stored q)
    then show ?thesis using clock_inv_age [OF adv, of p s] that
      by (simp add: tick_of_def World_next_run_def World_advance_tick_def)
  qed
  with adv show ?thesis
    by (auto simp: clock_inv_def World_next_run_def World_advance_tick_def)
qed

lemma clock_inv_store:
  assumes inv: "clock_inv tick_at ok C T g ss w" and ok: "ok s'"
    and wr: "ticks_written tick_at T w ss (w\<lparr>clk_storages := s'\<rparr>) ss'"
  shows "clock_inv tick_at ok C T g ss' (w\<lparr>clk_storages := s'\<rparr>)"
proof -
  have "\<exists>t. tick_of tick_at (w\<lparr>clk_storages := s'\<rparr>) p = Some t \<and> age_ok C T s t" if "ss' p = Some s" for p s
    using wr that clock_inv_age [OF inv, of _ s] age_ok_written [of s T C]
    unfolding ticks_written_def MAX_TICK_AGE_eq by fastforce
  with inv ok show ?thesis by (simp add: clock_inv_def)
qed

context tick_pass
begin

lemma check_age:
  assumes inv: "clock_inv tick_at ok C T g ss w" and kept: "times_kept pass reached T w ss ss'"
    and ran: "fst (World_check_ticks pass w) \<noteq> None" and p: "ss' p = Some s"
  shows "\<exists>t. tick_of tick_at (w\<lparr>clk_storages := pass (Tick (of_nat T)) (clk_storages w)\<rparr>) p = Some t \<and> age_ok T T s t"
proof -
  obtain t where t: "tick_of tick_at w p = Some t" "age_ok C T s t"
    using clock_inv_age [OF inv, of p s] kept p unfolding times_kept_def by blast
  have young: "(\<exists>q. p = Stored q \<and> reached (clk_storages w) q) \<or> T - s < 3221225470"
    using kept p ran unfolding times_kept_def MAX_TICK_AGE_eq by fastforce
  have ok: "ok (clk_storages w)" using inv by (simp add: clock_inv_def)
  show ?thesis
  proof (cases p)
    case World_last_run
    then show ?thesis using t young age_ok_young [OF t(2)] by (simp add: tick_of_def)
  next
    case (Stored q)
    then show ?thesis
      using t young age_ok_young [OF t(2)] age_ok_check [OF t(2)] pass_tick [OF ok, of "Tick (of_nat T)" q]
      by (simp add: tick_of_def split: if_splits)
  qed
qed

lemma inv_check:
  assumes inv: "clock_inv tick_at ok C T g ss w" and kept: "times_kept pass reached T w ss ss'"
  shows "\<exists>C'. clock_inv tick_at ok C' T 0 ss' (snd (World_check_ticks pass w))"
proof (cases "T mod 4294967296 \<ge> 536870912")
  case True
  have due: "CHECK_CYCLE \<le> clk_this_run w - Tick_get (clk_last_check w)"
    using inv True check_due_iff [of w T] by (simp add: clock_inv_def)
  then have run: "World_check_ticks pass w =
      (Some (Tick (of_nat T)), w\<lparr>clk_storages := pass (Tick (of_nat T)) (clk_storages w)\<rparr>)"
    using inv by (simp add: clock_inv_def World_check_ticks_def check_ticks_cold_def Let_def)
  then have "clock_inv tick_at ok T T 0 ss' (snd (World_check_ticks pass w))"
    using check_age [OF inv kept] inv pass_ok by (simp add: clock_inv_def)
  then show ?thesis ..
next
  case False
  then have "\<not> CHECK_CYCLE \<le> clk_this_run w - Tick_get (clk_last_check w)"
    using inv check_due_iff [of w T] by (simp add: clock_inv_def)
  then have same: "snd (World_check_ticks pass w) = w"
    by (simp add: World_check_ticks_def)
  have "g \<le> T" "g \<le> 268435456" "C \<le> T - g"
    "T - g - C \<le> (if (T - g) mod 4294967296 \<ge> 536870912 then 0
                  else (T - g) mod 4294967296 + 268435456)"
    using inv unfolding clock_inv_def MAINTENANCE_def by blast+
  then have gap: "T - C \<le> T mod 4294967296 + MAINTENANCE"
    using mod_block [of "T - g" T] False unfolding MAINTENANCE_def
    by (simp split: if_splits; linarith)
  have "ss p = Some s" if "ss' p = Some s" for p s
    using kept that unfolding times_kept_def by blast
  then have "clock_inv tick_at ok C T 0 ss' w"
    using inv False gap by (auto simp: clock_inv_def)
  then show ?thesis unfolding same ..
qed

lemma inv_reset:
  assumes inv: "clock_inv tick_at ok C T g ss w" and kept: "times_kept pass reached T w ss ss1"
    and kept2: "times_kept pass reached (T + 1) (World_next_run (snd (World_check_ticks pass w))) (ss1(World_last_run \<mapsto> T)) ss2"
  shows "\<exists>C'. clock_inv tick_at ok C' (T + 1) 0 ss2 (snd (World_reset_last_run pass w))"
proof -
  obtain C1 where "clock_inv tick_at ok C1 T 0 ss1 (snd (World_check_ticks pass w))"
    using inv_check [OF inv kept] ..
  from inv_check [OF clock_inv_next [OF this] kept2] show ?thesis
    by (simp add: World_reset_last_run_def World_next_run_def Let_def)
qed

lemma reach_inv: "clock_reach pass tick_at reached ok T g ss w \<Longrightarrow> \<exists>C. clock_inv tick_at ok C T g ss w"
proof (induction rule: clock_reach.induct)
  case (start s)
  have "clock_inv tick_at ok 0 1 0 [World_last_run \<mapsto> 0] (World_clock_alloc s)"
    using start age_ok_written [of 0 1 0] by (simp add: clock_inv_def World_clock_alloc_def tick_of_def)
  then show ?case ..
next
  case (advance T g ss w)
  then show ?case using clock_inv_advance by blast
next
  case (store T g ss w s' ss')
  show ?case using store.IH clock_inv_store [of tick_at ok _ T g ss w s' ss'] store.hyps(2,3) by blast
next
  case (check T g ss w ss')
  show ?case using check.IH inv_check [OF _ check.hyps(2)] by blast
next
  case (reset T g ss w ss1 ss2)
  show ?case using reset.IH inv_reset [OF _ reset.hyps(2,3)] by blast
qed

lemma reach_age:
  assumes "clock_reach pass tick_at reached ok T g ss w" "ss p = Some s"
  obtains t where "tick_of tick_at w p = Some t" "s \<le> T" "clamped_age (clk_this_run w) t = min (T - s) 3221225470"
proof -
  obtain C where inv: "clock_inv tick_at ok C T g ss w" using reach_inv [OF assms(1)] ..
  obtain t where "tick_of tick_at w p = Some t" "age_ok C T s t" using clock_inv_age [OF inv assms(2)] by blast
  moreover have "clk_this_run w = of_nat T" using inv by (simp add: clock_inv_def)
  ultimately show thesis using that by (simp add: age_ok_def clamped_age_def)
qed

lemma reach_ok: "clock_reach pass tick_at reached ok T g ss w \<Longrightarrow> ok (clk_storages w)"
  using reach_inv by (fastforce simp: clock_inv_def)

lemma reach_newer:
  assumes reach: "clock_reach pass tick_at reached ok T g ss w" and "ss p = Some s" "ss q = Some t"
  shows "\<exists>a b. tick_of tick_at w p = Some a \<and> tick_of tick_at w q = Some b \<and> s \<le> T \<and> t \<le> T \<and>
    (Tick_is_newer_than a b (fst (World_advance_tick w)) \<longleftrightarrow>
       min (T - s) (unat MAX_TICK_AGE) < min (T - t) (unat MAX_TICK_AGE))"
proof -
  obtain a where a: "tick_of tick_at w p = Some a" "s \<le> T" "clamped_age (clk_this_run w) a = min (T - s) 3221225470"
    using reach_age [OF reach assms(2)] .
  obtain b where b: "tick_of tick_at w q = Some b" "t \<le> T" "clamped_age (clk_this_run w) b = min (T - t) 3221225470"
    using reach_age [OF reach assms(3)] .
  show ?thesis
    using a b by (simp add: World_advance_tick_def newer_iff_clamped_age MAX_TICK_AGE_eq)
qed

end

section \<open>Properties\<close>

text \<open>
  C2. \<open>World::check_ticks\<close> never records that it ran: once a validation pass has been due,
  asking again at the same tick runs the whole pass again, at every tick until the counter wraps.
\<close>

theorem check_ticks_not_recorded:
  assumes "fst (World_check_ticks check_all w) = Some e"
  shows "fst (World_check_ticks check_all (snd (World_check_ticks check_all w))) = Some e \<and>
     clk_last_check (snd (World_check_ticks check_all w)) = clk_last_check w"
  using assms
  by (auto simp: World_check_ticks_def check_ticks_cold_def Let_def split: if_splits)

theorem check_ticks_not_recorded_witness:
  "let w = \<lparr>clk_this_run = 536870912, clk_last_run = Tick 0, clk_last_check = Tick 0,
            clk_storages = ([] :: Tick list)\<rparr>
   in fst (World_check_ticks (\<lambda>now. map (\<lambda>t. Tick_check_tick t now)) (snd (World_check_ticks (\<lambda>now. map (\<lambda>t. Tick_check_tick t now)) w)))
        = Some (Tick 536870912)"
proof -
  let ?w = "\<lparr>clk_this_run = 536870912, clk_last_run = Tick 0, clk_last_check = Tick 0,
            clk_storages = ([] :: Tick list)\<rparr>"
  have "fst (World_check_ticks (\<lambda>now. map (\<lambda>t. Tick_check_tick t now)) ?w) = Some (Tick 536870912)"
    by (simp add: World_check_ticks_def check_ticks_cold_def CHECK_CYCLE_eq Let_def)
  from check_ticks_not_recorded [OF this] show ?thesis by simp
qed

end
