(* ===== verification/Columns.thy ===== *)
theory Columns
  imports Ticks "HOL-Library.Monad_Syntax"
begin

text \<open>
  Untyped component columns (\<open>crates/voker-ecs/src/storage/column/\<close>). The memory behind a
  \<open>BlobArray\<close> or a \<open>TickArray\<close> is a list of cells as long as the allocated capacity; an uninitialised
  cell is \<open>None\<close>. Moving a value out leaves its bytes in place, so a cell may keep a stale copy: which cells are
  live is known to the owner of the column only. A component value is an element of \<open>'v\<close>; a call of the
  component's drop function is recorded in the list of dropped values an operation returns, and drop
  functions return normally. An operation is \<open>None\<close> when it reads or writes outside of the allocation
  or reads an uninitialised cell.
\<close>

section \<open>Cells\<close>

definition cell_get :: "'a option list \<Rightarrow> nat \<Rightarrow> 'a option" where
  "cell_get xs i = (if i < length xs then xs ! i else None)"

definition cell_set :: "'a option list \<Rightarrow> nat \<Rightarrow> 'a \<Rightarrow> 'a option list option" where
  "cell_set xs i v = (if i < length xs then Some (xs[i := Some v]) else None)"

definition cell_copy :: "'a option list \<Rightarrow> nat \<Rightarrow> nat \<Rightarrow> 'a option list option" where
  "cell_copy xs src dst = (if src < length xs \<and> dst < length xs then Some (xs[dst := xs ! src]) else None)"

definition cells_resize :: "'a option list \<Rightarrow> nat \<Rightarrow> 'a option list" where
  "cells_resize xs n = take n xs @ replicate (n - length xs) None"

section \<open>BlobArray\<close>

record 'v BlobArray =
  blob_data :: "'v option list"
  blob_dropper :: bool

definition BlobArray_new :: "bool \<Rightarrow> 'v BlobArray" where
  "BlobArray_new dropper = \<lparr>blob_data = [], blob_dropper = dropper\<rparr>"

definition BlobArray_alloc :: "'v BlobArray \<Rightarrow> nat \<Rightarrow> 'v BlobArray" where
  "BlobArray_alloc b capacity = b\<lparr>blob_data := replicate capacity None\<rparr>"

definition BlobArray_realloc :: "'v BlobArray \<Rightarrow> nat \<Rightarrow> 'v BlobArray" where
  "BlobArray_realloc b new_capacity = b\<lparr>blob_data := cells_resize (blob_data b) new_capacity\<rparr>"

definition BlobArray_get :: "'v BlobArray \<Rightarrow> nat \<Rightarrow> 'v option" where
  "BlobArray_get b index = cell_get (blob_data b) index"

definition BlobArray_init_item :: "'v BlobArray \<Rightarrow> nat \<Rightarrow> 'v \<Rightarrow> 'v BlobArray option" where
  "BlobArray_init_item b index v = do {
     data \<leftarrow> cell_set (blob_data b) index v;
     Some (b\<lparr>blob_data := data\<rparr>)
   }"

definition drop_call :: "'v BlobArray \<Rightarrow> nat \<Rightarrow> 'v list option" where
  "drop_call b index =
     (if blob_dropper b then map_option (\<lambda>v. [v]) (cell_get (blob_data b) index) else Some [])"

definition BlobArray_replace_item :: "'v BlobArray \<Rightarrow> nat \<Rightarrow> 'v \<Rightarrow> ('v list \<times> 'v BlobArray) option" where
  "BlobArray_replace_item b index v = do {
     dropped \<leftarrow> drop_call b index;
     b \<leftarrow> BlobArray_init_item b index v;
     Some (dropped, b)
   }"

definition BlobArray_remove_item :: "'v BlobArray \<Rightarrow> nat \<Rightarrow> 'v option" where
  "BlobArray_remove_item b index = cell_get (blob_data b) index"

definition BlobArray_drop_item :: "'v BlobArray \<Rightarrow> nat \<Rightarrow> 'v list option" where
  "BlobArray_drop_item b index = drop_call b index"

definition BlobArray_drop_slice :: "'v BlobArray \<Rightarrow> nat \<Rightarrow> 'v list option" where
  "BlobArray_drop_slice b len = map_option concat (those (map (drop_call b) [0..<len]))"

definition BlobArray_swap_remove_not_last :: "'v BlobArray \<Rightarrow> nat \<Rightarrow> nat \<Rightarrow> 'v BlobArray option" where
  "BlobArray_swap_remove_not_last b index last_index =
     (let d = blob_data b
      in if index < length d \<and> last_index < length d
         then Some (b\<lparr>blob_data := d[index := d ! last_index, last_index := d ! index]\<rparr>)
         else None)"

definition BlobArray_swap_forget_not_last :: "'v BlobArray \<Rightarrow> nat \<Rightarrow> nat \<Rightarrow> 'v BlobArray option" where
  "BlobArray_swap_forget_not_last b index last_index = do {
     data \<leftarrow> cell_copy (blob_data b) last_index index;
     Some (b\<lparr>blob_data := data\<rparr>)
   }"

definition BlobArray_swap_drop_not_last :: "'v BlobArray \<Rightarrow> nat \<Rightarrow> nat \<Rightarrow> ('v list \<times> 'v BlobArray) option" where
  "BlobArray_swap_drop_not_last b index last_index = do {
     b \<leftarrow> BlobArray_swap_remove_not_last b index last_index;
     dropped \<leftarrow> drop_call b last_index;
     Some (dropped, b)
   }"

section \<open>Column\<close>

type_synonym TickArray = "Tick option list"

record 'v Column =
  col_data :: "'v BlobArray"
  col_added :: TickArray
  col_changed :: TickArray

definition Column_new :: "bool \<Rightarrow> 'v Column" where
  "Column_new dropper = \<lparr>col_data = BlobArray_new dropper, col_added = [], col_changed = []\<rparr>"

definition Column_alloc :: "'v Column \<Rightarrow> nat \<Rightarrow> 'v Column" where
  "Column_alloc c new_capacity =
     \<lparr>col_data = BlobArray_alloc (col_data c) new_capacity,
      col_added = replicate new_capacity None, col_changed = replicate new_capacity None\<rparr>"

definition Column_realloc :: "'v Column \<Rightarrow> nat \<Rightarrow> 'v Column" where
  "Column_realloc c new_capacity =
     \<lparr>col_data = BlobArray_realloc (col_data c) new_capacity,
      col_added = cells_resize (col_added c) new_capacity, col_changed = cells_resize (col_changed c) new_capacity\<rparr>"

definition Column_get_data :: "'v Column \<Rightarrow> nat \<Rightarrow> 'v option" where
  "Column_get_data c index = BlobArray_get (col_data c) index"

definition Column_get_added :: "'v Column \<Rightarrow> nat \<Rightarrow> Tick option" where
  "Column_get_added c index = cell_get (col_added c) index"

definition Column_get_changed :: "'v Column \<Rightarrow> nat \<Rightarrow> Tick option" where
  "Column_get_changed c index = cell_get (col_changed c) index"

definition Column_init_item :: "'v Column \<Rightarrow> nat \<Rightarrow> 'v \<Rightarrow> Tick \<Rightarrow> 'v Column option" where
  "Column_init_item c index v tick = do {
     data \<leftarrow> BlobArray_init_item (col_data c) index v;
     added \<leftarrow> cell_set (col_added c) index tick;
     changed \<leftarrow> cell_set (col_changed c) index tick;
     Some \<lparr>col_data = data, col_added = added, col_changed = changed\<rparr>
   }"

definition Column_replace_item :: "'v Column \<Rightarrow> nat \<Rightarrow> 'v \<Rightarrow> Tick \<Rightarrow> ('v list \<times> 'v Column) option" where
  "Column_replace_item c index v tick = do {
     (dropped, data) \<leftarrow> BlobArray_replace_item (col_data c) index v;
     changed \<leftarrow> cell_set (col_changed c) index tick;
     Some (dropped, c\<lparr>col_data := data, col_changed := changed\<rparr>)
   }"

definition Column_remove_item :: "'v Column \<Rightarrow> nat \<Rightarrow> 'v option" where
  "Column_remove_item c index = BlobArray_remove_item (col_data c) index"

definition Column_drop_item :: "'v Column \<Rightarrow> nat \<Rightarrow> 'v list option" where
  "Column_drop_item c index = BlobArray_drop_item (col_data c) index"

definition Column_drop_slice :: "'v Column \<Rightarrow> nat \<Rightarrow> 'v list option" where
  "Column_drop_slice c len = BlobArray_drop_slice (col_data c) len"

definition Column_swap_forget_not_last :: "'v Column \<Rightarrow> nat \<Rightarrow> nat \<Rightarrow> 'v Column option" where
  "Column_swap_forget_not_last c index last_index = do {
     added \<leftarrow> cell_copy (col_added c) last_index index;
     changed \<leftarrow> cell_copy (col_changed c) last_index index;
     data \<leftarrow> BlobArray_swap_forget_not_last (col_data c) index last_index;
     Some \<lparr>col_data = data, col_added = added, col_changed = changed\<rparr>
   }"

definition Column_swap_drop_not_last :: "'v Column \<Rightarrow> nat \<Rightarrow> nat \<Rightarrow> ('v list \<times> 'v Column) option" where
  "Column_swap_drop_not_last c index last_index = do {
     added \<leftarrow> cell_copy (col_added c) last_index index;
     changed \<leftarrow> cell_copy (col_changed c) last_index index;
     (dropped, data) \<leftarrow> BlobArray_swap_drop_not_last (col_data c) index last_index;
     Some (dropped, \<lparr>col_data = data, col_added = added, col_changed = changed\<rparr>)
   }"

definition Column_move_item_to :: "'v Column \<Rightarrow> 'v Column \<Rightarrow> nat \<Rightarrow> nat \<Rightarrow> 'v Column option" where
  "Column_move_item_to c other src dst = do {
     v \<leftarrow> BlobArray_remove_item (col_data c) src;
     data \<leftarrow> BlobArray_init_item (col_data other) dst v;
     added_tick \<leftarrow> cell_get (col_added c) src;
     added \<leftarrow> cell_set (col_added other) dst added_tick;
     changed_tick \<leftarrow> cell_get (col_changed c) src;
     changed \<leftarrow> cell_set (col_changed other) dst changed_tick;
     Some \<lparr>col_data = data, col_added = added, col_changed = changed\<rparr>
   }"

text \<open>The first \<open>len\<close> ticks, all initialised, are clamped in place.\<close>

definition tick_array_check :: "TickArray \<Rightarrow> nat \<Rightarrow> Tick \<Rightarrow> TickArray option" where
  "tick_array_check ts len now = do {
     ticks \<leftarrow> those (map (cell_get ts) [0..<len]);
     Some (map (Some \<circ> Tick) (check_slice_tick (map Tick_get ticks) (Tick_get now)) @ drop len ts)
   }"

definition Column_check_ticks :: "'v Column \<Rightarrow> nat \<Rightarrow> Tick \<Rightarrow> 'v Column option" where
  "Column_check_ticks c len now = do {
     added \<leftarrow> tick_array_check (col_added c) len now;
     changed \<leftarrow> tick_array_check (col_changed c) len now;
     Some (c\<lparr>col_added := added, col_changed := changed\<rparr>)
   }"

section \<open>The column as an array of cells\<close>

definition col_wf :: "nat \<Rightarrow> 'v Column \<Rightarrow> bool" where
  "col_wf cap c \<longleftrightarrow> length (blob_data (col_data c)) = cap \<and> length (col_added c) = cap \<and> length (col_changed c) = cap"

text \<open>What a reader of an initialised row sees: the value, its added tick and its changed tick.\<close>

definition Column_cell :: "'v Column \<Rightarrow> nat \<Rightarrow> ('v \<times> Tick \<times> Tick) option" where
  "Column_cell c i = do {
     v \<leftarrow> Column_get_data c i;
     a \<leftarrow> Column_get_added c i;
     ch \<leftarrow> Column_get_changed c i;
     Some (v, a, ch)
   }"

text \<open>A cell after tick maintenance.\<close>

definition clamp_cell :: "Tick \<Rightarrow> 'v \<times> Tick \<times> Tick \<Rightarrow> 'v \<times> Tick \<times> Tick" where
  "clamp_cell now = (\<lambda>(v, a, ch). (v, Tick_check_tick a now, Tick_check_tick ch now))"

abbreviation col_dropper :: "'v Column \<Rightarrow> bool" where
  "col_dropper c \<equiv> blob_dropper (col_data c)"

definition drops :: "'v Column \<Rightarrow> ('v \<times> Tick \<times> Tick) \<Rightarrow> 'v list" where
  "drops c x = (if col_dropper c then [fst x] else [])"

lemma cell_get_resize: "length xs \<le> n \<Longrightarrow> cell_get (cells_resize xs n) i = cell_get xs i"
  by (auto simp: cell_get_def cells_resize_def nth_append)

lemma length_resize [simp]: "length (cells_resize xs n) = n"
  by (simp add: cells_resize_def)

lemma cell_get_update [simp]: "i < length xs \<Longrightarrow> cell_get (xs[i := x]) j = (if j = i then x else cell_get xs j)"
  by (auto simp: cell_get_def)

lemma cell_get_nth: "i < length xs \<Longrightarrow> xs ! i = cell_get xs i"
  by (simp add: cell_get_def)

lemmas column_defs = col_wf_def Column_cell_def Column_get_data_def Column_get_added_def Column_get_changed_def
  BlobArray_get_def

lemma Column_new_wf: "col_wf 0 (Column_new d)" "col_dropper (Column_new d) = d"
  by (simp_all add: col_wf_def Column_new_def BlobArray_new_def)

lemma Column_alloc_spec:
  "col_wf n (Column_alloc c n)" "col_dropper (Column_alloc c n) = col_dropper c" "Column_cell (Column_alloc c n) i = None"
  by (auto simp: column_defs Column_alloc_def BlobArray_alloc_def cell_get_def)

lemma Column_realloc_spec:
  assumes "col_wf cap c" "cap \<le> n"
  shows "col_wf n (Column_realloc c n)" "col_dropper (Column_realloc c n) = col_dropper c"
    "Column_cell (Column_realloc c n) i = Column_cell c i"
  using assms by (auto simp: column_defs Column_realloc_def BlobArray_realloc_def cell_get_resize)

lemma Column_cell_bound: "col_wf cap c \<Longrightarrow> Column_cell c i = Some x \<Longrightarrow> i < cap"
  by (auto simp: column_defs cell_get_def split: if_splits Option.bind_splits)

lemma Column_init_item_spec:
  assumes "col_wf cap c" "i < cap"
  obtains c' where "Column_init_item c i v t = Some c'" "col_wf cap c'" "col_dropper c' = col_dropper c"
    "\<And>j. Column_cell c' j = (if j = i then Some (v, t, t) else Column_cell c j)"
  using assms that
  by (auto simp: column_defs Column_init_item_def BlobArray_init_item_def cell_set_def)

lemma Column_replace_item_spec:
  assumes "col_wf cap c" "Column_cell c i = Some x"
  obtains c' where "Column_replace_item c i v t = Some (drops c x, c')" "col_wf cap c'" "col_dropper c' = col_dropper c"
    "\<And>j. Column_cell c' j = (if j = i then Some (v, fst (snd x), t) else Column_cell c j)"
proof -
  have i: "i < cap" using assms by (rule Column_cell_bound)
  then show thesis using assms that
    by (auto simp: column_defs Column_replace_item_def BlobArray_replace_item_def BlobArray_init_item_def cell_set_def
        drop_call_def drops_def split: Option.bind_splits)
qed

lemma Column_remove_item_spec: "Column_cell c i = Some x \<Longrightarrow> Column_remove_item c i = Some (fst x)"
  by (auto simp: column_defs Column_remove_item_def BlobArray_remove_item_def split: Option.bind_splits)

lemma Column_drop_item_spec: "Column_cell c i = Some x \<Longrightarrow> Column_drop_item c i = Some (drops c x)"
  by (auto simp: column_defs Column_drop_item_def BlobArray_drop_item_def drop_call_def drops_def split: Option.bind_splits)

lemma Column_swap_forget_spec:
  assumes "col_wf cap c" "i < cap" "lst < cap"
  obtains c' where "Column_swap_forget_not_last c i lst = Some c'" "col_wf cap c'" "col_dropper c' = col_dropper c"
    "\<And>j. Column_cell c' j = (if j = i then Column_cell c lst else Column_cell c j)"
  using assms that
  by (auto simp: column_defs Column_swap_forget_not_last_def BlobArray_swap_forget_not_last_def cell_copy_def cell_get_nth)

lemma Column_swap_drop_spec:
  assumes "col_wf cap c" "Column_cell c i = Some x" "lst < cap" "i \<noteq> lst"
  obtains c' where "Column_swap_drop_not_last c i lst = Some (drops c x, c')" "col_wf cap c'" "col_dropper c' = col_dropper c"
    "\<And>j. j \<noteq> lst \<Longrightarrow> Column_cell c' j = (if j = i then Column_cell c lst else Column_cell c j)"
proof -
  have i: "i < cap" using assms(1,2) by (rule Column_cell_bound)
  then show thesis using assms that
    by (auto simp: column_defs Column_swap_drop_not_last_def BlobArray_swap_drop_not_last_def
        BlobArray_swap_remove_not_last_def cell_copy_def cell_get_nth drop_call_def drops_def Let_def
        split: Option.bind_splits)
qed

lemma Column_move_item_to_spec:
  assumes "col_wf cap other" "Column_cell c src = Some x" "dst < cap"
  obtains other' where "Column_move_item_to c other src dst = Some other'" "col_wf cap other'"
    "col_dropper other' = col_dropper other"
    "\<And>j. Column_cell other' j = (if j = dst then Some x else Column_cell other j)"
  using assms that
  by (auto simp: column_defs Column_move_item_to_def BlobArray_remove_item_def BlobArray_init_item_def cell_set_def
      split: Option.bind_splits)

lemma those_map_Some: "(\<And>x. x \<in> set xs \<Longrightarrow> f x = Some (g x)) \<Longrightarrow> those (map f xs) = Some (map g xs)"
  by (induction xs) auto

lemma tick_array_check_spec:
  assumes "\<And>i. i < len \<Longrightarrow> cell_get ts i = Some (g i)"
  shows "\<exists>ts'. tick_array_check ts len now = Some ts' \<and> length ts' = length ts \<and>
    (\<forall>i. cell_get ts' i = (if i < len then Some (Tick_check_tick (g i) now) else cell_get ts i))"
proof -
  have l: "len \<le> length ts"
    using assms by (rule_tac ccontr) (metis cell_get_def less_irrefl linorder_not_le option.distinct(1))
  have "those (map (cell_get ts) [0..<len]) = Some (map g [0..<len])"
    using assms by (intro those_map_Some) simp
  moreover have "map Tick (check_slice_tick (map Tick_get (map g [0..<len])) (Tick_get now)) =
      map (\<lambda>t. Tick_check_tick t now) (map g [0..<len])"
    using check_slice_tick_eq [of "map Tick_get (map g [0..<len])" "Tick_get now"] by (simp add: comp_def)
  then have "map (Some \<circ> Tick) (check_slice_tick (map Tick_get (map g [0..<len])) (Tick_get now)) =
      map (\<lambda>i. Some (Tick_check_tick (g i) now)) [0..<len]"
    by (simp add: comp_def flip: map_map [of Some Tick, unfolded comp_def])
  ultimately have "tick_array_check ts len now =
      Some (map (\<lambda>i. Some (Tick_check_tick (g i) now)) [0..<len] @ drop len ts)"
    by (simp add: tick_array_check_def)
  then show ?thesis using l by (auto simp: cell_get_def nth_append)
qed

lemma Column_check_ticks_spec:
  assumes wf: "col_wf cap c" and init: "\<And>i. i < len \<Longrightarrow> Column_cell c i \<noteq> None"
  obtains c' where "Column_check_ticks c len now = Some c'" "col_wf cap c'" "col_dropper c' = col_dropper c"
    "\<And>i. Column_cell c' i = (if i < len
       then map_option (\<lambda>(v, a, ch). (v, Tick_check_tick a now, Tick_check_tick ch now)) (Column_cell c i)
       else Column_cell c i)"
proof -
  have init': "\<exists>v. cell_get (blob_data (col_data c)) i = Some v"
    "\<exists>t. cell_get (col_added c) i = Some t" "\<exists>t. cell_get (col_changed c) i = Some t" if "i < len" for i
    using init [OF that] by (auto simp: column_defs split: Option.bind_splits)
  then have "cell_get (col_added c) i = Some (the (cell_get (col_added c) i))"
    "cell_get (col_changed c) i = Some (the (cell_get (col_changed c) i))" if "i < len" for i
    using that by fastforce+
  then obtain ad ch where
    "tick_array_check (col_added c) len now = Some ad" "length ad = length (col_added c)"
    "\<And>i. cell_get ad i = (if i < len then Some (Tick_check_tick (the (cell_get (col_added c) i)) now) else cell_get (col_added c) i)"
    "tick_array_check (col_changed c) len now = Some ch" "length ch = length (col_changed c)"
    "\<And>i. cell_get ch i = (if i < len then Some (Tick_check_tick (the (cell_get (col_changed c) i)) now) else cell_get (col_changed c) i)"
    using tick_array_check_spec [of len "col_added c" "\<lambda>i. the (cell_get (col_added c) i)" now]
      tick_array_check_spec [of len "col_changed c" "\<lambda>i. the (cell_get (col_changed c) i)" now] by blast
  then show thesis using wf
    by (intro that [of "c\<lparr>col_added := ad, col_changed := ch\<rparr>"])
       (auto simp: Column_check_ticks_def column_defs dest: init' split: Option.bind_splits)
qed

end
