(* ===== verification/EntityIds.thy ===== *)
theory EntityIds
  imports Prelude
begin

text \<open>
  Entity identifiers (\<open>crates/voker-ecs/src/entity/ident.rs\<close>): the index part
  \<open>EntityId\<close> (a non-zero 32-bit integer), the generation \<open>EntityTag\<close>, and \<open>Entity\<close>, which
  packs both into 64 bits with the index in the low half. A panic is \<open>None\<close>.
\<close>

section \<open>EntityId, EntityTag, Entity\<close>

datatype EntityId = EntityId (EntityId_to_bits: u32)

definition EntityId_without_provenance :: "nat \<Rightarrow> EntityId option" where
  "EntityId_without_provenance i =
     (if i = 0 \<or> i > unat (- 1 :: u32) then None else Some (EntityId (of_nat i)))"

definition EntityId_index :: "EntityId \<Rightarrow> nat" where
  "EntityId_index i = unat (EntityId_to_bits i)"

datatype EntityTag = EntityTag (EntityTag_bits: u32)

definition EntityTag_FIRST :: EntityTag where
  "EntityTag_FIRST = EntityTag 0"

definition EntityTag_wrapping_add :: "EntityTag \<Rightarrow> u32 \<Rightarrow> EntityTag" where
  "EntityTag_wrapping_add t versions = EntityTag (EntityTag_bits t + versions)"

definition EntityTag_checked_add :: "EntityTag \<Rightarrow> u32 \<Rightarrow> EntityTag \<times> bool" where
  "EntityTag_checked_add t versions =
     (EntityTag (EntityTag_bits t + versions),
      unat (EntityTag_bits t) + unat versions \<ge> 2 ^ 32)"

datatype Ordering = Less | Equal | Greater

definition EntityTag_cmp :: "EntityTag \<Rightarrow> EntityTag \<Rightarrow> Ordering" where
  "EntityTag_cmp a b =
     (let DIFF_MAX = drop_bit 1 (- 1 :: u32);
          d = EntityTag_bits a - EntityTag_bits b
      in if d = 0 then Equal
         else if 1 \<le> d \<and> d < DIFF_MAX then Greater
         else Less)"

datatype Entity = Entity (Entity_id: EntityId) (Entity_tag: EntityTag)

definition Entity_index :: "Entity \<Rightarrow> nat" where
  "Entity_index e = EntityId_index (Entity_id e)"

definition Entity_to_bits :: "Entity \<Rightarrow> u64" where
  "Entity_to_bits e =
     push_bit 32 (ucast (EntityTag_bits (Entity_tag e))) OR ucast (EntityId_to_bits (Entity_id e))"

definition Entity_from_bits_unchecked :: "u64 \<Rightarrow> Entity" where
  "Entity_from_bits_unchecked bits =
     Entity (EntityId (ucast bits)) (EntityTag (ucast (drop_bit 32 bits)))"

definition Entity_from_bits :: "u64 \<Rightarrow> Entity option" where
  "Entity_from_bits bits =
     (let entity = Entity_from_bits_unchecked bits
      in if EntityId_to_bits (Entity_id entity) \<noteq> 0 then Some entity else None)"

definition Entity_PLACEHOLDER :: Entity where
  "Entity_PLACEHOLDER = Entity_from_bits_unchecked (- 1)"

definition Entity_eq :: "Entity \<Rightarrow> Entity \<Rightarrow> bool" where
  "Entity_eq a b \<longleftrightarrow> Entity_to_bits a = Entity_to_bits b"

definition Entity_cmp :: "Entity \<Rightarrow> Entity \<Rightarrow> Ordering" where
  "Entity_cmp a b =
     (if Entity_to_bits a < Entity_to_bits b then Less
      else if Entity_to_bits a = Entity_to_bits b then Equal
      else Greater)"

text \<open>
  \<open>Serialize\<close> and \<open>Deserialize\<close> go through the same 64 bits; the deserializer reports a zero index
  as an error instead of panicking.
\<close>

datatype de_error = InvalidEntity

definition Entity_serialize :: "Entity \<Rightarrow> u64" where
  "Entity_serialize e = Entity_to_bits e"

definition Entity_deserialize :: "u64 \<Rightarrow> de_error + Entity" where
  "Entity_deserialize bits =
     (let entity = Entity_from_bits_unchecked bits
      in if EntityId_to_bits (Entity_id entity) \<noteq> 0 then Inr entity else Inl InvalidEntity)"

section \<open>Packing\<close>

definition valid_entity :: "Entity \<Rightarrow> bool" where
  "valid_entity e \<longleftrightarrow> EntityId_to_bits (Entity_id e) \<noteq> 0"

lemma ucast_low_pack: "(ucast (push_bit 32 (ucast (t :: u32)) OR ucast (i :: u32) :: u64) :: u32) = i"
  by (rule bit_eqI) (auto simp: bit_simps)

lemma ucast_high_pack:
  "(ucast (drop_bit 32 (push_bit 32 (ucast (t :: u32)) OR ucast (i :: u32) :: u64)) :: u32) = t"
  by (rule bit_eqI) (auto simp: bit_simps dest: bit_32_lt)

lemma pack_unpack:
  "(push_bit 32 (ucast (ucast (drop_bit 32 b) :: u32)) OR ucast (ucast b :: u32) :: u64) = b"
  by (rule bit_eqI) (auto simp: bit_simps)

lemma from_bits_unchecked_to_bits [simp]:
  "Entity_from_bits_unchecked (Entity_to_bits e) = e"
  by (cases e; cases "Entity_id e"; cases "Entity_tag e")
     (simp add: Entity_from_bits_unchecked_def Entity_to_bits_def ucast_low_pack ucast_high_pack del: drop_bit_or)

lemma to_bits_from_bits_unchecked [simp]:
  "Entity_to_bits (Entity_from_bits_unchecked b) = b"
  by (simp add: Entity_from_bits_unchecked_def Entity_to_bits_def pack_unpack)

lemma Entity_to_bits_inject [simp]: "Entity_to_bits a = Entity_to_bits b \<longleftrightarrow> a = b"
  by (metis from_bits_unchecked_to_bits)

text \<open>Entities are ordered by their packed bits; the library's order classes apply to them.\<close>

instantiation Entity :: linorder
begin

definition less_eq_Entity :: "Entity \<Rightarrow> Entity \<Rightarrow> bool" where
  "less_eq_Entity a b \<longleftrightarrow> Entity_to_bits a \<le> Entity_to_bits b"

definition less_Entity :: "Entity \<Rightarrow> Entity \<Rightarrow> bool" where
  "less_Entity a b \<longleftrightarrow> Entity_to_bits a < Entity_to_bits b"

instance
  by standard (auto simp: less_eq_Entity_def less_Entity_def simp flip: Entity_to_bits_inject)

end

lemma Entity_cmp_eq: "Entity_cmp a b = (if a < b then Less else if a = b then Equal else Greater)"
  by (simp add: Entity_cmp_def less_Entity_def)

lemma unat_pack: "unat (Entity_to_bits e) =
   unat (EntityTag_bits (Entity_tag e)) * 2 ^ 32 + unat (EntityId_to_bits (Entity_id e))"
proof -
  have "Entity_to_bits e = push_bit 32 (ucast (EntityTag_bits (Entity_tag e)))
      + ucast (EntityId_to_bits (Entity_id e))"
    unfolding Entity_to_bits_def by (rule disjunctive_add [symmetric]) (auto simp: bit_simps dest: bit_32_lt)
  moreover have "unat (push_bit 32 (ucast (EntityTag_bits (Entity_tag e)) :: u64))
      = unat (EntityTag_bits (Entity_tag e)) * 2 ^ 32"
    using unat_lt_32 [of "EntityTag_bits (Entity_tag e)"]
    by (simp add: push_bit_eq_mult unat_word_ariths unsigned_ucast_eq take_bit_nat_eq_self)
  moreover have "unat (ucast (EntityId_to_bits (Entity_id e)) :: u64) = unat (EntityId_to_bits (Entity_id e))"
    using unat_lt_32 [of "EntityId_to_bits (Entity_id e)"]
    by (simp add: unsigned_ucast_eq take_bit_nat_eq_self)
  ultimately show ?thesis
    using unat_lt_32 [of "EntityTag_bits (Entity_tag e)"] unat_lt_32 [of "EntityId_to_bits (Entity_id e)"]
    by (simp add: unat_word_ariths)
qed

text \<open>The packed order is lexicographic: first the tag, then the index.\<close>

lemma pack_less:
  fixes a b c d m :: nat
  assumes "b < m" "d < m"
  shows "a * m + b < c * m + d \<longleftrightarrow> a < c \<or> (a = c \<and> b < d)"
proof -
  have step: "x * m + u < y * m + v" if "x < y" "u < m" for x y u v :: nat
  proof -
    have "Suc x * m \<le> y * m" using that(1) by (intro mult_le_mono1) simp
    then show ?thesis using that(2) by simp
  qed
  show ?thesis using step [of a c b d] step [of c a d b] assms by (cases a c rule: linorder_cases) auto
qed

lemma Entity_less_iff:
  "a < b \<longleftrightarrow> EntityTag_bits (Entity_tag a) < EntityTag_bits (Entity_tag b) \<or>
     (Entity_tag a = Entity_tag b \<and>
      EntityId_to_bits (Entity_id a) < EntityId_to_bits (Entity_id b))"
proof -
  have tag: "unat (EntityTag_bits (Entity_tag a)) = unat (EntityTag_bits (Entity_tag b))
      \<longleftrightarrow> Entity_tag a = Entity_tag b"
    by (cases "Entity_tag a"; cases "Entity_tag b") (simp add: word_unat_eq_iff)
  show ?thesis
    using pack_less [OF unat_lt_32 [of "EntityId_to_bits (Entity_id a)"] unat_lt_32 [of "EntityId_to_bits (Entity_id b)"]]
    by (simp add: less_Entity_def word_less_nat_alt unat_pack tag)
qed

text \<open>The window in which \<open>EntityTag::cmp\<close> orders two generations.\<close>

lemma DIFF_MAX_eq: "mask 31 = (2147483647 :: u32)"
  by (simp add: mask_eq_exp_minus_1)

lemma unat_uminus_32: "(k :: u32) \<noteq> 0 \<Longrightarrow> unat (- k) = 2 ^ 32 - unat k"
proof -
  assume "k \<noteq> 0"
  then have "0 < unat k" by (simp add: unat_gt_0)
  moreover have "(unat (- k) + unat k) mod 2 ^ 32 = 0"
    using unat_word_ariths(1) [of "- k" k] by simp
  then obtain q where "unat (- k) + unat k = 2 ^ 32 * q" by (auto simp: mod_eq_0_iff_dvd elim: dvdE)
  ultimately have "q = 1" "unat (- k) + unat k = 2 ^ 32 * q"
    using unat_lt_32 [of k] unat_lt_32 [of "- k"] by simp_all
  then show ?thesis by simp
qed

lemma tag_cmp_diff:
  "EntityTag_cmp (EntityTag_wrapping_add t k) t =
     (if k = 0 then Equal else if unat k < 2147483647 then Greater else Less)"
  "EntityTag_cmp t (EntityTag_wrapping_add t k) =
     (if k = 0 then Equal else if unat k > 2147483649 then Greater else Less)"
proof -
  have pos: "1 \<le> d \<longleftrightarrow> d \<noteq> 0" for d :: u32
    by (simp add: word_le_nat_alt unat_eq_zero Suc_le_eq unat_gt_0)
  show "EntityTag_cmp (EntityTag_wrapping_add t k) t =
     (if k = 0 then Equal else if unat k < 2147483647 then Greater else Less)"
    by (simp add: EntityTag_cmp_def EntityTag_wrapping_add_def DIFF_MAX_eq Let_def pos word_less_nat_alt)
  have "EntityTag_bits t - EntityTag_bits (EntityTag_wrapping_add t k) = - k"
    by (simp add: EntityTag_wrapping_add_def)
  then show "EntityTag_cmp t (EntityTag_wrapping_add t k) =
     (if k = 0 then Equal else if unat k > 2147483649 then Greater else Less)"
    using unat_lt_32 [of k]
    by (auto simp: EntityTag_cmp_def DIFF_MAX_eq Let_def pos word_less_nat_alt unat_uminus_32)
qed

section \<open>Properties\<close>


text \<open>
  C36. Comparing the packed bits, as \<open>Eq\<close> and \<open>Ord\<close> of \<open>Entity\<close> do, is structural equality and the
  lexicographic order on (tag, index).
\<close>

theorem entity_cmp_lexicographic:
  "Entity_eq a b = (a = b) \<and>
   Entity_cmp a b =
     (if EntityTag_bits (Entity_tag a) < EntityTag_bits (Entity_tag b) then Less
      else if EntityTag_bits (Entity_tag a) > EntityTag_bits (Entity_tag b) then Greater
      else if EntityId_to_bits (Entity_id a) < EntityId_to_bits (Entity_id b) then Less
      else if EntityId_to_bits (Entity_id a) > EntityId_to_bits (Entity_id b) then Greater
      else Equal)"
proof -
  have "a = b \<longleftrightarrow> EntityTag_bits (Entity_tag a) = EntityTag_bits (Entity_tag b) \<and>
      EntityId_to_bits (Entity_id a) = EntityId_to_bits (Entity_id b)"
    by (metis Entity.expand EntityId.expand EntityTag.expand)
  then show ?thesis
    by (auto simp: Entity_eq_def Entity_cmp_eq Entity_less_iff EntityTag.expand)
qed

text \<open>
  C37. A tag that is \<open>k\<close> generations ahead of another compares as newer, and the older as older, for
  every distance below \<open>0x7FFFFFFF\<close>; at the three distances around half of the range both
  comparisons answer \<open>Less\<close>, so \<open>EntityTag::cmp\<close> is not antisymmetric there.
\<close>

theorem tag_cmp_window:
  assumes "k \<noteq> 0"
  shows "((EntityTag_cmp (EntityTag_wrapping_add t k) t = Greater \<and>
           EntityTag_cmp t (EntityTag_wrapping_add t k) = Less) = (unat k < 2147483647)) \<and>
         ((EntityTag_cmp (EntityTag_wrapping_add t k) t = Less \<and>
           EntityTag_cmp t (EntityTag_wrapping_add t k) = Less)
           = (2147483647 \<le> unat k \<and> unat k \<le> 2147483649))"
  using assms by (auto simp: tag_cmp_diff)

theorem tag_cmp_window_witness:
  "EntityTag_cmp (EntityTag 5) (EntityTag 3) = Greater \<and>
   EntityTag_cmp (EntityTag 3) (EntityTag 2147483650) = Less \<and>
   EntityTag_cmp (EntityTag 2147483650) (EntityTag 3) = Less"
  using tag_cmp_window [of 2 "EntityTag 3"] tag_cmp_window [of 2147483647 "EntityTag 3"]
  by (simp add: EntityTag_wrapping_add_def)

end
