(* ===== verification/Entities.thy ===== *)
theory Entities
  imports EntityIds
begin

text \<open>
  The registry of entity metadata (\<open>crates/voker-ecs/src/entity/info.rs\<close>, with the error types of
  \<open>error.rs\<close>): for every entity index its current tag and, while it is spawned, its storage location.
\<close>

section \<open>Locations, infos and errors\<close>

type_synonym ArcheId = nat
type_synonym TableId = nat
type_synonym ArcheRow = nat
type_synonym TableRow = nat

record EntityLocation =
  loc_arche_id :: ArcheId
  loc_table_id :: TableId
  loc_arche_row :: ArcheRow
  loc_table_row :: TableRow

record EntityInfo =
  info_tag :: EntityTag
  info_location :: "EntityLocation option"

definition DEFAULT_INFO :: EntityInfo where
  "DEFAULT_INFO = \<lparr>info_tag = EntityTag_FIRST, info_location = None\<rparr>"

datatype FetchError = Fetch_NotFound EntityId | Fetch_NotSpawned Entity | Fetch_Mismatch Entity Entity
datatype MoveError = Move_NotFound EntityId | Move_NotSpawned Entity | Move_Mismatch Entity Entity
datatype DespawnError = Despawn_NotFound EntityId | Despawn_NotSpawned Entity | Despawn_Mismatch Entity Entity
datatype SpawnError = Spawn_NotFound EntityId | Spawn_AlreadySpawned Entity | Spawn_Mismatch Entity Entity

fun FetchError_to_DespawnError :: "FetchError \<Rightarrow> DespawnError" where
  "FetchError_to_DespawnError (Fetch_NotFound i) = Despawn_NotFound i"
| "FetchError_to_DespawnError (Fetch_NotSpawned e) = Despawn_NotSpawned e"
| "FetchError_to_DespawnError (Fetch_Mismatch x a) = Despawn_Mismatch x a"

fun FetchError_to_MoveError :: "FetchError \<Rightarrow> MoveError" where
  "FetchError_to_MoveError (Fetch_NotFound i) = Move_NotFound i"
| "FetchError_to_MoveError (Fetch_NotSpawned e) = Move_NotSpawned e"
| "FetchError_to_MoveError (Fetch_Mismatch x a) = Move_Mismatch x a"

section \<open>Entities\<close>

text \<open>The vector of infos; its capacity equals its length, since it only grows by \<open>resize\<close>.\<close>

type_synonym Entities = "EntityInfo list"

definition info_get :: "Entities \<Rightarrow> nat \<Rightarrow> EntityInfo option" where
  "info_get es i = (if i < length es then Some (es ! i) else None)"

definition info_or_default :: "Entities \<Rightarrow> nat \<Rightarrow> EntityInfo" where
  "info_or_default es i = (case info_get es i of Some info \<Rightarrow> info | None \<Rightarrow> DEFAULT_INFO)"

definition Entities_new :: Entities where
  "Entities_new = []"

definition Entities_count_spawned :: "Entities \<Rightarrow> nat" where
  "Entities_count_spawned es = length (filter (\<lambda>info. info_location info \<noteq> None) es)"

definition Entities_resolve :: "Entities \<Rightarrow> EntityId \<Rightarrow> Entity" where
  "Entities_resolve es i = Entity i (info_tag (info_or_default es (EntityId_index i)))"

definition Entities_try_locate :: "Entities \<Rightarrow> Entity \<Rightarrow> FetchError + EntityLocation option" where
  "Entities_try_locate es entity =
     (let info = info_or_default es (Entity_index entity)
      in if info_tag info \<noteq> Entity_tag entity
         then Inl (Fetch_Mismatch entity (Entity (Entity_id entity) (info_tag info)))
         else Inr (info_location info))"

definition Entities_locate :: "Entities \<Rightarrow> Entity \<Rightarrow> FetchError + EntityLocation" where
  "Entities_locate es entity =
     (case info_get es (Entity_index entity) of
        None \<Rightarrow> Inl (Fetch_NotFound (Entity_id entity))
      | Some info \<Rightarrow>
          if info_tag info \<noteq> Entity_tag entity
          then Inl (Fetch_Mismatch entity (Entity (Entity_id entity) (info_tag info)))
          else (case info_location info of
                  None \<Rightarrow> Inl (Fetch_NotSpawned entity)
                | Some location \<Rightarrow> Inr location))"

definition Entities_resize :: "Entities \<Rightarrow> nat \<Rightarrow> Entities" where
  "Entities_resize es len =
     (let capacity = vec_reserve (length es) (length es) (len - length es)
      in es @ replicate (capacity - length es) DEFAULT_INFO)"

definition Entities_free :: "Entities \<Rightarrow> EntityId \<Rightarrow> u32 \<Rightarrow> Entity \<times> Entities" where
  "Entities_free es i version =
     (let index = EntityId_index i;
          es = (if index \<ge> length es then Entities_resize es (index + 1) else es);
          info = es ! index;
          new_tag = fst (EntityTag_checked_add (info_tag info) version)
      in (Entity i new_tag, es[index := info\<lparr>info_tag := new_tag\<rparr>]))"

definition Entities_can_spawn :: "Entities \<Rightarrow> Entity \<Rightarrow> SpawnError + unit" where
  "Entities_can_spawn es entity =
     (let info = info_or_default es (Entity_index entity)
      in if info_location info \<noteq> None then Inl (Spawn_AlreadySpawned entity)
         else if info_tag info \<noteq> Entity_tag entity
         then Inl (Spawn_Mismatch entity (Entity (Entity_id entity) (info_tag info)))
         else Inr ())"

definition Entities_set_spawned ::
  "Entities \<Rightarrow> Entity \<Rightarrow> EntityLocation \<Rightarrow> (SpawnError + unit) \<times> Entities" where
  "Entities_set_spawned es entity location =
     (let index = Entity_index entity;
          es = (if index \<ge> length es
                then let es = Entities_resize es (index + 1)
                     in es[index := (es ! index)\<lparr>info_tag := Entity_tag entity\<rparr>]
                else es);
          info = es ! index
      in if info_tag info \<noteq> Entity_tag entity
         then (Inl (Spawn_Mismatch entity (Entity (Entity_id entity) (info_tag info))), es)
         else if info_location info \<noteq> None then (Inl (Spawn_AlreadySpawned entity), es)
         else (Inr (), es[index := info\<lparr>info_location := Some location\<rparr>]))"

definition Entities_set_despawned :: "Entities \<Rightarrow> Entity \<Rightarrow> (DespawnError + EntityLocation) \<times> Entities" where
  "Entities_set_despawned es entity =
     (case info_get es (Entity_index entity) of
        None \<Rightarrow> (Inl (Despawn_NotFound (Entity_id entity)), es)
      | Some info \<Rightarrow>
          if info_tag info \<noteq> Entity_tag entity
          then (Inl (Despawn_Mismatch entity (Entity (Entity_id entity) (info_tag info))), es)
          else (case info_location info of
                  None \<Rightarrow> Inl (Despawn_NotSpawned entity)
                | Some location \<Rightarrow> Inr location,
                es[Entity_index entity := info\<lparr>info_location := None\<rparr>]))"

definition Entities_update_location ::
  "Entities \<Rightarrow> Entity \<Rightarrow> EntityLocation \<Rightarrow> (MoveError + unit) \<times> Entities" where
  "Entities_update_location es entity location =
     (case info_get es (Entity_index entity) of
        None \<Rightarrow> (Inl (Move_NotFound (Entity_id entity)), es)
      | Some info \<Rightarrow>
          if info_tag info \<noteq> Entity_tag entity
          then (Inl (Move_Mismatch entity (Entity (Entity_id entity) (info_tag info))), es)
          else (case info_location info of
                  None \<Rightarrow> (Inl (Move_NotSpawned entity), es)
                | Some _ \<Rightarrow>
                    (Inr (), es[Entity_index entity := info\<lparr>info_location := Some location\<rparr>])))"

datatype Row = Row_Arche ArcheRow | Row_Table TableRow

record MovedEntityRow =
  moved_entity :: "Entity option"
  moved_new_row :: Row

definition MovedEntityRow_in_table :: "Entity option \<Rightarrow> TableRow \<Rightarrow> MovedEntityRow" where
  "MovedEntityRow_in_table entity row = \<lparr>moved_entity = entity, moved_new_row = Row_Table row\<rparr>"

definition MovedEntityRow_in_arche :: "Entity option \<Rightarrow> ArcheRow \<Rightarrow> MovedEntityRow" where
  "MovedEntityRow_in_arche entity row = \<lparr>moved_entity = entity, moved_new_row = Row_Arche row\<rparr>"

definition Entities_update_row :: "Entities \<Rightarrow> MovedEntityRow \<Rightarrow> (MoveError + unit) \<times> Entities" where
  "Entities_update_row es moved =
     (case moved_entity moved of
        None \<Rightarrow> (Inr (), es)
      | Some entity \<Rightarrow>
          (case info_get es (Entity_index entity) of
             None \<Rightarrow> (Inl (Move_NotFound (Entity_id entity)), es)
           | Some info \<Rightarrow>
               if info_tag info \<noteq> Entity_tag entity
               then (Inl (Move_Mismatch entity (Entity (Entity_id entity) (info_tag info))), es)
               else (case info_location info of
                       None \<Rightarrow> (Inl (Move_NotSpawned entity), es)
                     | Some location \<Rightarrow>
                         (let location = (case moved_new_row moved of
                                Row_Arche arche_row \<Rightarrow> location\<lparr>loc_arche_row := arche_row\<rparr>
                              | Row_Table table_row \<Rightarrow> location\<lparr>loc_table_row := table_row\<rparr>)
                          in (Inr (), es[Entity_index entity := info\<lparr>info_location := Some location\<rparr>])))))"

text \<open>The iterator over spawned entities; \<open>Entity::from_bits(0)\<close> panics, hence the option.\<close>

fun entities_iter_from :: "nat \<Rightarrow> Entities \<Rightarrow> (Entity \<times> EntityLocation) list option" where
  "entities_iter_from idx [] = Some []"
| "entities_iter_from idx (info # infos) =
     (case info_location info of
        None \<Rightarrow> entities_iter_from (Suc idx) infos
      | Some location \<Rightarrow>
          (case Entity_from_bits (of_nat idx) of
             None \<Rightarrow> None
           | Some temp \<Rightarrow>
               map_option (Cons (Entity (Entity_id temp) (info_tag info), location))
                 (entities_iter_from (Suc idx) infos)))"

definition Entities_iter :: "Entities \<Rightarrow> (Entity \<times> EntityLocation) list option" where
  "Entities_iter es = entities_iter_from 0 es"

section \<open>The registry as a map\<close>

lemma EntityId_index_inject [simp]: "EntityId_index i = EntityId_index j \<longleftrightarrow> i = j"
  by (cases i; cases j) (simp add: EntityId_index_def word_unat_eq_iff)

lemma Entity_index_inject [simp]: "Entity_index a = Entity_index b \<longleftrightarrow> Entity_id a = Entity_id b"
  by (simp add: Entity_index_def)

lemma Entity_eq_iff: "a = b \<longleftrightarrow> Entity_id a = Entity_id b \<and> Entity_tag a = Entity_tag b"
  by (cases a; cases b) simp

text \<open>The infos of all indices: those past the end of the vector have the default info.\<close>

lemma info_or_default_in: "i < length es \<Longrightarrow> info_or_default es i = es ! i"
  by (simp add: info_or_default_def info_get_def)

lemma info_or_default_out: "length es \<le> i \<Longrightarrow> info_or_default es i = DEFAULT_INFO"
  by (simp add: info_or_default_def info_get_def)

lemma info_or_default_update:
  "i < length es \<Longrightarrow> info_or_default (es[i := x]) = (info_or_default es)(i := x)"
  by (rule ext) (auto simp: info_or_default_def info_get_def)

lemma Entities_resize_view [simp]: "info_or_default (Entities_resize es n) = info_or_default es"
  by (rule ext) (auto simp: info_or_default_def info_get_def Entities_resize_def Let_def nth_append)

lemma Entities_resize_length: "length es \<le> n \<Longrightarrow> n \<le> length (Entities_resize es n)"
  using vec_reserve_room [of "length es" "length es" "n - length es"]
  by (simp add: Entities_resize_def Let_def)

lemma resize_if_view:
  "info_or_default (if i \<ge> length es then Entities_resize es (i + 1) else es) = info_or_default es"
  "i < length (if i \<ge> length es then Entities_resize es (i + 1) else es)"
  using Entities_resize_length [of es "i + 1"] by auto

lemma Entities_free_view:
  "fst (Entities_free es i v) = Entity i (EntityTag_wrapping_add (info_tag (info_or_default es (EntityId_index i))) v)"
  "info_or_default (snd (Entities_free es i v)) = (info_or_default es)(EntityId_index i :=
     (info_or_default es (EntityId_index i))\<lparr>info_tag :=
        EntityTag_wrapping_add (info_tag (info_or_default es (EntityId_index i))) v\<rparr>)"
proof -
  let ?j = "EntityId_index i"
  define fs where "fs = (if ?j \<ge> length es then Entities_resize es (?j + 1) else es)"
  have fs: "info_or_default fs = info_or_default es" "?j < length fs"
    unfolding fs_def by (rule resize_if_view)+
  then have "fs ! ?j = info_or_default es ?j" by (metis info_or_default_in)
  then show "fst (Entities_free es i v) = Entity i (EntityTag_wrapping_add (info_tag (info_or_default es ?j)) v)"
    "info_or_default (snd (Entities_free es i v)) = (info_or_default es)(?j :=
     (info_or_default es ?j)\<lparr>info_tag := EntityTag_wrapping_add (info_tag (info_or_default es ?j)) v\<rparr>)"
    using fs by (simp_all add: Entities_free_def fs_def [symmetric] Let_def info_or_default_update
        EntityTag_checked_add_def EntityTag_wrapping_add_def)
qed

lemma Entities_set_spawned_view:
  assumes "Entities_can_spawn es e = Inr ()"
  shows "fst (Entities_set_spawned es e l) = Inr ()"
    and "info_or_default (snd (Entities_set_spawned es e l)) = (info_or_default es)(Entity_index e :=
      (info_or_default es (Entity_index e))\<lparr>info_location := Some l\<rparr>)"
proof -
  let ?j = "Entity_index e"
  have c: "info_location (info_or_default es ?j) = None" "info_tag (info_or_default es ?j) = Entity_tag e"
    using assms by (auto simp: Entities_can_spawn_def Let_def split: if_splits)
  define gs where "gs = (if ?j \<ge> length es then Entities_resize es (?j + 1) else es)"
  have gs: "info_or_default gs = info_or_default es" "?j < length gs"
    unfolding gs_def by (rule resize_if_view)+
  then have n: "gs ! ?j = info_or_default es ?j" by (metis info_or_default_in)
  have "r\<lparr>info_tag := Entity_tag e\<rparr> = r" if "info_tag r = Entity_tag e" for r :: EntityInfo
    using that by (cases r) simp
  then have "(gs ! ?j)\<lparr>info_tag := Entity_tag e\<rparr> = gs ! ?j" using c(2) n by metis
  then have "gs[?j := (gs ! ?j)\<lparr>info_tag := Entity_tag e\<rparr>] = gs" by simp
  then have fs: "(if ?j \<ge> length es
                then (Entities_resize es (?j + 1))[?j := (Entities_resize es (?j + 1) ! ?j)\<lparr>info_tag := Entity_tag e\<rparr>]
                else es) = gs" by (simp add: gs_def split: if_splits)
  show "fst (Entities_set_spawned es e l) = Inr ()"
    "info_or_default (snd (Entities_set_spawned es e l)) = (info_or_default es)(?j :=
      (info_or_default es ?j)\<lparr>info_location := Some l\<rparr>)"
    unfolding Entities_set_spawned_def Let_def fs
    using n c gs by (simp_all add: info_or_default_update)
qed

text \<open>Where an entity is: \<open>Some\<close> exactly when it is spawned under this tag.\<close>

definition located :: "Entities \<Rightarrow> Entity \<Rightarrow> EntityLocation option" where
  "located es e = (let info = info_or_default es (Entity_index e)
     in if info_tag info = Entity_tag e then info_location info else None)"

lemma locate_located: "Entities_locate es e = Inr l \<longleftrightarrow> located es e = Some l"
  by (auto simp: Entities_locate_def located_def info_or_default_def info_get_def DEFAULT_INFO_def Let_def
      split: option.splits)

lemma located_inj: "located es e = Some l \<Longrightarrow> located es e' = Some l' \<Longrightarrow> Entity_id e = Entity_id e' \<Longrightarrow> e = e'"
  by (auto simp: located_def Let_def Entity_eq_iff Entity_index_def split: if_splits)

lemma located_in: "located es e = Some l \<Longrightarrow> Entity_index e < length es \<and> info_tag (es ! Entity_index e) = Entity_tag e \<and>
  info_location (es ! Entity_index e) = Some l"
  by (auto simp: located_def info_or_default_def info_get_def DEFAULT_INFO_def Let_def split: if_splits)

lemma located_update:
  assumes "info_tag (info_or_default es (Entity_index e)) = Entity_tag e"
    and "info_or_default es' = (info_or_default es)(Entity_index e := (info_or_default es (Entity_index e))\<lparr>info_location := l\<rparr>)"
  shows "located es' = (\<lambda>x. if x = e then l else if Entity_id x = Entity_id e then None else located es x)"
  using assms by (intro ext) (auto simp: located_def Let_def Entity_eq_iff)

lemma located_other_None:
  assumes "info_tag (info_or_default es (Entity_index e)) = Entity_tag e" "Entity_id x = Entity_id e" "x \<noteq> e"
  shows "located es x = None"
  using assms by (auto simp: located_def Let_def Entity_eq_iff Entity_index_def)

lemma set_spawned_located:
  assumes "Entities_can_spawn es e = Inr ()"
  shows "located (snd (Entities_set_spawned es e l)) = (located es)(e \<mapsto> l)"
proof -
  have tag: "info_tag (info_or_default es (Entity_index e)) = Entity_tag e"
    using assms by (auto simp: Entities_can_spawn_def Let_def split: if_splits)
  show ?thesis
    using located_update [OF tag Entities_set_spawned_view(2) [OF assms]] located_other_None [OF tag]
    by (auto simp: fun_eq_iff)
qed

lemma located_update_in:
  assumes "located es e = Some l" "es' = es[Entity_index e := (es ! Entity_index e)\<lparr>info_location := l'\<rparr>]"
  shows "located es' = (located es)(e := l')"
proof -
  note i = located_in [OF assms(1)]
  then have tag: "info_tag (info_or_default es (Entity_index e)) = Entity_tag e" by (simp add: info_or_default_in)
  have "info_or_default es' = (info_or_default es)(Entity_index e := (info_or_default es (Entity_index e))\<lparr>info_location := l'\<rparr>)"
    using i assms(2) by (simp add: info_or_default_update info_or_default_in)
  from located_update [OF tag this] located_other_None [OF tag] show ?thesis by (auto simp: fun_eq_iff)
qed

lemma set_despawned_located:
  assumes "located es e = Some l"
  shows "fst (Entities_set_despawned es e) = Inr l"
    and "located (snd (Entities_set_despawned es e)) = (located es)(e := None)"
  using located_in [OF assms] located_update_in [OF assms, of _ None]
  by (auto simp: Entities_set_despawned_def info_get_def)

lemma update_location_located:
  assumes "located es e = Some l"
  shows "fst (Entities_update_location es e l') = Inr ()"
    and "located (snd (Entities_update_location es e l')) = (located es)(e \<mapsto> l')"
  using located_in [OF assms] located_update_in [OF assms, of _ "Some l'"]
  by (auto simp: Entities_update_location_def info_get_def)

definition moved_location :: "Row \<Rightarrow> EntityLocation \<Rightarrow> EntityLocation" where
  "moved_location row l = (case row of Row_Arche r \<Rightarrow> l\<lparr>loc_arche_row := r\<rparr> | Row_Table r \<Rightarrow> l\<lparr>loc_table_row := r\<rparr>)"

lemma update_row_located:
  assumes "located es e = Some l" "moved_entity m = Some e"
  shows "fst (Entities_update_row es m) = Inr ()"
    and "located (snd (Entities_update_row es m)) = (located es)(e \<mapsto> moved_location (moved_new_row m) l)"
  using located_in [OF assms(1)] located_update_in [OF assms(1), of _ "Some (moved_location (moved_new_row m) l)"] assms(2)
  by (auto simp: Entities_update_row_def info_get_def moved_location_def Let_def)
section \<open>What the registry promises to the world\<close>

text \<open>
  A map of locations and a table of slots agree when the occupied slots are exactly the slots of
  the located entities. The slot of a location is a projection of it.
\<close>

definition agree :: "('l \<Rightarrow> 'k) \<Rightarrow> (Entity \<Rightarrow> 'l option) \<Rightarrow> ('k \<Rightarrow> Entity option) \<Rightarrow> bool" where
  "agree key f slots \<longleftrightarrow> (\<forall>k e. slots k = Some e \<longleftrightarrow> map_option key (f e) = Some k)"

lemma agreeD: "agree key f slots \<Longrightarrow> f e = Some l \<Longrightarrow> slots (key l) = Some e"
  by (auto simp: agree_def)

lemma agree_slotD: "agree key f slots \<Longrightarrow> slots k = Some e \<Longrightarrow> \<exists>l. f e = Some l \<and> key l = k"
  by (auto simp: agree_def)

lemma agree_put:
  assumes "agree key f slots" "f e = None" "slots (key l) = None"
  shows "agree key (f(e \<mapsto> l)) (slots(key l \<mapsto> e))"
  using assms by (auto simp: agree_def) (metis option.distinct(1))+

lemma agree_remove:
  assumes "agree key f slots" "f e = Some l"
  shows "agree key (f(e := None)) (slots(key l := None))"
proof -
  have iff: "slots k = Some x \<longleftrightarrow> map_option key (f x) = Some k" for k x using assms(1) by (simp add: agree_def)
  have e: "slots (key l) = Some e" using assms by (rule agreeD)
  show ?thesis unfolding agree_def
  proof (intro allI)
    fix k x
    show "((slots(key l := None)) k = Some x) = (map_option key ((f(e := None)) x) = Some k)"
    proof (cases "x = e")
      case True
      then show ?thesis using iff [of k e] assms(2) by simp
    next
      case False
      then show ?thesis using iff [of k x] e by (cases "k = key l") simp_all
    qed
  qed
qed

lemma agree_move:
  assumes "agree key f slots" "f e = Some l" "slots (key l') = None"
  shows "agree key (f(e \<mapsto> l')) (slots(key l := None, key l' \<mapsto> e))"
  using agree_put [OF agree_remove [OF assms(1,2)], of e l'] assms(3) by simp

lemma agree_relabel:
  assumes "agree key f slots" "f e = Some l" "key l' = key l"
  shows "agree key (f(e \<mapsto> l')) slots"
  using assms unfolding agree_def by auto

text \<open>
  A registry is a partial map from entities to locations that its operations update at one point;
  two handles of one index are never located at once.
\<close>

locale entity_registry =
  fixes loc :: "'s \<Rightarrow> Entity \<Rightarrow> 'l option"
    and vacant :: "'s \<Rightarrow> Entity \<Rightarrow> bool"
    and put :: "'s \<Rightarrow> Entity \<Rightarrow> 'l \<Rightarrow> 's"
    and remove :: "'s \<Rightarrow> Entity \<Rightarrow> 's"
    and relocate :: "'s \<Rightarrow> Entity \<Rightarrow> 'l \<Rightarrow> 's"
  assumes vacant_none: "vacant s e \<Longrightarrow> Entity_id e' = Entity_id e \<Longrightarrow> loc s e' = None"
    and one_handle: "loc s e = Some l \<Longrightarrow> loc s e' = Some l' \<Longrightarrow> Entity_id e = Entity_id e' \<Longrightarrow> e = e'"
    and loc_put: "vacant s e \<Longrightarrow> loc (put s e l) = (loc s)(e \<mapsto> l)"
    and loc_remove: "loc s e = Some l \<Longrightarrow> loc (remove s e) = (loc s)(e := None)"
    and loc_relocate: "loc s e = Some l \<Longrightarrow> loc (relocate s e l') = (loc s)(e \<mapsto> l')"
begin

lemma spawn_agree:
  assumes "agree key (loc s) slots" "vacant s e" "slots (key l) = None"
  shows "agree key (loc (put s e l)) (slots(key l \<mapsto> e))"
  using agree_put [OF assms(1) vacant_none [OF assms(2) refl] assms(3)] by (simp add: loc_put [OF assms(2)])

lemma despawn_agree:
  assumes "agree key (loc s) slots" "loc s e = Some l"
  shows "agree key (loc (remove s e)) (slots(key l := None))"
  using agree_remove [OF assms] by (simp add: loc_remove [OF assms(2)])

text \<open>Swap removal: \<open>e\<close> leaves, the entity \<open>m\<close> of another slot takes its place.\<close>

lemma swap_remove_agree:
  assumes a: "agree key (loc s) slots" and e: "loc s e = Some l"
    and m: "loc s m = Some lm" "key lm' = key l" "m \<noteq> e"
  shows "agree key (loc (relocate (remove s e) m lm')) (slots(key lm := None, key l \<mapsto> m))"
proof -
  note r = despawn_agree [OF a e]
  have m': "loc (remove s e) m = Some lm" using m by (simp add: loc_remove [OF e])
  have "key lm \<noteq> key l" using agreeD [OF a e] agreeD [OF a m(1)] m(3) by auto
  then show ?thesis using agree_move [OF r m', of lm'] m(2) by (simp add: loc_relocate [OF m'] fun_upd_twist)
qed

lemma stays_vacant: "loc s e = Some l \<Longrightarrow> Entity_id e' = Entity_id e \<Longrightarrow> loc (remove s e) e' = None"
  using one_handle [of s e l e'] by (cases "loc s e'") (auto simp: loc_remove)

end

interpretation reg: entity_registry located "\<lambda>es e. Entities_can_spawn es e = Inr ()"
  "\<lambda>es e l. snd (Entities_set_spawned es e l)" "\<lambda>es e. snd (Entities_set_despawned es e)"
  "\<lambda>es e l. snd (Entities_update_location es e l)"
proof (unfold_locales, goal_cases)
  case (1 s e e')
  then show ?case by (auto simp: Entities_can_spawn_def located_def Entity_index_def Let_def split: if_splits)
next
  case (2 s e l e' l')
  then show ?case by (rule located_inj)
next
  case (3 s e l)
  then show ?case by (rule set_spawned_located)
next
  case (4 s e l)
  then show ?case by (rule set_despawned_located)
next
  case (5 s e l l')
  then show ?case by (rule update_location_located)
qed

section \<open>Histories of the registry\<close>

text \<open>
  \<open>ents_reach es g\<close>: the registry after some calls that keep the callers' obligations; \<open>g i\<close> is the
  true number of versions index \<open>i\<close> has gone through, of which the tag stores the low 32 bits.
\<close>

inductive ents_reach :: "Entities \<Rightarrow> (nat \<Rightarrow> nat) \<Rightarrow> bool" where
  ents_new: "ents_reach Entities_new (\<lambda>_. 0)"
| ents_spawn: "ents_reach es g \<Longrightarrow> valid_entity e \<Longrightarrow> Entities_can_spawn es e = Inr () \<Longrightarrow>
    ents_reach (snd (Entities_set_spawned es e l)) g"
| ents_despawn: "ents_reach es g \<Longrightarrow> ents_reach (snd (Entities_set_despawned es e)) g"
| ents_update: "ents_reach es g \<Longrightarrow> ents_reach (snd (Entities_update_location es e l)) g"
| ents_update_row: "ents_reach es g \<Longrightarrow> ents_reach (snd (Entities_update_row es m)) g"
| ents_free: "ents_reach es g \<Longrightarrow> info_location (info_or_default es (EntityId_index i)) = None \<Longrightarrow>
    ents_reach (snd (Entities_free es i v)) (g(EntityId_index i := g (EntityId_index i) + unat v))"

definition ents_inv :: "Entities \<Rightarrow> (nat \<Rightarrow> nat) \<Rightarrow> bool" where
  "ents_inv es g \<longleftrightarrow> (\<forall>i. info_tag (info_or_default es i) = EntityTag (of_nat (g i)) \<and>
     (info_location (info_or_default es i) \<noteq> None \<longrightarrow> 0 < i \<and> i < 2 ^ 32))"

text \<open>Updating an existing info keeps its tag and never locates a new index.\<close>

lemma ents_inv_same:
  assumes "ents_inv es g" "j < length es" "info_tag x = info_tag (es ! j)"
    "info_location x \<noteq> None \<Longrightarrow> info_location (es ! j) \<noteq> None"
  shows "ents_inv (es[j := x]) g"
  unfolding ents_inv_def
proof
  fix i
  show "info_tag (info_or_default (es[j := x]) i) = EntityTag (of_nat (g i)) \<and>
     (info_location (info_or_default (es[j := x]) i) \<noteq> None \<longrightarrow> 0 < i \<and> i < 2 ^ 32)"
    using assms spec [OF assms(1) [unfolded ents_inv_def], of i]
    by (auto simp: info_or_default_update info_or_default_in)
qed

lemma Entity_index_valid: "valid_entity e \<Longrightarrow> 0 < Entity_index e \<and> Entity_index e < 2 ^ 32"
  using unat_lt_32 [of "EntityId_to_bits (Entity_id e)"]
  by (simp add: valid_entity_def Entity_index_def EntityId_index_def unat_gt_0)

lemma ents_reach_inv: "ents_reach es g \<Longrightarrow> ents_inv es g"
proof (induction rule: ents_reach.induct)
  case ents_new
  then show ?case by (simp add: ents_inv_def Entities_new_def info_or_default_out DEFAULT_INFO_def EntityTag_FIRST_def)
next
  case (ents_spawn es g e l)
  then show ?case
    using Entities_set_spawned_view(2) [OF ents_spawn(3), of l] Entity_index_valid [OF ents_spawn(2)]
    by (auto simp: ents_inv_def)
next
  case (ents_despawn es g e)
  then show ?case
    by (auto simp: Entities_set_despawned_def info_get_def intro!: ents_inv_same split: option.splits)
next
  case (ents_update es g e l)
  then show ?case
    by (auto simp: Entities_update_location_def info_get_def intro!: ents_inv_same split: option.splits)
next
  case (ents_update_row es g m)
  then show ?case
    by (auto simp: Entities_update_row_def info_get_def Let_def intro!: ents_inv_same split: option.splits)
next
  case (ents_free es g i v)
  then show ?case
    using Entities_free_view(2) [of es i v] by (auto simp: ents_inv_def EntityTag_wrapping_add_def)
qed

text \<open>An index that has gone through a version has an info, and two tags less than \<open>2 ^ 32\<close> versions apart differ.\<close>

lemma set_spawned_length: "length es \<le> length (snd (Entities_set_spawned es e l))"
  using Entities_resize_length [of es "Suc (Entity_index e)"]
  by (auto simp: Entities_set_spawned_def Let_def)

lemma ents_reach_freed: "ents_reach es g \<Longrightarrow> g i \<noteq> 0 \<Longrightarrow> i < length es"
proof (induction rule: ents_reach.induct)
  case (ents_spawn es g e l)
  then show ?case using set_spawned_length [of es e l] by simp
next
  case (ents_free es g j v)
  have "length es \<le> length (snd (Entities_free es j v))" "EntityId_index j < length (snd (Entities_free es j v))"
    using Entities_resize_length [of es "Suc (EntityId_index j)"] by (auto simp: Entities_free_def Let_def)
  then show ?case using ents_free.IH ents_free.prems by (cases "i = EntityId_index j") auto
qed (auto simp: Entities_set_despawned_def Entities_update_location_def Entities_update_row_def Let_def split: option.splits)

lemma of_nat_u32_neq:
  assumes "n < m" "m < n + 2 ^ 32"
  shows "(of_nat n :: u32) \<noteq> of_nat m"
proof
  assume "(of_nat n :: u32) = of_nat m"
  then have "m mod 2 ^ 32 = n mod 2 ^ 32" by (auto dest: arg_cong [of _ _ unat])
  then have "2 ^ 32 dvd m - n" using assms(1) by (simp add: mod_eq_dvd_iff_nat)
  then show False using assms by (auto dest: dvd_imp_le)
qed

lemma entities_iter_from_spec:
  assumes "idx + length es \<le> N" "\<And>i. i < length es \<Longrightarrow> info_location (es ! i) \<noteq> None \<Longrightarrow> 0 < idx + i \<and> idx + i < 2 ^ 32"
  shows "\<exists>xs. entities_iter_from idx es = Some xs \<and> distinct xs \<and>
    length xs = length (filter (\<lambda>info. info_location info \<noteq> None) es) \<and>
    (\<forall>e l. (e, l) \<in> set xs \<longleftrightarrow> idx \<le> Entity_index e \<and> Entity_index e < idx + length es \<and>
      info_tag (es ! (Entity_index e - idx)) = Entity_tag e \<and> info_location (es ! (Entity_index e - idx)) = Some l)"
  using assms
proof (induction es arbitrary: idx)
  case Nil
  then show ?case by simp
next
  case (Cons info es)
  have "\<And>i. i < length es \<Longrightarrow> info_location (es ! i) \<noteq> None \<Longrightarrow> 0 < Suc idx + i \<and> Suc idx + i < 2 ^ 32"
    using Cons.prems(2) by (metis Suc_less_eq add_Suc_shift length_Cons nth_Cons_Suc)
  then obtain xs where xs: "entities_iter_from (Suc idx) es = Some xs" "distinct xs"
    "length xs = length (filter (\<lambda>info. info_location info \<noteq> None) es)"
    "\<And>e l. (e, l) \<in> set xs \<longleftrightarrow> Suc idx \<le> Entity_index e \<and> Entity_index e < Suc idx + length es \<and>
      info_tag (es ! (Entity_index e - Suc idx)) = Entity_tag e \<and> info_location (es ! (Entity_index e - Suc idx)) = Some l"
    using Cons.IH [of "Suc idx"] Cons.prems(1) by auto
  have step: "((info # es) ! (n - idx)) = (if n = idx then info else es ! (n - Suc idx))" if "idx \<le> n" for n
    using that by (cases "n = idx") (auto simp: Suc_diff_Suc [symmetric])
  have mem: "idx \<le> Entity_index e \<and> Entity_index e < idx + length (info # es) \<and>
      info_tag ((info # es) ! (Entity_index e - idx)) = Entity_tag e \<and>
      info_location ((info # es) ! (Entity_index e - idx)) = Some l \<longleftrightarrow>
      (e, l) \<in> set xs \<or> (Entity_index e = idx \<and> info_tag info = Entity_tag e \<and> info_location info = Some l)" for e l
    unfolding xs(4) using step [of "Entity_index e"] by (cases "Entity_index e = idx") auto
  show ?case
  proof (cases "info_location info")
    case None
    then show ?thesis using xs(1-3) mem by (intro exI [of _ xs]) auto
  next
    case (Some l)
    have i: "0 < idx" "idx < 2 ^ 32" using Cons.prems(2) [of 0] Some by auto
    have bits: "Entity_from_bits (of_nat idx) = Some (Entity (EntityId (of_nat idx)) (EntityTag 0))"
    proof -
      have u: "(ucast (of_nat idx :: u64) :: u32) = of_nat idx"
        using i by (subst unsigned_of_nat) (simp add: take_bit_nat_eq_self)
      have "drop_bit 32 (of_nat idx :: u64) = 0"
        using i by (simp add: drop_bit_eq_div word_unat_eq_iff unat_div_distrib)
      moreover have "(of_nat idx :: u32) \<noteq> 0" using i by (simp add: word_unat_eq_iff)
      ultimately show ?thesis using u by (simp add: Entity_from_bits_def Entity_from_bits_unchecked_def)
    qed
    let ?e = "Entity (EntityId (of_nat idx)) (info_tag info)"
    have idx: "Entity_index ?e = idx" using i by (simp add: Entity_index_def EntityId_index_def)
    have "Entity_index e = idx \<longleftrightarrow> Entity_id e = EntityId (of_nat idx)" for e
      using Entity_index_inject [of e ?e] unfolding idx by simp
    then have same: "Entity_index e = idx \<and> info_tag info = Entity_tag e \<longleftrightarrow> e = ?e" for e
      by (auto simp: Entity_eq_iff)
    have new: "(?e, l) \<notin> set xs" using xs(4) [of ?e l] idx by auto
    have "(e, l') \<in> set ((?e, l) # xs) \<longleftrightarrow> idx \<le> Entity_index e \<and> Entity_index e < idx + length (info # es) \<and>
        info_tag ((info # es) ! (Entity_index e - idx)) = Entity_tag e \<and>
        info_location ((info # es) ! (Entity_index e - idx)) = Some l'" for e l'
      unfolding mem using same [of e] Some by auto
    moreover have "entities_iter_from idx (info # es) = Some ((?e, l) # xs)" using xs(1) Some bits by simp
    moreover have "distinct ((?e, l) # xs)" using xs(2) new by simp
    moreover have "length ((?e, l) # xs) = length (filter (\<lambda>info. info_location info \<noteq> None) (info # es))"
      using xs(3) Some by simp
    ultimately show ?thesis by blast
  qed
qed
section \<open>Properties\<close>

text \<open>
  C9. The life of an entity in the registry: spawning an entity that \<open>can_spawn\<close> accepts succeeds,
  \<open>locate\<close> then finds it where it was put and every other entity where it was, despawning it returns that
  location, and afterwards the registry locates what it located before the spawn.
\<close>

theorem spawn_locate_despawn:
  assumes "Entities_can_spawn es e = Inr ()"
  shows "let es1 = snd (Entities_set_spawned es e l); es2 = snd (Entities_set_despawned es1 e)
     in fst (Entities_set_spawned es e l) = Inr () \<and> Entities_locate es1 e = Inr l \<and>
        fst (Entities_set_despawned es1 e) = Inr l \<and>
        (\<forall>e' l'. e' \<noteq> e \<longrightarrow> (Entities_locate es1 e' = Inr l') = (Entities_locate es e' = Inr l')) \<and>
        (\<forall>e' l'. (Entities_locate es2 e' = Inr l') = (Entities_locate es e' = Inr l'))"
proof -
  let ?es1 = "snd (Entities_set_spawned es e l)"
  have l1: "located ?es1 = (located es)(e \<mapsto> l)" by (rule reg.loc_put [OF assms])
  then have at: "located ?es1 e = Some l" by simp
  have l2: "located (snd (Entities_set_despawned ?es1 e)) = (located es)(e := None)"
    using reg.loc_remove [OF at] l1 by simp
  have "located es e = None" using reg.vacant_none [OF assms] by simp
  then show ?thesis
    using Entities_set_spawned_view(1) [OF assms, of l] set_despawned_located(1) [OF at] l1 l2
    by (auto simp: Let_def locate_located)
qed

theorem spawn_locate_despawn_witness:
  "let l = \<lparr>loc_arche_id = 1, loc_table_id = 2, loc_arche_row = 3, loc_table_row = 4\<rparr>
   in Entities_locate (snd (Entities_set_spawned Entities_new (Entity (EntityId 5) (EntityTag 0)) l))
        (Entity (EntityId 5) (EntityTag 0)) = Inr l"
proof -
  have "Entities_can_spawn Entities_new (Entity (EntityId 5) (EntityTag 0)) = Inr ()"
    by (simp add: Entities_can_spawn_def Entities_new_def info_or_default_out DEFAULT_INFO_def EntityTag_FIRST_def)
  from spawn_locate_despawn [OF this] show ?thesis by (simp add: Let_def)
qed

text \<open>
  C10. A stale handle is never accepted: when the index of a handle has gone through at least one and up to
  \<open>2^32 - 1\<close> versions since the handle's tag was current, every operation of the registry that takes a handle refuses it.
  All of them report a mismatch with the index's current handle (\<open>can_spawn\<close> may report instead that the index is
  spawned), and the mutating ones leave the registry exactly as it is.
\<close>

theorem stale_handle_rejected:
  assumes "ents_reach es g" "Entity_tag e = EntityTag (of_nat n)"
    and "n < g (Entity_index e)" "g (Entity_index e) < n + 2 ^ 32"
  shows "let actual = Entities_resolve es (Entity_id e) in
    Entities_try_locate es e = Inl (Fetch_Mismatch e actual) \<and>
    Entities_locate es e = Inl (Fetch_Mismatch e actual) \<and>
    Entities_can_spawn es e \<in> {Inl (Spawn_Mismatch e actual), Inl (Spawn_AlreadySpawned e)} \<and>
    Entities_set_spawned es e l = (Inl (Spawn_Mismatch e actual), es) \<and>
    Entities_set_despawned es e = (Inl (Despawn_Mismatch e actual), es) \<and>
    Entities_update_location es e l = (Inl (Move_Mismatch e actual), es) \<and>
    Entities_update_row es (MovedEntityRow_in_table (Some e) r) = (Inl (Move_Mismatch e actual), es) \<and>
    Entities_update_row es (MovedEntityRow_in_arche (Some e) r) = (Inl (Move_Mismatch e actual), es)"
proof -
  let ?i = "Entity_index e"
  have tag: "info_tag (info_or_default es ?i) = EntityTag (of_nat (g ?i))"
    using ents_reach_inv [OF assms(1)] by (simp add: ents_inv_def)
  have "Entity_tag e \<noteq> EntityTag (of_nat (g ?i))" using of_nat_u32_neq [OF assms(3,4)] assms(2) by simp
  then have ne: "info_tag (info_or_default es ?i) \<noteq> Entity_tag e" using tag by simp
  have i: "?i < length es" using ents_reach_freed [OF assms(1), of ?i] assms(3) by simp
  have "info_get es ?i = Some (es ! ?i)" "info_or_default es ?i = es ! ?i" "info_tag (es ! ?i) \<noteq> Entity_tag e"
    "EntityId_index (Entity_id e) = ?i" "\<not> length es \<le> ?i"
    using i ne by (simp_all add: info_get_def info_or_default_in Entity_index_def)
  then show ?thesis
    by (simp add: Entities_try_locate_def Entities_locate_def Entities_can_spawn_def Entities_set_spawned_def
        Entities_set_despawned_def Entities_update_location_def Entities_update_row_def
        MovedEntityRow_in_table_def MovedEntityRow_in_arche_def Entities_resolve_def Let_def)
qed

theorem stale_handle_rejected_witness:
  "let es = snd (Entities_free Entities_new (EntityId 5) 1); e = Entity (EntityId 5) (EntityTag 0);
     l = \<lparr>loc_arche_id = 1, loc_table_id = 2, loc_arche_row = 3, loc_table_row = 4\<rparr>
   in isl (Entities_locate es e) \<and> isl (fst (Entities_set_spawned es e l)) \<and> snd (Entities_set_spawned es e l) = es"
proof -
  have r: "ents_reach (snd (Entities_free Entities_new (EntityId 5) 1)) ((\<lambda>_. 0)(EntityId_index (EntityId 5) := 0 + unat (1 :: u32)))"
    by (rule ents_free [OF ents_new]) (simp add: Entities_new_def info_or_default_out DEFAULT_INFO_def)
  show ?thesis
    using stale_handle_rejected [OF r, of "Entity (EntityId 5) (EntityTag 0)" 0 "\<lparr>loc_arche_id = 1, loc_table_id = 2, loc_arche_row = 3, loc_table_row = 4\<rparr>"] by (simp add: Entity_index_def Let_def)
qed

text \<open>
  C11. Iterating over the registry of any history never panics and yields every spawned entity
  with its location exactly once.
\<close>

theorem entities_iter_exact:
  assumes "ents_reach es g"
  shows "\<exists>xs. Entities_iter es = Some xs \<and> distinct xs \<and> length xs = Entities_count_spawned es \<and>
    (\<forall>e l. (e, l) \<in> set xs \<longleftrightarrow> Entities_locate es e = Inr l)"
proof -
  note inv = ents_reach_inv [OF assms]
  have "\<And>i. i < length es \<Longrightarrow> info_location (es ! i) \<noteq> None \<Longrightarrow> 0 < 0 + i \<and> 0 + i < 2 ^ 32"
    using inv by (auto simp: ents_inv_def info_or_default_in dest: spec)
  from entities_iter_from_spec [of 0 es "0 + length es", OF order_refl this]
  obtain xs where xs: "Entities_iter es = Some xs" "distinct xs" "length xs = Entities_count_spawned es"
    "\<And>e l. (e, l) \<in> set xs \<longleftrightarrow> Entity_index e < length es \<and> info_tag (es ! Entity_index e) = Entity_tag e \<and>
      info_location (es ! Entity_index e) = Some l"
    by (auto simp: Entities_iter_def Entities_count_spawned_def)
  have "(e, l) \<in> set xs \<longleftrightarrow> Entities_locate es e = Inr l" for e l
    unfolding xs(4) locate_located
  proof
    assume "Entity_index e < length es \<and> info_tag (es ! Entity_index e) = Entity_tag e \<and>
      info_location (es ! Entity_index e) = Some l"
    then show "located es e = Some l" by (simp add: located_def info_or_default_in)
  next
    assume "located es e = Some l"
    then show "Entity_index e < length es \<and> info_tag (es ! Entity_index e) = Entity_tag e \<and>
      info_location (es ! Entity_index e) = Some l" by (rule located_in)
  qed
  with xs(1-3) show ?thesis by blast
qed

theorem entities_iter_exact_witness:
  "let e = Entity (EntityId 5) (EntityTag 0);
       l = \<lparr>loc_arche_id = 1, loc_table_id = 2, loc_arche_row = 3, loc_table_row = 4\<rparr>;
       es = snd (Entities_set_spawned Entities_new e l)
   in \<exists>xs. Entities_iter es = Some xs \<and> distinct xs \<and> (e, l) \<in> set xs \<and> length xs = Entities_count_spawned es"
proof -
  let ?e = "Entity (EntityId 5) (EntityTag 0)"
  let ?l = "\<lparr>loc_arche_id = 1, loc_table_id = 2, loc_arche_row = 3, loc_table_row = 4\<rparr>"
  have spawn: "Entities_can_spawn Entities_new ?e = Inr ()"
    by (simp add: Entities_can_spawn_def Entities_new_def info_or_default_out DEFAULT_INFO_def EntityTag_FIRST_def)
  then have "located (snd (Entities_set_spawned Entities_new ?e ?l)) ?e = Some ?l"
    by (simp add: set_spawned_located)
  moreover have "valid_entity ?e" by (simp add: valid_entity_def)
  ultimately show ?thesis
    using entities_iter_exact [OF ents_spawn [OF ents_new _ spawn, of ?l]] by (auto simp: Let_def locate_located)
qed

end
