(* ===== verification/Tables.thy ===== *)
theory Tables
  imports Columns Entities
begin

text \<open>
  Dense component storage: a table (\<open>crates/voker-ecs/src/storage/dense/table.rs\<close>) holds the
  components of all entities with one set of dense component types, one column per type and one row per
  entity, and the registry of tables (\<open>tables.rs\<close>). An operation is \<open>None\<close> when the code would read or write
  outside of its allocations, read an uninitialised cell, or abort because a table outgrows 32-bit rows.
\<close>

section \<open>Component infos\<close>

datatype StorageMode = Dense | Sparse

text \<open>The parts of a component's registration that storage depends on.\<close>

record ComponentInfo =
  ci_storage :: StorageMode
  ci_dropper :: bool

text \<open>The infos by component id; the registry of components extends them by what only it and the archetypes need.\<close>

type_synonym 'i ComponentInfos = "'i ComponentInfo_scheme list"

section \<open>Table\<close>

record 'v Table =
  tb_id :: TableId
  tb_columns :: "'v Column list"
  tb_components :: "ComponentId list"
  tb_entities :: "Entity list"
  tb_capacity :: nat

definition Table_new :: "TableId \<Rightarrow> 'i ComponentInfos \<Rightarrow> ComponentId list \<Rightarrow> 'v Table" where
  "Table_new table_id components idents =
     \<lparr>tb_id = table_id,
      tb_columns = map (\<lambda>i. Column_new (ci_dropper (components ! i))) idents,
      tb_components = idents, tb_entities = [], tb_capacity = 0\<rparr>"

definition Table_check_ticks :: "'v Table \<Rightarrow> Tick \<Rightarrow> 'v Table option" where
  "Table_check_ticks t now = do {
     let len = length (tb_entities t);
     columns \<leftarrow> those (map (\<lambda>c. Column_check_ticks c len now) (tb_columns t));
     Some (t\<lparr>tb_columns := columns\<rparr>)
   }"

definition Table_drop :: "'v Table \<Rightarrow> 'v list option" where
  "Table_drop t = map_option concat
     (those (map (\<lambda>c. Column_drop_slice c (length (tb_entities t))) (tb_columns t)))"

definition Table_reserve_many :: "'v Table \<Rightarrow> 'v Table option" where
  "Table_reserve_many t =
     (let old_cap = tb_capacity t;
          new_cap = vec_reserve old_cap (length (tb_entities t)) 1
      in if new_cap \<le> 4294967295
         then Some (t\<lparr>tb_capacity := new_cap,
                     tb_columns := map (\<lambda>col. if old_cap \<noteq> 0 then Column_realloc col new_cap
                                              else Column_alloc col new_cap) (tb_columns t)\<rparr>)
         else None)"

definition Table_alloc_row :: "'v Table \<Rightarrow> Entity \<Rightarrow> (TableRow \<times> 'v Table) option" where
  "Table_alloc_row t entity = do {
     let len = length (tb_entities t);
     t \<leftarrow> (if len = tb_capacity t then Table_reserve_many t else Some t);
     Some (len, t\<lparr>tb_entities := tb_entities t @ [entity]\<rparr>)
   }"

text \<open>\<open>VecRemoveExt::move_last_to\<close> and \<open>remove_last\<close> on the vector of entities.\<close>

definition vec_move_last_to :: "'a list \<Rightarrow> nat \<Rightarrow> nat \<Rightarrow> 'a \<times> 'a list" where
  "vec_move_last_to xs last_index to =
     (let v = xs ! last_index in (v, take last_index (xs[to := v])))"

definition vec_remove_last :: "'a list \<Rightarrow> nat \<Rightarrow> 'a \<times> 'a list" where
  "vec_remove_last xs last_index = (xs ! last_index, take last_index xs)"

text \<open>Applying a fallible operation to every column, collecting the dropped values in column order.\<close>

fun for_columns :: "('v Column \<Rightarrow> ('v list \<times> 'v Column) option) \<Rightarrow> 'v Column list \<Rightarrow> ('v list \<times> 'v Column list) option" where
  "for_columns f [] = Some ([], [])"
| "for_columns f (c # cs) = do {
     (d, c) \<leftarrow> f c;
     (ds, cs) \<leftarrow> for_columns f cs;
     Some (d @ ds, c # cs)
   }"

definition Table_dealloc_row :: "bool \<Rightarrow> 'v Table \<Rightarrow> TableRow \<Rightarrow> ('v list \<times> MovedEntityRow \<times> 'v Table) option" where
  "Table_dealloc_row DROP t table_row =
     (if length (tb_entities t) \<le> table_row then None
      else let removal = table_row; last_index = length (tb_entities t) - 1
           in if removal \<noteq> last_index
              then do {
                let (swapped, entities) = vec_move_last_to (tb_entities t) last_index removal;
                (dropped, columns) \<leftarrow> for_columns
                   (\<lambda>c. if DROP then Column_swap_drop_not_last c removal last_index
                        else map_option (Pair []) (Column_swap_forget_not_last c removal last_index))
                   (tb_columns t);
                Some (dropped, MovedEntityRow_in_table (Some swapped) table_row,
                      t\<lparr>tb_entities := entities, tb_columns := columns\<rparr>)
              }
              else do {
                let entities = take last_index (tb_entities t);
                (dropped, columns) \<leftarrow> for_columns
                   (\<lambda>c. if DROP then map_option (\<lambda>d. (d, c)) (Column_drop_item c last_index) else Some ([], c))
                   (tb_columns t);
                Some (dropped, MovedEntityRow_in_table None table_row,
                      t\<lparr>tb_entities := entities, tb_columns := columns\<rparr>)
              })"

text \<open>Binary search in a strictly sorted slice: the one index that holds the key.\<close>

fun binary_search :: "ComponentId list \<Rightarrow> ComponentId \<Rightarrow> nat option" where
  "binary_search [] key = None"
| "binary_search (x # xs) key = (if x = key then Some 0 else map_option Suc (binary_search xs key))"

definition Table_get_table_col :: "'v Table \<Rightarrow> ComponentId \<Rightarrow> nat option" where
  "Table_get_table_col t key = binary_search (tb_components t) key"

definition Table_get_table_row :: "'v Table \<Rightarrow> Entity \<Rightarrow> nat option" where
  "Table_get_table_row t key =
     (case filter (\<lambda>i. tb_entities t ! i = key) [0..<length (tb_entities t)] of [] \<Rightarrow> None | i # _ \<Rightarrow> Some i)"

definition Table_get_column :: "'v Table \<Rightarrow> nat \<Rightarrow> 'v Column option" where
  "Table_get_column t index = (if index < length (tb_columns t) then Some (tb_columns t ! index) else None)"

definition Table_get_data :: "'v Table \<Rightarrow> TableRow \<Rightarrow> nat \<Rightarrow> 'v option" where
  "Table_get_data t row col = do { c \<leftarrow> Table_get_column t col; Column_get_data c row }"

definition Table_get_added :: "'v Table \<Rightarrow> TableRow \<Rightarrow> nat \<Rightarrow> Tick option" where
  "Table_get_added t row col = do { c \<leftarrow> Table_get_column t col; Column_get_added c row }"

definition Table_get_changed :: "'v Table \<Rightarrow> TableRow \<Rightarrow> nat \<Rightarrow> Tick option" where
  "Table_get_changed t row col = do { c \<leftarrow> Table_get_column t col; Column_get_changed c row }"

definition Table_init_item :: "'v Table \<Rightarrow> nat \<Rightarrow> TableRow \<Rightarrow> 'v \<Rightarrow> Tick \<Rightarrow> 'v Table option" where
  "Table_init_item t col row v tick = do {
     c \<leftarrow> Table_get_column t col;
     c \<leftarrow> Column_init_item c row v tick;
     Some (t\<lparr>tb_columns := (tb_columns t)[col := c]\<rparr>)
   }"

definition Table_replace_item :: "'v Table \<Rightarrow> nat \<Rightarrow> TableRow \<Rightarrow> 'v \<Rightarrow> Tick \<Rightarrow> ('v list \<times> 'v Table) option" where
  "Table_replace_item t col row v tick = do {
     c \<leftarrow> Table_get_column t col;
     (dropped, c) \<leftarrow> Column_replace_item c row v tick;
     Some (dropped, t\<lparr>tb_columns := (tb_columns t)[col := c]\<rparr>)
   }"

definition Table_remove_item :: "'v Table \<Rightarrow> nat \<Rightarrow> TableRow \<Rightarrow> 'v option" where
  "Table_remove_item t col row = do { c \<leftarrow> Table_get_column t col; Column_remove_item c row }"

definition Table_drop_item :: "'v Table \<Rightarrow> nat \<Rightarrow> TableRow \<Rightarrow> 'v list option" where
  "Table_drop_item t col row = do { c \<leftarrow> Table_get_column t col; Column_drop_item c row }"

text \<open>
  The loop of \<open>move_row\<close> over the source's columns: a column the destination has moves its item there,
  another one drops or forgets it; then the last row fills the gap unless it is the moved one.
\<close>

fun move_columns ::
  "bool \<Rightarrow> bool \<Rightarrow> nat \<Rightarrow> nat \<Rightarrow> nat \<Rightarrow> (ComponentId \<times> 'v Column) list \<Rightarrow> 'v Table
     \<Rightarrow> ('v list \<times> 'v Column list \<times> 'v Table) option" where
  "move_columns DROP swap src last_index dst [] other = Some ([], [], other)"
| "move_columns DROP swap src last_index dst ((i, col) # cols) other = do {
     (d, col, other) \<leftarrow>
       (case Table_get_table_col other i of
          Some table_col \<Rightarrow> do {
            other_col \<leftarrow> Table_get_column other table_col;
            other_col \<leftarrow> Column_move_item_to col other_col src dst;
            let other = other\<lparr>tb_columns := (tb_columns other)[table_col := other_col]\<rparr>;
            col \<leftarrow> (if swap then Column_swap_forget_not_last col src last_index else Some col);
            Some ([], col, other)
          }
        | None \<Rightarrow>
            if DROP then
              (if swap then map_option (\<lambda>(d, c). (d, c, other)) (Column_swap_drop_not_last col src last_index)
               else map_option (\<lambda>d. (d, col, other)) (Column_drop_item col last_index))
            else
              (if swap then map_option (\<lambda>c. ([], c, other)) (Column_swap_forget_not_last col src last_index)
               else Some ([], col, other)));
     (ds, cols, other) \<leftarrow> move_columns DROP swap src last_index dst cols other;
     Some (d @ ds, col # cols, other)
   }"

definition Table_move_row ::
  "bool \<Rightarrow> 'v Table \<Rightarrow> TableRow \<Rightarrow> 'v Table \<Rightarrow> ('v list \<times> MovedEntityRow \<times> TableRow \<times> 'v Table \<times> 'v Table) option" where
  "Table_move_row DROP t table_row other =
     (if length (tb_entities t) \<le> table_row then None
      else let src = table_row; last_index = length (tb_entities t) - 1;
               swap = (src \<noteq> last_index);
               moved = tb_entities t ! src;
               (swapped, entities) =
                 (if swap then (case vec_move_last_to (tb_entities t) last_index src of (e, es) \<Rightarrow> (Some e, es))
                  else (case vec_remove_last (tb_entities t) last_index of (e, es) \<Rightarrow> (None, es)))
           in do {
             (dst, other) \<leftarrow> Table_alloc_row other moved;
             (dropped, columns, other) \<leftarrow>
               move_columns DROP swap src last_index dst (zip (tb_components t) (tb_columns t)) other;
             Some (dropped, MovedEntityRow_in_table swapped table_row, dst,
                   t\<lparr>tb_entities := entities, tb_columns := columns\<rparr>, other)
           })"

section \<open>Tables\<close>

record 'v Tables =
  tbs_tables :: "'v Table list"
  tbs_mapper :: "(ComponentId list \<times> TableId) list"

definition Tables_new :: "'v Tables" where
  "Tables_new = \<lparr>tbs_tables = [Table_new 0 ([] :: ComponentInfo list) []], tbs_mapper = [([], 0)]\<rparr>"

text \<open>Registering panics with ``too many tables'' when the next id would be the maximum of 32 bits.\<close>

definition TableId_new :: "u32 \<Rightarrow> TableId outcome" where
  "TableId_new i = (case NonMaxU32_new i of Some table_id \<Rightarrow> Done table_id | None \<Rightarrow> Panic)"

definition Tables_register ::
  "'v Tables \<Rightarrow> 'i ComponentInfos \<Rightarrow> ComponentId list \<Rightarrow> (TableId \<times> 'v Tables) outcome" where
  "Tables_register ts components idents =
     (case map_of (tbs_mapper ts) idents of
        Some table_id \<Rightarrow> Done (table_id, ts)
      | None \<Rightarrow>
          (case TableId_new (of_nat (length (tbs_tables ts))) of
             Done table_id \<Rightarrow>
               Done (table_id, \<lparr>tbs_tables = tbs_tables ts @ [Table_new table_id components idents],
                               tbs_mapper = (idents, table_id) # tbs_mapper ts\<rparr>)
           | Panic \<Rightarrow> Panic
           | Undef \<Rightarrow> Undef))"

definition Tables_get :: "'v Tables \<Rightarrow> TableId \<Rightarrow> 'v Table option" where
  "Tables_get ts i = (if i < length (tbs_tables ts) then Some (tbs_tables ts ! i) else None)"

definition Tables_get_id :: "'v Tables \<Rightarrow> ComponentId list \<Rightarrow> TableId option" where
  "Tables_get_id ts components = map_of (tbs_mapper ts) components"

section \<open>Tables as lists of rows\<close>

lemma vec_move_last_to_eq:
  "i < length xs \<Longrightarrow> i \<noteq> length xs - 1 \<Longrightarrow>
   vec_move_last_to xs (length xs - 1) i = (last xs, swap_remove i xs)"
  by (cases "xs = []") (auto simp: vec_move_last_to_def swap_remove_def Let_def last_conv_nth butlast_conv_take take_update_swap)

lemma take_last_eq: "xs \<noteq> [] \<Longrightarrow> take (length xs - 1) xs = swap_remove (length xs - 1) xs"
  by (simp add: swap_remove_def butlast_conv_take list_update_beyond)

lemma binary_search_Some: "binary_search xs k = Some j \<Longrightarrow> j < length xs \<and> xs ! j = k"
  by (induction xs arbitrary: j) (auto split: if_splits)

lemma binary_search_None: "binary_search xs k = None \<longleftrightarrow> k \<notin> set xs"
  by (induction xs) auto

lemma binary_search_nth: "distinct xs \<Longrightarrow> j < length xs \<Longrightarrow> binary_search xs (xs ! j) = Some j"
proof (induction xs arbitrary: j)
  case (Cons x xs)
  then show ?case by (cases j) auto
qed simp

definition table_wf :: "'v Table \<Rightarrow> bool" where
  "table_wf t \<longleftrightarrow> length (tb_columns t) = length (tb_components t) \<and> sorted_wrt (<) (tb_components t) \<and>
     length (tb_entities t) \<le> tb_capacity t \<and> (\<forall>c \<in> set (tb_columns t). col_wf (tb_capacity t) c)"

definition Table_cell :: "'v Table \<Rightarrow> TableRow \<Rightarrow> ComponentId \<Rightarrow> ('v \<times> Tick \<times> Tick) option" where
  "Table_cell t row i = do {
     col \<leftarrow> Table_get_table_col t i;
     c \<leftarrow> Table_get_column t col;
     Column_cell c row
   }"

definition table_full :: "'v Table \<Rightarrow> bool" where
  "table_full t \<longleftrightarrow> (\<forall>row < length (tb_entities t). \<forall>c \<in> set (tb_columns t). Column_cell c row \<noteq> None)"

definition Table_abs :: "'v Table \<Rightarrow> (Entity \<times> (ComponentId \<Rightarrow> ('v \<times> Tick \<times> Tick) option)) list" where
  "Table_abs t = map (\<lambda>row. (tb_entities t ! row, Table_cell t row)) [0..<length (tb_entities t)]"

definition same_schema :: "'v Table \<Rightarrow> 'v Table \<Rightarrow> bool" where
  "same_schema t t' \<longleftrightarrow> tb_id t' = tb_id t \<and> tb_components t' = tb_components t \<and>
     map col_dropper (tb_columns t') = map col_dropper (tb_columns t)"

lemma same_schema_refl [simp]: "same_schema t t"
  by (simp add: same_schema_def)

lemma same_schema_trans: "same_schema a b \<Longrightarrow> same_schema b c \<Longrightarrow> same_schema a c"
  by (simp add: same_schema_def)

lemma table_wf_distinct: "table_wf t \<Longrightarrow> distinct (tb_components t)"
  unfolding table_wf_def by (metis strict_sorted_iff)

lemma Table_cell_nth:
  assumes "table_wf t" "k < length (tb_components t)"
  shows "Table_cell t row (tb_components t ! k) = Column_cell (tb_columns t ! k) row"
  using assms binary_search_nth [OF table_wf_distinct [OF assms(1)] assms(2)]
  by (simp add: Table_cell_def Table_get_table_col_def Table_get_column_def table_wf_def)

lemma Table_cell_absent: "i \<notin> set (tb_components t) \<Longrightarrow> Table_cell t row i = None"
  using binary_search_None [of "tb_components t" i] by (simp add: Table_cell_def Table_get_table_col_def)

lemma Table_cell_cong:
  assumes "table_wf t" "table_wf t'" "tb_components t' = tb_components t"
    and "\<And>k. k < length (tb_columns t) \<Longrightarrow> Column_cell (tb_columns t' ! k) row' = Column_cell (tb_columns t ! k) row"
  shows "Table_cell t' row' i = Table_cell t row i"
proof (cases "i \<in> set (tb_components t)")
  case True
  then obtain k where k: "k < length (tb_components t)" "i = tb_components t ! k" by (metis in_set_conv_nth)
  then show ?thesis
    using assms(4) [of k] Table_cell_nth [OF assms(1) k(1), of row] Table_cell_nth [OF assms(2), of k row'] assms(1,3)
    by (simp add: table_wf_def)
next
  case False
  then show ?thesis using Table_cell_absent [of i t row] Table_cell_absent [of i t' row'] assms(3) by simp
qed

lemma for_columns_spec:
  assumes "\<And>c. c \<in> set cs \<Longrightarrow> \<exists>c'. f c = Some (g c, c') \<and> Q c c'"
  shows "\<exists>cs'. for_columns f cs = Some (concat (map g cs), cs') \<and> list_all2 Q cs cs'"
  using assms
proof (induction cs)
  case (Cons c cs)
  then obtain c' cs' where "f c = Some (g c, c')" "Q c c'"
    "for_columns f cs = Some (concat (map g cs), cs')" "list_all2 Q cs cs'" by fastforce
  then show ?case by auto
qed simp

definition Table_row_drops :: "'v Table \<Rightarrow> TableRow \<Rightarrow> 'v list" where
  "Table_row_drops t row = concat (map (\<lambda>c. drops c (the (Column_cell c row))) (tb_columns t))"

text \<open>The columns after row \<open>r\<close> was removed by a swap with row \<open>lst\<close>.\<close>

definition swapped_column :: "nat \<Rightarrow> nat \<Rightarrow> nat \<Rightarrow> 'v Column \<Rightarrow> 'v Column \<Rightarrow> bool" where
  "swapped_column cap r lst c c' \<longleftrightarrow> col_wf cap c' \<and> col_dropper c' = col_dropper c \<and>
     (\<forall>j. j \<noteq> lst \<longrightarrow> Column_cell c' j = (if j = r then Column_cell c lst else Column_cell c j))"

lemma swap_remove_table:
  assumes wf: "table_wf t" and full: "table_full t" and r: "r < length (tb_entities t)"
    and cols: "list_all2 (swapped_column (tb_capacity t) r (length (tb_entities t) - 1)) (tb_columns t) columns"
    and t': "t' = t\<lparr>tb_entities := swap_remove r (tb_entities t), tb_columns := columns\<rparr>"
  shows "table_wf t'" "table_full t'" "same_schema t t'" "Table_abs t' = swap_remove r (Table_abs t)"
    "map (Table_row_drops t') [0..<length (tb_entities t')] =
       swap_remove r (map (Table_row_drops t) [0..<length (tb_entities t)])"
proof -
  let ?n = "length (tb_entities t)" let ?l = "?n - 1"
  note cols' = cols [unfolded list_all2_conv_all_nth]
  have nth: "swapped_column (tb_capacity t) r ?l (tb_columns t ! k) (columns ! k)" if "k < length (tb_columns t)" for k
    using cols' that by blast
  have len: "length columns = length (tb_columns t)" using cols' by simp
  show wf': "table_wf t'"
    using wf len nth by (auto simp: table_wf_def t' in_set_conv_nth swapped_column_def)
  have cell: "Column_cell (columns ! k) j = Column_cell (tb_columns t ! k) (if j = r then ?l else j)"
    if "k < length (tb_columns t)" "j < ?l" for k j
    using nth [OF that(1)] that(2) by (auto simp: swapped_column_def)
  have old: "Column_cell (tb_columns t ! k) j \<noteq> None" if "k < length (tb_columns t)" "j < ?n" for k j
    using full that by (auto simp: table_full_def)
  show "table_full t'"
    using r len by (auto simp: table_full_def t' in_set_conv_nth cell old [simplified])
  have "map col_dropper columns = map col_dropper (tb_columns t)"
    by (rule nth_equalityI) (use nth len in \<open>auto simp: swapped_column_def\<close>)
  then show "same_schema t t'" by (simp add: same_schema_def t')
  show "Table_abs t' = swap_remove r (Table_abs t)"
  proof (rule nth_equalityI)
    show "length (Table_abs t') = length (swap_remove r (Table_abs t))" by (simp add: Table_abs_def t')
    fix j assume "j < length (Table_abs t')"
    then have j: "j < ?l" by (simp add: Table_abs_def t')
    have "Table_cell t' j i = Table_cell t (if j = r then ?l else j) i" for i
      by (rule Table_cell_cong [OF wf wf']) (use cell [OF _ j] t' in auto)
    then show "Table_abs t' ! j = swap_remove r (Table_abs t) ! j"
      using j r by (auto simp: Table_abs_def nth_swap_remove t')
  qed
  have "Table_row_drops t' j = Table_row_drops t (if j = r then ?l else j)" if "j < ?l" for j
  proof -
    have "map (\<lambda>c. drops c (the (Column_cell c j))) columns =
        map (\<lambda>c. drops c (the (Column_cell c (if j = r then ?l else j)))) (tb_columns t)"
      by (rule nth_equalityI) (use cell [OF _ that] len nth in \<open>auto simp: drops_def swapped_column_def\<close>)
    then show ?thesis by (simp add: Table_row_drops_def t')
  qed
  then show "map (Table_row_drops t') [0..<length (tb_entities t')] =
       swap_remove r (map (Table_row_drops t) [0..<?n])"
    using r by (intro nth_equalityI) (auto simp: nth_swap_remove t')
qed

lemma Table_dealloc_row_spec:
  fixes t :: "'a Table"
  assumes wf: "table_wf t" and full: "table_full t" and r: "r < length (tb_entities t)"
  shows "\<exists>t'. Table_dealloc_row DROP t r =
      Some (if DROP then Table_row_drops t r else [],
            MovedEntityRow_in_table (if r = length (tb_entities t) - 1 then None else Some (last (tb_entities t))) r, t') \<and>
    table_wf t' \<and> table_full t' \<and> same_schema t t' \<and> tb_capacity t' = tb_capacity t \<and>
    tb_entities t' = swap_remove r (tb_entities t) \<and> Table_abs t' = swap_remove r (Table_abs t) \<and>
    map (Table_row_drops t') [0..<length (tb_entities t')] =
       swap_remove r (map (Table_row_drops t) [0..<length (tb_entities t)])"
proof -
  let ?n = "length (tb_entities t)" let ?l = "?n - 1"
  define g where "g c = (if DROP then drops c (the (Column_cell c r)) else [])" for c :: "'a Column"
  have g: "concat (map g (tb_columns t)) = (if DROP then Table_row_drops t r else [])"
    by (cases DROP) (simp_all add: g_def [abs_def] Table_row_drops_def)
  have ne: "tb_entities t \<noteq> []" using r by auto
  have c: "col_wf (tb_capacity t) c" "\<exists>x. Column_cell c r = Some x" "r < tb_capacity t" "?l < tb_capacity t"
    if "c \<in> set (tb_columns t)" for c
    using that wf full r by (auto simp: table_wf_def table_full_def)
  show ?thesis
  proof (cases "r = ?l")
    case False
    let ?f = "\<lambda>c. if DROP then Column_swap_drop_not_last c r ?l else map_option (Pair []) (Column_swap_forget_not_last c r ?l)"
    have "\<exists>c'. ?f c = Some (g c, c') \<and> swapped_column (tb_capacity t) r ?l c c'" if cc: "c \<in> set (tb_columns t)" for c
    proof (cases DROP)
      case True
      obtain x where x: "Column_cell c r = Some x" using c [OF cc] by auto
      show ?thesis
        by (rule Column_swap_drop_spec [OF c(1) [OF cc] x c(4) [OF cc] False])
           (use True x in \<open>auto simp: g_def swapped_column_def\<close>)
    next
      case no: False
      show ?thesis
        by (rule Column_swap_forget_spec [OF c(1,3,4) [OF cc]])
           (use no in \<open>auto simp: g_def swapped_column_def\<close>)
    qed
    from for_columns_spec [of "tb_columns t" ?f g, OF this]
    obtain columns where cs: "for_columns ?f (tb_columns t) = Some (concat (map g (tb_columns t)), columns)"
      "list_all2 (swapped_column (tb_capacity t) r ?l) (tb_columns t) columns" by blast
    let ?t' = "t\<lparr>tb_entities := swap_remove r (tb_entities t), tb_columns := columns\<rparr>"
    have "Table_dealloc_row DROP t r = Some (concat (map g (tb_columns t)),
        MovedEntityRow_in_table (Some (last (tb_entities t))) r, ?t')"
      using False r cs(1) by (simp add: Table_dealloc_row_def vec_move_last_to_eq Let_def del: One_nat_def)
    then show ?thesis using swap_remove_table [OF wf full r cs(2) refl] False g by auto
  next
    case True
    let ?f = "\<lambda>c. if DROP then map_option (\<lambda>d. (d, c)) (Column_drop_item c ?l) else Some ([], c)"
    have "\<exists>c'. ?f c = Some (g c, c') \<and> swapped_column (tb_capacity t) r ?l c c'" if "c \<in> set (tb_columns t)" for c
      using c [OF that] Column_drop_item_spec [of c r] True by (auto simp: g_def swapped_column_def)
    from for_columns_spec [of "tb_columns t" ?f g, OF this]
    obtain columns where cs: "for_columns ?f (tb_columns t) = Some (concat (map g (tb_columns t)), columns)"
      "list_all2 (swapped_column (tb_capacity t) r ?l) (tb_columns t) columns" by blast
    let ?t' = "t\<lparr>tb_entities := swap_remove r (tb_entities t), tb_columns := columns\<rparr>"
    have "Table_dealloc_row DROP t r = Some (concat (map g (tb_columns t)), MovedEntityRow_in_table None r, ?t')"
      using True r cs(1) take_last_eq [OF ne] by (simp add: Table_dealloc_row_def Let_def del: One_nat_def)
    then show ?thesis using swap_remove_table [OF wf full r cs(2) refl] True g by auto
  qed
qed
lemma Table_new_spec:
  assumes "sorted_wrt (<) idents"
  shows "table_wf (Table_new i cs idents)" "table_full (Table_new i cs idents)" "Table_abs (Table_new i cs idents) = []"
  using assms Column_new_wf by (auto simp: table_wf_def table_full_def Table_abs_def Table_new_def)

lemma Table_alloc_row_spec:
  assumes wf: "table_wf t" and small: "length (tb_entities t) < 2 ^ 31"
  shows "\<exists>t'. Table_alloc_row t e = Some (length (tb_entities t), t') \<and> table_wf t' \<and> same_schema t t' \<and>
    tb_entities t' = tb_entities t @ [e] \<and> length (tb_entities t) < tb_capacity t' \<and>
    (\<forall>row i. row < length (tb_entities t) \<longrightarrow> Table_cell t' row i = Table_cell t row i)"
proof (cases "length (tb_entities t) = tb_capacity t")
  case False
  then have "Table_alloc_row t e = Some (length (tb_entities t), t\<lparr>tb_entities := tb_entities t @ [e]\<rparr>)"
    by (simp add: Table_alloc_row_def)
  moreover have wf': "table_wf (t\<lparr>tb_entities := tb_entities t @ [e]\<rparr>)"
    using wf False by (auto simp: table_wf_def)
  moreover have "Table_cell (t\<lparr>tb_entities := tb_entities t @ [e]\<rparr>) row i = Table_cell t row i" for row i
    by (rule Table_cell_cong [OF wf wf']) auto
  ultimately show ?thesis using wf False by (auto simp: table_wf_def same_schema_def)
next
  case True
  let ?cap = "tb_capacity t" let ?new = "vec_reserve ?cap ?cap 1"
  have new: "?cap < ?new" "?new \<le> 4294967295" using True small by (auto simp: vec_reserve_def)
  let ?f = "\<lambda>col. if ?cap \<noteq> 0 then Column_realloc col ?new else Column_alloc col ?new"
  let ?t' = "t\<lparr>tb_capacity := ?new, tb_columns := map ?f (tb_columns t), tb_entities := tb_entities t @ [e]\<rparr>"
  have a: "Table_alloc_row t e = Some (?cap, ?t')"
    using True new(2) by (simp add: Table_alloc_row_def Table_reserve_many_def Let_def)
  have f: "col_wf ?new (?f c)" "col_dropper (?f c) = col_dropper c" if "c \<in> set (tb_columns t)" for c
    using that wf new Column_realloc_spec [of ?cap c ?new] Column_alloc_spec(1) [of ?new c] Column_alloc_spec(2) [of c ?new] by (auto simp: table_wf_def)
  have wf': "table_wf ?t'" using wf f(1) new(1) True by (auto simp: table_wf_def)
  have "Column_cell (?f c) row = Column_cell c row" if "c \<in> set (tb_columns t)" "row < ?cap" for c row
    using that wf new Column_realloc_spec(3) [of ?cap c ?new row] by (auto simp: table_wf_def)
  then have "Table_cell ?t' row i = Table_cell t row i" if "row < ?cap" for row i
    using that by (intro Table_cell_cong [OF wf wf']) auto
  moreover have "map (\<lambda>c. col_dropper (?f c)) (tb_columns t) = map col_dropper (tb_columns t)"
    using f(2) by (intro map_cong) auto
  then have "same_schema t ?t'" by (simp add: same_schema_def comp_def)
  ultimately show ?thesis using a wf' True new by auto
qed

lemma set_column:
  assumes wf: "table_wf t" and k: "k < length (tb_components t)" and c: "col_wf (tb_capacity t) c'"
    and d: "col_dropper c' = col_dropper (tb_columns t ! k)"
    and t': "t' = t\<lparr>tb_columns := (tb_columns t)[k := c']\<rparr>"
  shows "table_wf t'" "same_schema t t'"
    "Table_cell t' row i = (if i = tb_components t ! k then Column_cell c' row else Table_cell t row i)"
proof -
  have lk: "k < length (tb_columns t)" using wf k by (simp add: table_wf_def)
  show wf': "table_wf t'"
    using wf c set_update_subset_insert [of "tb_columns t" k c'] by (auto simp: table_wf_def t')
  show "same_schema t t'" using d lk
    by (simp add: same_schema_def t' map_update list_update_same_conv)
  show "Table_cell t' row i = (if i = tb_components t ! k then Column_cell c' row else Table_cell t row i)"
  proof (cases "i \<in> set (tb_components t)")
    case True
    then obtain j where j: "j < length (tb_components t)" "i = tb_components t ! j" by (metis in_set_conv_nth)
    have "i = tb_components t ! k \<longleftrightarrow> j = k"
      using j k table_wf_distinct [OF wf] by (simp add: nth_eq_iff_index_eq)
    then show ?thesis
      using Table_cell_nth [OF wf j(1)] Table_cell_nth [OF wf', of j] j lk by (auto simp: t' nth_list_update)
  next
    case False
    then show ?thesis using k Table_cell_absent [of i t row] Table_cell_absent [of i t' row] by (auto simp: t')
  qed
qed

lemma Table_get_col:
  assumes "table_wf t"
  shows "Table_get_table_col t i = Some k \<Longrightarrow> k < length (tb_components t) \<and> tb_components t ! k = i \<and>
      Table_get_column t k = Some (tb_columns t ! k)"
    and "Table_get_table_col t i = None \<longleftrightarrow> i \<notin> set (tb_components t)"
  using assms binary_search_Some [of "tb_components t" i k] binary_search_None [of "tb_components t" i]
  by (auto simp: Table_get_table_col_def Table_get_column_def table_wf_def)

lemma table_col_wf: "table_wf t \<Longrightarrow> k < length (tb_components t) \<Longrightarrow> col_wf (tb_capacity t) (tb_columns t ! k)"
  by (auto simp: table_wf_def)

lemma Table_init_item_spec:
  assumes wf: "table_wf t" and k: "Table_get_table_col t i = Some k" and row: "row < tb_capacity t"
  shows "\<exists>t'. Table_init_item t k row v tick = Some t' \<and> table_wf t' \<and> same_schema t t' \<and>
    tb_entities t' = tb_entities t \<and> tb_capacity t' = tb_capacity t \<and>
    (\<forall>r j. Table_cell t' r j = (if r = row \<and> j = i then Some (v, tick, tick) else Table_cell t r j))"
proof -
  note col = Table_get_col(1) [OF wf k]
  obtain c' where c': "Column_init_item (tb_columns t ! k) row v tick = Some c'" "col_wf (tb_capacity t) c'"
    "col_dropper c' = col_dropper (tb_columns t ! k)"
    "\<And>j. Column_cell c' j = (if j = row then Some (v, tick, tick) else Column_cell (tb_columns t ! k) j)"
    using Column_init_item_spec [OF table_col_wf [OF wf] row] col by metis
  have "Table_cell t r i = Column_cell (tb_columns t ! k) r" for r
    using Table_cell_nth [OF wf, of k r] col by auto
  then show ?thesis
    using set_column [OF wf _ c'(2,3) refl] col c'(1,4) by (auto simp: Table_init_item_def)
qed

lemma Table_replace_item_spec:
  assumes wf: "table_wf t" and k: "Table_get_table_col t i = Some k" and x: "Table_cell t row i = Some x"
  shows "\<exists>t'. Table_replace_item t k row v tick = Some (drops (tb_columns t ! k) x, t') \<and> table_wf t' \<and> same_schema t t' \<and>
    tb_entities t' = tb_entities t \<and> tb_capacity t' = tb_capacity t \<and>
    (\<forall>r j. Table_cell t' r j = (if r = row \<and> j = i then Some (v, fst (snd x), tick) else Table_cell t r j))"
proof -
  note col = Table_get_col(1) [OF wf k]
  have cell: "Table_cell t r i = Column_cell (tb_columns t ! k) r" for r
    using Table_cell_nth [OF wf, of k r] col by auto
  obtain c' where c': "Column_replace_item (tb_columns t ! k) row v tick = Some (drops (tb_columns t ! k) x, c')"
    "col_wf (tb_capacity t) c'" "col_dropper c' = col_dropper (tb_columns t ! k)"
    "\<And>j. Column_cell c' j = (if j = row then Some (v, fst (snd x), tick) else Column_cell (tb_columns t ! k) j)"
    using Column_replace_item_spec [OF table_col_wf [OF wf], of k row x] col x cell by metis
  then show ?thesis
    using set_column [OF wf _ c'(2,3) refl] col cell by (auto simp: Table_replace_item_def)
qed
text \<open>Values that \<open>move_row\<close> drops: those of the columns the destination does not have.\<close>

definition move_drops :: "bool \<Rightarrow> nat \<Rightarrow> ComponentId list \<Rightarrow> (ComponentId \<times> 'v Column) list \<Rightarrow> 'v list" where
  "move_drops DROP src comps cols =
     concat (map (\<lambda>(i, c). if DROP \<and> i \<notin> set comps then drops c (the (Column_cell c src)) else []) cols)"

lemma move_column_out:
  assumes c: "col_wf cap c" "Column_cell c src = Some x" "lst < cap" "swap \<longleftrightarrow> src \<noteq> lst"
  shows "\<exists>c'. (if swap then Column_swap_forget_not_last c src lst else Some c) = Some c' \<and> swapped_column cap src lst c c'"
    and "\<exists>c'. (if swap then map_option (\<lambda>(d, c). (d, c, z)) (Column_swap_drop_not_last c src lst)
        else map_option (\<lambda>d. (d, c, z)) (Column_drop_item c lst)) = Some (drops c x, c', z) \<and> swapped_column cap src lst c c'"
proof -
  have src: "src < cap" using c(1,2) by (rule Column_cell_bound)
  show "\<exists>c'. (if swap then Column_swap_forget_not_last c src lst else Some c) = Some c' \<and> swapped_column cap src lst c c'"
  proof (cases swap)
    case True
    then show ?thesis using Column_swap_forget_spec [OF c(1) src c(3)] unfolding swapped_column_def by metis
  next
    case False
    then show ?thesis using c by (simp add: swapped_column_def)
  qed
  show "\<exists>c'. (if swap then map_option (\<lambda>(d, c). (d, c, z)) (Column_swap_drop_not_last c src lst)
        else map_option (\<lambda>d. (d, c, z)) (Column_drop_item c lst)) = Some (drops c x, c', z) \<and> swapped_column cap src lst c c'"
  proof (cases swap)
    case True
    then have "src \<noteq> lst" using c(4) by simp
    from Column_swap_drop_spec [OF c(1,2,3) this] obtain c' where
      "Column_swap_drop_not_last c src lst = Some (drops c x, c')" "col_wf cap c'" "col_dropper c' = col_dropper c"
      "\<And>j. j \<noteq> lst \<Longrightarrow> Column_cell c' j = (if j = src then Column_cell c lst else Column_cell c j)" by metis
    then show ?thesis using True by (auto simp: swapped_column_def)
  next
    case False
    then show ?thesis using c Column_drop_item_spec [OF c(2)] by (auto simp: swapped_column_def)
  qed
qed

lemma move_columns_spec:
  assumes "\<forall>a \<in> set cols. col_wf cap (snd a) \<and> Column_cell (snd a) src \<noteq> None"
    and "lst < cap" "swap \<longleftrightarrow> src \<noteq> lst" "distinct (map fst cols)"
    and "table_wf other" "dst < tb_capacity other"
  shows "\<exists>cols' other'. move_columns DROP swap src lst dst cols other =
      Some (move_drops DROP src (tb_components other) cols, cols', other') \<and>
    list_all2 (swapped_column cap src lst) (map snd cols) cols' \<and>
    table_wf other' \<and> same_schema other other' \<and> tb_entities other' = tb_entities other \<and>
    tb_capacity other' = tb_capacity other \<and>
    (\<forall>r i. Table_cell other' r i = (if r = dst \<and> i \<in> set (tb_components other) \<and> i \<in> fst ` set cols
       then Column_cell (the (map_of cols i)) src else Table_cell other r i))"
  using assms(1,4-)
proof (induction cols arbitrary: other)
  case Nil
  then show ?case by (simp add: move_drops_def)
next
  case (Cons a cols)
  obtain i c where a: "a = (i, c)" by (cases a)
  have c: "col_wf cap c" "Column_cell c src \<noteq> None" using Cons.prems(1) a by auto
  then obtain x where x: "Column_cell c src = Some x" by auto
  note out = move_column_out [OF c(1) x assms(2,3)]
  have rest: "\<forall>a \<in> set cols. col_wf cap (snd a) \<and> Column_cell (snd a) src \<noteq> None"
    "distinct (map fst cols)" "i \<notin> fst ` set cols"
    using Cons.prems(1,2) a by auto
  show ?case
  proof (cases "Table_get_table_col other i")
    case (Some k)
    note col = Table_get_col(1) [OF Cons.prems(3) Some]
    obtain c2 where c2: "Column_move_item_to c (tb_columns other ! k) src dst = Some c2" "col_wf (tb_capacity other) c2"
      "col_dropper c2 = col_dropper (tb_columns other ! k)"
      "\<And>j. Column_cell c2 j = (if j = dst then Some x else Column_cell (tb_columns other ! k) j)"
      using Column_move_item_to_spec [OF table_col_wf [OF Cons.prems(3)] x Cons.prems(4)] col by metis
    obtain c' where c': "(if swap then Column_swap_forget_not_last c src lst else Some c) = Some c'"
      "swapped_column cap src lst c c'" using out(1) by blast
    let ?o = "other\<lparr>tb_columns := (tb_columns other)[k := c2]\<rparr>"
    have k: "k < length (tb_components other)" using col by simp
    note o = set_column [OF Cons.prems(3) k c2(2,3) refl]
    have cell: "Table_cell ?o r j = (if r = dst \<and> j = i then Column_cell c src else Table_cell other r j)" for r j
      using o(3) [of r j] c2(4) x col Table_cell_nth [OF Cons.prems(3) k, of r] by auto
    have "tb_capacity ?o = tb_capacity other" "tb_components ?o = tb_components other" by simp_all
    from Cons.IH [OF rest(1,2) o(1)] Cons.prems(4) obtain cols' other' where
      r: "move_columns DROP swap src lst dst cols ?o = Some (move_drops DROP src (tb_components other) cols, cols', other')"
        "list_all2 (swapped_column cap src lst) (map snd cols) cols'" "table_wf other'" "same_schema ?o other'"
        "tb_entities other' = tb_entities other" "tb_capacity other' = tb_capacity other"
        "\<And>r i. Table_cell other' r i = (if r = dst \<and> i \<in> set (tb_components other) \<and> i \<in> fst ` set cols
           then Column_cell (the (map_of cols i)) src else Table_cell ?o r i)" by auto
    have "move_drops DROP src (tb_components other) (a # cols) = move_drops DROP src (tb_components other) cols"
      using k col nth_mem [OF k] by (auto simp: move_drops_def a)
    then have "move_columns DROP swap src lst dst (a # cols) other =
        Some (move_drops DROP src (tb_components other) (a # cols), c' # cols', other')"
      using Some col c2(1) c'(1) r(1) by (simp add: a Let_def split: if_splits)
    moreover have "Table_cell other' q j = (if q = dst \<and> j \<in> set (tb_components other) \<and> j \<in> fst ` set (a # cols)
       then Column_cell (the (map_of (a # cols) j)) src else Table_cell other q j)" for q j
      using r(7) [of q j] cell [of q j] rest(3) nth_mem [OF k] col by (auto simp: a)
    ultimately show ?thesis
      using r(2-6) c'(2) same_schema_trans [OF o(2) r(4)] by (auto simp: a)
  next
    case None
    then have no: "i \<notin> set (tb_components other)" using Table_get_col(2) [OF Cons.prems(3)] by simp
    from Cons.IH [OF rest(1,2) Cons.prems(3,4)] obtain cols' other' where
      r: "move_columns DROP swap src lst dst cols other = Some (move_drops DROP src (tb_components other) cols, cols', other')"
        "list_all2 (swapped_column cap src lst) (map snd cols) cols'" "table_wf other'" "same_schema other other'"
        "tb_entities other' = tb_entities other" "tb_capacity other' = tb_capacity other"
        "\<And>r i. Table_cell other' r i = (if r = dst \<and> i \<in> set (tb_components other) \<and> i \<in> fst ` set cols
           then Column_cell (the (map_of cols i)) src else Table_cell other r i)" by auto
    have cell: "Table_cell other' q j = (if q = dst \<and> j \<in> set (tb_components other) \<and> j \<in> fst ` set (a # cols)
       then Column_cell (the (map_of (a # cols) j)) src else Table_cell other q j)" for q j
      using r(7) [of q j] no by (auto simp: a)
    let ?d = "if DROP then drops c x else []"
    have "\<exists>c'. (if DROP then
              (if swap then map_option (\<lambda>(d, c). (d, c, other)) (Column_swap_drop_not_last c src lst)
               else map_option (\<lambda>d. (d, c, other)) (Column_drop_item c lst))
            else
              (if swap then map_option (\<lambda>c. ([], c, other)) (Column_swap_forget_not_last c src lst)
               else Some ([], c, other))) = Some (?d, c', other) \<and> swapped_column cap src lst c c'"
      using out(1) out(2) [of other] by (auto split: if_splits)
    then obtain c' where c': "(if DROP then
              (if swap then map_option (\<lambda>(d, c). (d, c, other)) (Column_swap_drop_not_last c src lst)
               else map_option (\<lambda>d. (d, c, other)) (Column_drop_item c lst))
            else
              (if swap then map_option (\<lambda>c. ([], c, other)) (Column_swap_forget_not_last c src lst)
               else Some ([], c, other))) = Some (?d, c', other)" "swapped_column cap src lst c c'" by blast
    have "move_drops DROP src (tb_components other) (a # cols) = ?d @ move_drops DROP src (tb_components other) cols"
      using no x by (simp add: move_drops_def a)
    then have "move_columns DROP swap src lst dst (a # cols) other =
        Some (move_drops DROP src (tb_components other) (a # cols), c' # cols', other')"
      using None c'(1) r(1) by (simp add: a)
    then show ?thesis using r(2-6) c'(2) cell by (auto simp: a)
  qed
qed

lemma map_of_zip_nth: "distinct xs \<Longrightarrow> length xs = length ys \<Longrightarrow> k < length xs \<Longrightarrow> map_of (zip xs ys) (xs ! k) = Some (ys ! k)"
  by (simp add: map_of_zip_nth)

lemma Table_move_row_spec:
  fixes t :: "'a Table"
  assumes wf: "table_wf t" and full: "table_full t" and r: "r < length (tb_entities t)"
    and wfo: "table_wf other" and small: "length (tb_entities other) < 2 ^ 31"
  shows "\<exists>t' other'. Table_move_row DROP t r other =
      Some (move_drops DROP r (tb_components other) (zip (tb_components t) (tb_columns t)),
        MovedEntityRow_in_table (if r = length (tb_entities t) - 1 then None else Some (last (tb_entities t))) r,
        length (tb_entities other), t', other') \<and>
    table_wf t' \<and> table_full t' \<and> same_schema t t' \<and> tb_capacity t' = tb_capacity t \<and>
    tb_entities t' = swap_remove r (tb_entities t) \<and> Table_abs t' = swap_remove r (Table_abs t) \<and>
    table_wf other' \<and> same_schema other other' \<and> tb_entities other' = tb_entities other @ [tb_entities t ! r] \<and>
    (\<forall>row i. row < length (tb_entities other) \<longrightarrow> Table_cell other' row i = Table_cell other row i) \<and>
    (\<forall>i. i \<in> set (tb_components other) \<inter> set (tb_components t) \<longrightarrow>
       Table_cell other' (length (tb_entities other)) i = Table_cell t r i)"
proof -
  let ?l = "length (tb_entities t) - 1" let ?dst = "length (tb_entities other)"
  let ?cols = "zip (tb_components t) (tb_columns t)" let ?swap = "r \<noteq> ?l"
  obtain o1 where o1: "Table_alloc_row other (tb_entities t ! r) = Some (?dst, o1)" "table_wf o1" "same_schema other o1"
    "tb_entities o1 = tb_entities other @ [tb_entities t ! r]" "?dst < tb_capacity o1"
    "\<And>row i. row < ?dst \<Longrightarrow> Table_cell o1 row i = Table_cell other row i"
    using Table_alloc_row_spec [OF wfo small] by metis
  have comps: "tb_components o1 = tb_components other" using o1(3) by (simp add: same_schema_def)
  have len: "length (tb_components t) = length (tb_columns t)" using wf by (simp add: table_wf_def)
  have cols: "\<forall>a \<in> set ?cols. col_wf (tb_capacity t) (snd a) \<and> Column_cell (snd a) r \<noteq> None"
    using wf full r by (auto simp: table_wf_def table_full_def dest: set_zip_rightD)
  have l: "?l < tb_capacity t" using r wf by (auto simp: table_wf_def)
  have d: "distinct (map fst ?cols)" using table_wf_distinct [OF wf] len by simp
  from move_columns_spec [where DROP = DROP, OF cols l refl d o1(2,5)] obtain cols' other' where
    m: "move_columns DROP ?swap r ?l ?dst ?cols o1 = Some (move_drops DROP r (tb_components other) ?cols, cols', other')"
      "list_all2 (swapped_column (tb_capacity t) r ?l) (map snd ?cols) cols'"
      "table_wf other'" "same_schema o1 other'" "tb_entities other' = tb_entities o1"
      "\<And>q i. Table_cell other' q i = (if q = ?dst \<and> i \<in> set (tb_components other) \<and> i \<in> fst ` set ?cols
        then Column_cell (the (map_of ?cols i)) r else Table_cell o1 q i)"
    unfolding comps by blast
  have snd: "map snd ?cols = tb_columns t" using len by simp
  let ?t' = "t\<lparr>tb_entities := swap_remove r (tb_entities t), tb_columns := cols'\<rparr>"
  note t' = swap_remove_table [OF wf full r m(2) [unfolded snd] refl]
  have ne: "tb_entities t \<noteq> []" using r by auto
  have "Table_move_row DROP t r other = Some (move_drops DROP r (tb_components other) ?cols,
      MovedEntityRow_in_table (if r = ?l then None else Some (last (tb_entities t))) r, ?dst, ?t', other')"
    using r o1(1) m(1) take_last_eq [OF ne] vec_move_last_to_eq [OF r]
    by (simp add: Table_move_row_def vec_remove_last_def Let_def del: One_nat_def)
  moreover have "Table_cell other' ?dst i = Table_cell t r i"
    if i: "i \<in> set (tb_components other) \<inter> set (tb_components t)" for i
  proof -
    from i obtain k where k: "k < length (tb_components t)" "i = tb_components t ! k" by (metis IntD2 in_set_conv_nth)
    have "i \<in> fst ` set ?cols" using i len by (metis IntD2 list.set_map map_fst_zip)
    then show ?thesis
      using m(6) [of ?dst i] i k map_of_zip_nth [OF table_wf_distinct [OF wf] len k(1)] Table_cell_nth [OF wf k(1), of r] by simp
  qed
  moreover have "Table_cell other' row i = Table_cell other row i" if "row < ?dst" for row i
    using m(6) [of row i] o1(6) [OF that] that by simp
  ultimately show ?thesis
    using t' m(3,5) o1(4) same_schema_trans [OF o1(3) m(4)] by auto
qed
lemma sum_list_exchange:
  "(\<Sum>x\<leftarrow>xs. \<Sum>y\<leftarrow>ys. (f x y :: 'a multiset)) = (\<Sum>y\<leftarrow>ys. \<Sum>x\<leftarrow>xs. f x y)"
  by (induction xs) (simp_all add: sum_list_addf)

lemma Table_drop_spec:
  assumes wf: "table_wf t" and full: "table_full t"
  obtains d where "Table_drop t = Some d" "mset d = mset (concat (map (Table_row_drops t) [0..<length (tb_entities t)]))"
proof -
  let ?n = "length (tb_entities t)"
  have col: "Column_drop_slice c ?n = Some (concat (map (\<lambda>r. drops c (the (Column_cell c r))) [0..<?n]))"
    if cc: "c \<in> set (tb_columns t)" for c
  proof -
    have "drop_call (col_data c) r = Some (drops c (the (Column_cell c r)))" if rn: "r < ?n" for r
    proof -
      have "Column_cell c r \<noteq> None" using full rn cc unfolding table_full_def by blast
      then obtain x where "Column_cell c r = Some x" by blast
      then show ?thesis using Column_drop_item_spec [of c r x] by (simp add: Column_drop_item_def BlobArray_drop_item_def)
    qed
    then have "those (map (drop_call (col_data c)) [0..<?n]) = Some (map (\<lambda>r. drops c (the (Column_cell c r))) [0..<?n])"
      by (intro those_map_Some) simp
    then show ?thesis by (simp add: Column_drop_slice_def BlobArray_drop_slice_def)
  qed
  let ?d = "concat (map (\<lambda>c. concat (map (\<lambda>r. drops c (the (Column_cell c r))) [0..<?n])) (tb_columns t))"
  have "Table_drop t = Some ?d"
    unfolding Table_drop_def using those_map_Some [of "tb_columns t", OF col] by simp
  moreover have "mset ?d = mset (concat (map (Table_row_drops t) [0..<?n]))"
    unfolding Table_row_drops_def mset_concat map_map comp_def
    by (rule sum_list_exchange)
  ultimately show thesis by (rule that)
qed

end
