(* ===== verification/TableLife.thy ===== *)
theory TableLife
  imports Tables
begin

text \<open>
  The values a table owns. Every value with a drop function that is written into a table is dropped exactly
  once: by the operation that overwrites or removes it, or when the table itself is dropped. The properties of
  tables (row removal, row moves, tick maintenance, ownership, the table registry) stand at the end.
\<close>

section \<open>The values a table owns\<close>

text \<open>
  Only values of columns with a drop function are owned in the sense that they have to be dropped.
\<close>

definition live :: "'v Table \<Rightarrow> 'v multiset" where
  "live t = mset (concat (map (Table_row_drops t) [0..<length (tb_entities t)]))"

lemma live_swap_remove:
  assumes "map (Table_row_drops t') [0..<length (tb_entities t')] =
       swap_remove r (map (Table_row_drops t) [0..<length (tb_entities t)])" "r < length (tb_entities t)"
  shows "live t = live t' + mset (Table_row_drops t r)"
proof -
  let ?xs = "map (Table_row_drops t) [0..<length (tb_entities t)]"
  have "mset ?xs = add_mset (?xs ! r) (mset (swap_remove r ?xs))" using assms(2) by (intro mset_swap_remove) simp
  then have "sum_mset (image_mset mset (mset ?xs)) = mset (?xs ! r) + sum_mset (image_mset mset (mset (swap_remove r ?xs)))"
    by simp
  then show ?thesis using assms(2)
    by (simp add: live_def assms(1) mset_concat sum_mset_sum_list [symmetric] del: map_map)
qed

lemma Table_row_drops_cells:
  assumes "table_wf t"
  shows "Table_row_drops t row = concat (map (\<lambda>k. if col_dropper (tb_columns t ! k)
     then [fst (the (Table_cell t row (tb_components t ! k)))] else []) [0..<length (tb_components t)])"
proof -
  have "map (\<lambda>c. drops c (the (Column_cell c row))) (tb_columns t) =
      map (\<lambda>k. drops (tb_columns t ! k) (the (Column_cell (tb_columns t ! k) row))) [0..<length (tb_columns t)]"
    by (rule nth_equalityI) auto
  also have "\<dots> = map (\<lambda>k. if col_dropper (tb_columns t ! k)
     then [fst (the (Table_cell t row (tb_components t ! k)))] else []) [0..<length (tb_components t)]"
    using assms by (intro map_cong) (auto simp: drops_def table_wf_def Table_cell_nth [OF assms])
  finally show ?thesis by (simp add: Table_row_drops_def)
qed

lemma same_schema_dropper:
  "same_schema t t' \<Longrightarrow> k < length (tb_columns t) \<Longrightarrow> col_dropper (tb_columns t' ! k) = col_dropper (tb_columns t ! k)"
  unfolding same_schema_def by (metis length_map nth_map)

lemma Table_row_drops_cong:
  assumes "table_wf t" "table_wf t'" "same_schema t t'" "\<And>i. Table_cell t' row i = Table_cell t row i"
  shows "Table_row_drops t' row = Table_row_drops t row"
proof -
  have "col_dropper (tb_columns t' ! k) = col_dropper (tb_columns t ! k)" if "k < length (tb_components t)" for k
    using same_schema_dropper [OF assms(3)] that assms(1) by (simp add: table_wf_def)
  moreover have "tb_components t' = tb_components t" using assms(3) by (simp add: same_schema_def)
  ultimately show ?thesis
    unfolding Table_row_drops_cells [OF assms(1)] Table_row_drops_cells [OF assms(2)]
    by (intro arg_cong [of _ _ concat] map_cong) (simp_all add: assms(4))
qed

lemma table_full_cells:
  assumes "table_wf t"
  shows "table_full t \<longleftrightarrow> (\<forall>row < length (tb_entities t). \<forall>i \<in> set (tb_components t). Table_cell t row i \<noteq> None)"
  unfolding table_full_def all_set_conv_all_nth
  using assms Table_cell_nth [OF assms] by (simp add: table_wf_def)

text \<open>Writing every component of a freshly allocated row.\<close>

fun init_columns :: "'v Table \<Rightarrow> TableRow \<Rightarrow> Tick \<Rightarrow> nat \<Rightarrow> 'v list \<Rightarrow> 'v Table option" where
  "init_columns t row tick k [] = Some t"
| "init_columns t row tick k (v # vs) = do {
     t \<leftarrow> Table_init_item t k row v tick;
     init_columns t row tick (Suc k) vs
   }"

lemma init_columns_spec:
  assumes "table_wf t" "k + length vs \<le> length (tb_components t)" "row < tb_capacity t"
  shows "\<exists>t'. init_columns t row tick k vs = Some t' \<and> table_wf t' \<and> same_schema t t' \<and>
    tb_entities t' = tb_entities t \<and> tb_capacity t' = tb_capacity t \<and>
    (\<forall>r j. j < length (tb_components t) \<longrightarrow> Table_cell t' r (tb_components t ! j) =
       (if r = row \<and> k \<le> j \<and> j < k + length vs then Some (vs ! (j - k), tick, tick)
        else Table_cell t r (tb_components t ! j)))"
  using assms
proof (induction vs arbitrary: t k)
  case Nil
  then show ?case by auto
next
  case (Cons v vs)
  have k: "k < length (tb_components t)" using Cons.prems(2) by simp
  have col: "Table_get_table_col t (tb_components t ! k) = Some k"
    using binary_search_nth [OF table_wf_distinct [OF Cons.prems(1)] k] by (simp add: Table_get_table_col_def)
  obtain t1 where t1: "Table_init_item t k row v tick = Some t1" "table_wf t1" "same_schema t t1"
    "tb_entities t1 = tb_entities t" "tb_capacity t1 = tb_capacity t"
    "\<And>r j. Table_cell t1 r j = (if r = row \<and> j = tb_components t ! k then Some (v, tick, tick) else Table_cell t r j)"
    using Table_init_item_spec [OF Cons.prems(1) col Cons.prems(3)] by metis
  have comps: "tb_components t1 = tb_components t" using t1(3) by (simp add: same_schema_def)
  from Cons.IH [OF t1(2), of "Suc k"] Cons.prems(2,3) t1(5) comps obtain t2 where
    t2: "init_columns t1 row tick (Suc k) vs = Some t2" "table_wf t2" "same_schema t1 t2"
      "tb_entities t2 = tb_entities t1" "tb_capacity t2 = tb_capacity t1"
      "\<And>r j. j < length (tb_components t) \<Longrightarrow> Table_cell t2 r (tb_components t ! j) =
         (if r = row \<and> Suc k \<le> j \<and> j < Suc k + length vs then Some (vs ! (j - Suc k), tick, tick)
          else Table_cell t1 r (tb_components t ! j))" by auto
  have "Table_cell t2 r (tb_components t ! j) =
       (if r = row \<and> k \<le> j \<and> j < k + length (v # vs) then Some ((v # vs) ! (j - k), tick, tick)
        else Table_cell t r (tb_components t ! j))" if j: "j < length (tb_components t)" for r j
  proof -
    have "tb_components t ! j = tb_components t ! k \<longleftrightarrow> j = k"
      using j k table_wf_distinct [OF Cons.prems(1)] by (simp add: nth_eq_iff_index_eq)
    then show ?thesis using t2(6) [OF j, of r] t1(6) by (auto simp: Suc_le_eq nth_Cons')
  qed
  then show ?case
    using t1 t2 same_schema_trans [OF t1(3) t2(3)] by auto
qed

definition owned :: "'v Table \<Rightarrow> 'v list \<Rightarrow> 'v multiset" where
  "owned t vs = mset (concat (map (\<lambda>k. if col_dropper (tb_columns t ! k) then [vs ! k] else []) [0..<length (tb_components t)]))"

text \<open>
  \<open>table_life t ins drp\<close>: a table after some rows were added, overwritten and removed; \<open>ins\<close> are the
  owned values written into it, \<open>drp\<close> those its drop functions were called on.
\<close>

inductive table_life :: "'v Table \<Rightarrow> 'v multiset \<Rightarrow> 'v multiset \<Rightarrow> bool" where
  life_new: "sorted_wrt (<) idents \<Longrightarrow> table_life (Table_new i (cs :: ComponentInfo list) idents) {#} {#}"
| life_add: "table_life t ins drp \<Longrightarrow> length (tb_entities t) < 2 ^ 31 \<Longrightarrow> length vs = length (tb_components t) \<Longrightarrow>
    Table_alloc_row t e = Some (row, t1) \<Longrightarrow> init_columns t1 row tick 0 vs = Some t2 \<Longrightarrow>
    table_life t2 (ins + owned t vs) drp"
| life_replace: "table_life t ins drp \<Longrightarrow> row < length (tb_entities t) \<Longrightarrow> Table_get_table_col t i = Some k \<Longrightarrow>
    Table_replace_item t k row v tick = Some (d, t') \<Longrightarrow>
    table_life t' (ins + (if col_dropper (tb_columns t ! k) then {#v#} else {#})) (drp + mset d)"
| life_remove: "table_life t ins drp \<Longrightarrow> row < length (tb_entities t) \<Longrightarrow>
    Table_dealloc_row True t row = Some (d, m, t') \<Longrightarrow>
    table_life t' ins (drp + mset d)"

lemma live_append:
  assumes "tb_entities t' = tb_entities t @ [e]"
    and "\<And>row. row < length (tb_entities t) \<Longrightarrow> Table_row_drops t' row = Table_row_drops t row"
  shows "live t' = live t + mset (Table_row_drops t' (length (tb_entities t)))"
proof -
  have "map (Table_row_drops t') [0..<length (tb_entities t)] = map (Table_row_drops t) [0..<length (tb_entities t)]"
    using assms(2) by (intro map_cong) auto
  then show ?thesis by (simp add: live_def assms(1) del: map_eq_conv)
qed

lemma concat_update_mset:
  assumes "k < n"
  shows "mset (concat (map (\<lambda>j. if j = k then x else f j) [0..<n])) + mset (f k) = mset (concat (map f [0..<n])) + mset x"
proof -
  have split: "[0..<n] = [0..<k] @ k # [Suc k..<n]"
    using assms upt_add_eq_append [of 0 k "n - k"] by (simp add: upt_conv_Cons)
  have "map (\<lambda>j. if j = k then x else f j) [0..<k] = map f [0..<k]"
    "map (\<lambda>j. if j = k then x else f j) [Suc k..<n] = map f [Suc k..<n]" by auto
  then show ?thesis unfolding split by (simp add: ac_simps del: map_eq_conv)
qed

lemma multiset_balance:
  fixes A A' R R' D N :: "'a multiset"
  assumes "A' + R = A + R'" "R' + D = R + N"
  shows "A' + D = A + N"
proof -
  have "A' + D + R = A' + R + D" by (simp only: add.assoc add.commute [of D])
  also have "\<dots> = A + (R' + D)" by (simp only: assms(1) add.assoc)
  also have "\<dots> = A + N + R" by (simp only: assms(2) add.assoc add.commute [of R])
  finally show ?thesis by (rule add_right_imp_eq)
qed

lemma life_add_step:
  assumes wf: "table_wf t" and full: "table_full t" and small: "length (tb_entities t) < 2 ^ 31"
    and vs: "length vs = length (tb_components t)"
    and a: "Table_alloc_row t e = Some (row, t1)" "init_columns t1 row tick 0 vs = Some t2"
  shows "table_wf t2 \<and> table_full t2 \<and> live t2 = live t + owned t vs"
proof -
  let ?n = "length (tb_entities t)" let ?m = "length (tb_components t)"
  have t1: "row = ?n" "table_wf t1" "same_schema t t1" "tb_entities t1 = tb_entities t @ [e]" "?n < tb_capacity t1"
    "\<And>r i. r < ?n \<Longrightarrow> Table_cell t1 r i = Table_cell t r i"
    using Table_alloc_row_spec [OF wf small, of e] a(1) by auto
  have c1: "tb_components t1 = tb_components t" using t1(3) by (simp add: same_schema_def)
  have t2: "table_wf t2" "same_schema t1 t2" "tb_entities t2 = tb_entities t1"
    "\<And>r j. j < ?m \<Longrightarrow> Table_cell t2 r (tb_components t ! j) =
       (if r = ?n then Some (vs ! j, tick, tick) else Table_cell t1 r (tb_components t ! j))"
    using init_columns_spec [OF t1(2), of 0 vs row tick] a(2) vs c1 t1(1,5) by auto
  note s = same_schema_trans [OF t1(3) t2(2)]
  have c2: "tb_components t2 = tb_components t" using s by (simp add: same_schema_def)
  have cell: "Table_cell t2 r i = Table_cell t r i" if "r < ?n" for r i
  proof (cases "i \<in> set (tb_components t)")
    case True
    then obtain j where "j < ?m" "i = tb_components t ! j" by (metis in_set_conv_nth)
    then show ?thesis using t2(4) [of j r] t1(6) [OF that, of i] that by simp
  next
    case False
    then show ?thesis using Table_cell_absent [of i t r] Table_cell_absent [of i t2 r] c2 by simp
  qed
  have full2: "table_full t2"
    unfolding table_full_cells [OF t2(1)] all_set_conv_all_nth c2
  proof (intro allI impI)
    fix r j assume r: "r < length (tb_entities t2)" and j: "j < ?m"
    show "Table_cell t2 r (tb_components t ! j) \<noteq> None"
    proof (cases "r < ?n")
      case True
      then show ?thesis
        using cell full [unfolded table_full_cells [OF wf]] j by (metis nth_mem)
    next
      case False
      then have "r = ?n" using r t2(3) t1(4) by simp
      then show ?thesis using t2(4) [OF j] by simp
    qed
  qed
  have d: "col_dropper (tb_columns t2 ! k) = col_dropper (tb_columns t ! k)" if "k < ?m" for k
    using same_schema_dropper [OF s] that wf by (simp add: table_wf_def)
  have "Table_row_drops t2 ?n = concat (map (\<lambda>k. if col_dropper (tb_columns t ! k) then [vs ! k] else []) [0..<?m])"
    unfolding Table_row_drops_cells [OF t2(1)] c2
    using d t2(4) by (intro arg_cong [of _ _ concat] map_cong) simp_all
  moreover have "Table_row_drops t2 r = Table_row_drops t r" if "r < ?n" for r
    using Table_row_drops_cong [OF wf t2(1) s] cell [OF that] by blast
  ultimately have "live t2 = live t + owned t vs"
    using live_append [of t2 t e] t2(3) t1(4) by (simp add: owned_def)
  then show ?thesis using t2(1) full2 by blast
qed

lemma life_replace_step:
  assumes wf: "table_wf t" and full: "table_full t" and row: "row < length (tb_entities t)"
    and k: "Table_get_table_col t i = Some k" and r: "Table_replace_item t k row v tick = Some (d, t')"
  shows "table_wf t' \<and> table_full t' \<and>
    live t' + mset d = live t + (if col_dropper (tb_columns t ! k) then {#v#} else {#})"
proof -
  let ?n = "length (tb_entities t)" let ?m = "length (tb_components t)" let ?c = "tb_columns t ! k"
  note col = Table_get_col(1) [OF wf k]
  have "Table_cell t row i \<noteq> None"
    using full [unfolded table_full_cells [OF wf]] row col by (metis nth_mem)
  then obtain x where x: "Table_cell t row i = Some x" by blast
  have t': "d = drops ?c x" "table_wf t'" "same_schema t t'" "tb_entities t' = tb_entities t"
    "\<And>r j. Table_cell t' r j = (if r = row \<and> j = i then Some (v, fst (snd x), tick) else Table_cell t r j)"
    using Table_replace_item_spec [OF wf k x, of v tick] r by auto
  have c': "tb_components t' = tb_components t" using t'(3) by (simp add: same_schema_def)
  have full': "table_full t'"
    unfolding table_full_cells [OF t'(2)] c'
    using full [unfolded table_full_cells [OF wf]] t'(4,5) by (auto simp del: not_None_eq)
  have dr: "col_dropper (tb_columns t' ! j) = col_dropper (tb_columns t ! j)" if "j < ?m" for j
    using same_schema_dropper [OF t'(3)] that wf by (simp add: table_wf_def)
  have inj: "tb_components t ! j = i \<longleftrightarrow> j = k" if "j < ?m" for j
    using that col table_wf_distinct [OF wf] by (metis nth_eq_iff_index_eq)
  let ?f = "\<lambda>j. if col_dropper (tb_columns t ! j) then [fst (the (Table_cell t row (tb_components t ! j)))] else []"
  have "Table_row_drops t' row = concat (map (\<lambda>j. if j = k then (if col_dropper ?c then [v] else []) else ?f j) [0..<?m])"
    unfolding Table_row_drops_cells [OF t'(2)] c'
    using dr t'(5) inj by (intro arg_cong [of _ _ concat] map_cong) auto
  moreover have "?f k = d" using x col t'(1) by (auto simp: drops_def)
  ultimately have new: "mset (Table_row_drops t' row) + mset d =
      mset (Table_row_drops t row) + mset (if col_dropper ?c then [v] else [])"
    using concat_update_mset [of k ?m "if col_dropper ?c then [v] else []" ?f] col
    unfolding Table_row_drops_cells [OF wf] by simp
  have other: "Table_row_drops t' q = Table_row_drops t q" if "q \<noteq> row" for q
    using Table_row_drops_cong [OF wf t'(2,3)] t'(5) that by simp
  have "map (Table_row_drops t') [0..<?n] = map (\<lambda>q. if q = row then Table_row_drops t' row else Table_row_drops t q) [0..<?n]"
    using other by (intro map_cong) auto
  then have "live t' + mset (Table_row_drops t row) = live t + mset (Table_row_drops t' row)"
    using concat_update_mset [OF row, of "Table_row_drops t' row" "Table_row_drops t"] by (simp add: live_def t'(4) del: map_eq_conv)
  then have "live t' + mset d = live t + mset (if col_dropper ?c then [v] else [])"
    using new by (rule multiset_balance)
  then show ?thesis using t'(2) full' by (auto split: if_splits)
qed

lemma table_life_inv: "table_life t ins drp \<Longrightarrow> table_wf t \<and> table_full t \<and> ins = drp + live t"
proof (induction rule: table_life.induct)
  case (life_new idents i cs)
  then show ?case by (simp add: Table_new_spec) (simp add: live_def Table_new_def)
next
  case (life_add t ins drp vs e row t1 tick t2)
  then show ?case using life_add_step [of t vs e row t1 tick t2] by (simp add: ac_simps)
next
  case (life_replace t ins drp row i k v tick d t')
  then show ?case using life_replace_step [of t row i k v tick d t'] by (simp add: ac_simps)
next
  case (life_remove t ins drp row d m t')
  then have t: "table_wf t" "table_full t" "ins = drp + live t" by auto
  from Table_dealloc_row_spec [OF t(1,2) life_remove(2), of True] life_remove(3)
  have "d = Table_row_drops t row" "table_wf t'" "table_full t'"
    "map (Table_row_drops t') [0..<length (tb_entities t')] = swap_remove row (map (Table_row_drops t) [0..<length (tb_entities t)])"
    by auto
  then show ?case using live_swap_remove [of t' row t] life_remove(2) t(3) by (simp add: ac_simps)
qed

section \<open>Tick maintenance and the registry of tables\<close>

lemma Table_check_ticks_spec:
  assumes wf: "table_wf t" and full: "table_full t"
  obtains t' where "Table_check_ticks t now = Some t'" "table_wf t'" "same_schema t t'" "tb_entities t' = tb_entities t"
    "\<And>row i. row < length (tb_entities t) \<Longrightarrow> Table_cell t' row i = map_option (clamp_cell now) (Table_cell t row i)"
proof -
  let ?n = "length (tb_entities t)"
  let ?f = "\<lambda>c. Column_check_ticks c ?n now"
  have col: "\<exists>c'. ?f c = Some c' \<and> col_wf (tb_capacity t) c' \<and> col_dropper c' = col_dropper c \<and>
      (\<forall>i < ?n. Column_cell c' i = map_option (clamp_cell now) (Column_cell c i))" if cc: "c \<in> set (tb_columns t)" for c
  proof -
    have "col_wf (tb_capacity t) c" "\<And>i. i < ?n \<Longrightarrow> Column_cell c i \<noteq> None"
      using wf full cc by (auto simp: table_wf_def table_full_def)
    from Column_check_ticks_spec [OF this, where now = now] show ?thesis by (metis clamp_cell_def)
  qed
  define cols where "cols = map (\<lambda>c. the (?f c)) (tb_columns t)"
  define t' where "t' = t\<lparr>tb_columns := cols\<rparr>"
  have "those (map ?f (tb_columns t)) = Some cols"
    unfolding cols_def using col by (intro those_map_Some) fastforce
  then have run: "Table_check_ticks t now = Some t'"
    by (simp add: Table_check_ticks_def t'_def)
  have wf': "table_wf t'"
    using wf col by (fastforce simp: table_wf_def t'_def cols_def)
  have schema: "same_schema t t'"
    using col by (fastforce simp: same_schema_def t'_def cols_def)
  have cell: "Table_cell t' row i = map_option (clamp_cell now) (Table_cell t row i)" if row: "row < ?n" for row i
  proof (cases "i \<in> set (tb_components t)")
    case True
    then obtain k where k: "k < length (tb_components t)" "i = tb_components t ! k" by (metis in_set_conv_nth)
    have len: "length (tb_columns t) = length (tb_components t)" using wf by (simp add: table_wf_def)
    have "Table_cell t' row i = Column_cell (cols ! k) row"
      using Table_cell_nth [OF wf', of k row] k by (simp add: t'_def)
    also have "\<dots> = map_option (clamp_cell now) (Column_cell (tb_columns t ! k) row)"
      using col [of "tb_columns t ! k"] k(1) row len by (fastforce simp: cols_def)
    finally show ?thesis using Table_cell_nth [OF wf k(1), of row] k(2) by simp
  next
    case False
    then show ?thesis using Table_cell_absent [of i t row] Table_cell_absent [of i t' row] by (simp add: t'_def)
  qed
  show thesis by (rule that [OF run wf' schema _ cell]) (simp_all add: t'_def)
qed

definition tables_ok :: "'v Tables \<Rightarrow> bool" where
  "tables_ok ts \<longleftrightarrow> distinct (map fst (tbs_mapper ts)) \<and>
     (\<forall>i < length (tbs_tables ts). tb_id (tbs_tables ts ! i) = i \<and>
        map_of (tbs_mapper ts) (tb_components (tbs_tables ts ! i)) = Some i) \<and>
     (\<forall>(k, i) \<in> set (tbs_mapper ts). i < length (tbs_tables ts) \<and> tb_components (tbs_tables ts ! i) = k) \<and>
     length (tbs_tables ts) \<le> 2 ^ 32 - 1"

lemma Tables_new_ok: "tables_ok Tables_new"
  by (simp add: tables_ok_def Tables_new_def Table_new_def)

lemma Tables_register_cases:
  assumes ok: "tables_ok ts"
  shows "Tables_register ts cs idents =
     (case Tables_get_id ts idents of
        Some i \<Rightarrow> Done (i, ts)
      | None \<Rightarrow> (if length (tbs_tables ts) = 2 ^ 32 - 1 then Panic
          else let i = length (tbs_tables ts)
            in Done (i, \<lparr>tbs_tables = tbs_tables ts @ [Table_new i cs idents], tbs_mapper = (idents, i) # tbs_mapper ts\<rparr>)))"
  using ok NonMaxU32_new_of_nat [of "length (tbs_tables ts)"]
  by (auto simp: Tables_register_def Tables_get_id_def TableId_new_def tables_ok_def Let_def split: option.splits)

lemma Tables_register_spec:
  assumes ok: "tables_ok ts" and reg: "Tables_register ts cs idents = Done (i, ts')"
  shows "tables_ok ts'" "i < length (tbs_tables ts')" "tb_components (tbs_tables ts' ! i) = idents"
    "length (tbs_tables ts) \<le> length (tbs_tables ts')"
    "\<And>j. j < length (tbs_tables ts) \<Longrightarrow> tbs_tables ts' ! j = tbs_tables ts ! j"
    "Tables_get_id ts' idents = Some i"
proof -
  have "tables_ok ts' \<and> i < length (tbs_tables ts') \<and> tb_components (tbs_tables ts' ! i) = idents \<and>
    length (tbs_tables ts) \<le> length (tbs_tables ts') \<and>
    (\<forall>j < length (tbs_tables ts). tbs_tables ts' ! j = tbs_tables ts ! j) \<and> Tables_get_id ts' idents = Some i"
  proof (cases "map_of (tbs_mapper ts) idents")
    case None
    then have new: "idents \<notin> fst ` set (tbs_mapper ts)" by (simp add: map_of_eq_None_iff)
    have old: "idents \<noteq> tb_components (tbs_tables ts ! j)" if "j < length (tbs_tables ts)" for j
      using ok None that by (auto simp: tables_ok_def)
    have room: "length (tbs_tables ts) < 2 ^ 32 - 1" and i: "i = length (tbs_tables ts)"
      and ts': "ts' = \<lparr>tbs_tables = tbs_tables ts @ [Table_new i cs idents], tbs_mapper = (idents, i) # tbs_mapper ts\<rparr>"
      using ok reg None unfolding Tables_register_cases [OF ok]
      by (auto simp: Tables_get_id_def tables_ok_def Let_def split: if_splits)
    have "tables_ok ts'"
      using ok None new room unfolding tables_ok_def ts' i
      by (auto simp: nth_append Table_new_def less_Suc_eq dest: old)
    then show ?thesis using ok ts' i
      by (auto simp: Tables_get_id_def nth_append Table_new_def tables_ok_def)
  next
    case (Some j)
    then have "(idents, j) \<in> set (tbs_mapper ts)" by (rule map_of_SomeD)
    then show ?thesis using ok reg Some by (auto simp: Tables_register_def Tables_get_id_def tables_ok_def)
  qed
  then show "tables_ok ts'" "i < length (tbs_tables ts')" "tb_components (tbs_tables ts' ! i) = idents"
    "length (tbs_tables ts) \<le> length (tbs_tables ts')"
    "\<And>j. j < length (tbs_tables ts) \<Longrightarrow> tbs_tables ts' ! j = tbs_tables ts ! j"
    "Tables_get_id ts' idents = Some i" by auto
qed

text \<open>
  C13. Removing a row is a swap-remove: on a well-formed table whose rows are fully initialised, \<open>dealloc_row\<close> is
  defined, the table's rows (entity and every cell with its ticks) become the swap-remove of the old ones, the
  reported moved entity is the one that filled the gap, and the values it drops are exactly the difference
  between the owned values before and after.
\<close>

theorem dealloc_row_refines_swap_remove:
  assumes "table_wf t" "table_full t" "row < length (tb_entities t)"
  shows "\<exists>d t'. Table_dealloc_row True t row =
        Some (d, MovedEntityRow_in_table (if row = length (tb_entities t) - 1 then None else Some (last (tb_entities t))) row, t') \<and>
      table_wf t' \<and> table_full t' \<and> tb_components t' = tb_components t \<and>
      Table_abs t' = swap_remove row (Table_abs t) \<and> live t = live t' + mset d"
proof -
  obtain t' where t': "Table_dealloc_row True t row = Some (Table_row_drops t row,
        MovedEntityRow_in_table (if row = length (tb_entities t) - 1 then None else Some (last (tb_entities t))) row, t')"
    "table_wf t'" "table_full t'" "same_schema t t'" "Table_abs t' = swap_remove row (Table_abs t)"
    "map (Table_row_drops t') [0..<length (tb_entities t')] =
       swap_remove row (map (Table_row_drops t) [0..<length (tb_entities t)])"
    using Table_dealloc_row_spec [OF assms, of True] by (auto simp del: map_eq_conv)
  then show ?thesis
    using live_swap_remove [OF t'(6) assms(3)] by (auto simp: same_schema_def)
qed

text \<open>A table with one dropping component 4 and one plain component 7, and three rows.\<close>

definition sample_table :: "nat Table" where
  "sample_table = \<lparr>tb_id = 1,
     tb_columns = [\<lparr>col_data = \<lparr>blob_data = [Some 10, Some 11, Some 12, None], blob_dropper = True\<rparr>,
                    col_added = [Some (Tick 1), Some (Tick 2), Some (Tick 3), None],
                    col_changed = [Some (Tick 1), Some (Tick 2), Some (Tick 3), None]\<rparr>,
                   \<lparr>col_data = \<lparr>blob_data = [Some 20, Some 21, Some 22, None], blob_dropper = False\<rparr>,
                    col_added = [Some (Tick 1), Some (Tick 2), Some (Tick 3), None],
                    col_changed = [Some (Tick 1), Some (Tick 2), Some (Tick 3), None]\<rparr>],
     tb_components = [4, 7],
     tb_entities = map (\<lambda>i. Entity (EntityId i) (EntityTag 0)) [1, 2, 3], tb_capacity = 4\<rparr>"

lemma sample_table_ok: "table_wf sample_table" "table_full sample_table" "length (tb_entities sample_table) = 3"
proof -
  have "(\<forall>j < length (tb_entities sample_table). P j) \<longleftrightarrow> P 0 \<and> P 1 \<and> P 2" for P
    by (auto simp: sample_table_def less_Suc_eq numeral_2_eq_2)
  then show "table_full sample_table"
    unfolding table_full_def by (simp add: sample_table_def column_defs cell_get_def)
qed (simp_all add: sample_table_def table_wf_def col_wf_def)

theorem dealloc_row_refines_swap_remove_witness:
  "\<exists>d t'. Table_dealloc_row True sample_table 0 =
        Some (d, MovedEntityRow_in_table (Some (Entity (EntityId 3) (EntityTag 0))) 0, t') \<and>
      Table_abs t' = swap_remove 0 (Table_abs sample_table) \<and> live sample_table = live t' + mset d"
  using dealloc_row_refines_swap_remove [OF sample_table_ok(1,2), of 0] sample_table_ok(3)
  by (auto simp: sample_table_def)

text \<open>
  C14. Moving a row to another table: the source loses the row by a swap-remove, the destination gets one new
  row for the moved entity that holds the source's cells (value and both ticks) of every component both tables
  have, its old rows are untouched, and the values dropped are those of the components the destination lacks.
\<close>

theorem move_row_transfers_cells:
  assumes "table_wf t" "table_full t" "row < length (tb_entities t)" "table_wf other" "length (tb_entities other) < 2 ^ 31"
  shows "\<exists>d m t' other'. Table_move_row True t row other = Some (d, m, length (tb_entities other), t', other') \<and>
      table_wf t' \<and> table_full t' \<and> table_wf other' \<and>
      Table_abs t' = swap_remove row (Table_abs t) \<and>
      tb_entities other' = tb_entities other @ [tb_entities t ! row] \<and>
      (\<forall>r i. r < length (tb_entities other) \<longrightarrow> Table_cell other' r i = Table_cell other r i) \<and>
      (\<forall>i \<in> set (tb_components t) \<inter> set (tb_components other).
         Table_cell other' (length (tb_entities other)) i = Table_cell t row i) \<and>
      d = [fst (the (Table_cell t row (tb_components t ! k))). k \<leftarrow> [0..<length (tb_components t)],
            col_dropper (tb_columns t ! k) \<and> tb_components t ! k \<notin> set (tb_components other)]"
proof -
  let ?n = "length (tb_components t)"
  have cols: "length (tb_columns t) = ?n" using assms(1) by (simp add: table_wf_def)
  have "zip (tb_components t) (tb_columns t) = map (\<lambda>k. (tb_components t ! k, tb_columns t ! k)) [0..<?n]"
    using cols by (intro nth_equalityI) simp_all
  then have "move_drops True row (tb_components other) (zip (tb_components t) (tb_columns t)) =
      [fst (the (Table_cell t row (tb_components t ! k))). k \<leftarrow> [0..<?n],
            col_dropper (tb_columns t ! k) \<and> tb_components t ! k \<notin> set (tb_components other)]"
    using Table_cell_nth [OF assms(1), of _ row]
    by (auto simp: move_drops_def comp_def drops_def intro!: arg_cong [of _ _ concat] map_cong)
  then show ?thesis using Table_move_row_spec [OF assms, of True] by fastforce
qed

theorem move_row_transfers_cells_witness:
  "\<exists>d m t' other'. Table_move_row True sample_table 1 (Table_new 2 ([] :: ComponentInfo list) [7] :: nat Table) = Some (d, m, 0, t', other') \<and>
     tb_entities other' = [Entity (EntityId 2) (EntityTag 0)] \<and>
     Table_cell other' 0 7 = Some (21, Tick 2, Tick 2) \<and> d = [11]"
proof -
  let ?o = "Table_new 2 ([] :: ComponentInfo list) [7] :: nat Table"
  have o: "table_wf ?o" "length (tb_entities ?o) < 2 ^ 31" "length (tb_entities ?o) = 0" "tb_components ?o = [7]" "tb_entities ?o = []"
    using Table_new_spec(1) [of "[7]"] by (simp_all add: Table_new_def)
  have "Table_cell sample_table 1 7 = Some (21, Tick 2, Tick 2)" "Table_cell sample_table 1 4 = Some (11, Tick 2, Tick 2)"
    "tb_entities sample_table ! 1 = Entity (EntityId 2) (EntityTag 0)" "tb_components sample_table = [4, 7]"
    "map col_dropper (tb_columns sample_table) = [True, False]"
    by (simp_all add: sample_table_def Table_cell_def Table_get_table_col_def Table_get_column_def column_defs cell_get_def)
  then show ?thesis
    using move_row_transfers_cells [OF sample_table_ok(1,2) _ o(1,2), of 1] sample_table_ok(3) o(3-5)
    by (auto simp: numeral_2_eq_2)
qed

text \<open>
  C15. Tick maintenance of a table: \<open>check_ticks\<close> is defined on a fully initialised table, keeps entities and
  values, and clamps the added and changed tick of every cell of every row.
\<close>

theorem table_check_ticks_clamps_every_cell:
  assumes "table_wf t" "table_full t"
  shows "\<exists>t'. Table_check_ticks t now = Some t' \<and> table_wf t' \<and>
      Table_abs t' = map (\<lambda>(e, row). (e, map_option (clamp_cell now) \<circ> row)) (Table_abs t)"
proof -
  obtain t' where t': "Table_check_ticks t now = Some t'" "table_wf t'" "tb_entities t' = tb_entities t"
    "\<And>row i. row < length (tb_entities t) \<Longrightarrow> Table_cell t' row i = map_option (clamp_cell now) (Table_cell t row i)"
    using Table_check_ticks_spec [OF assms] by metis
  then have "Table_abs t' = map (\<lambda>(e, row). (e, map_option (clamp_cell now) \<circ> row)) (Table_abs t)"
    by (auto simp: Table_abs_def fun_eq_iff)
  then show ?thesis using t' by blast
qed

theorem table_check_ticks_clamps_every_cell_witness:
  "\<exists>t'. Table_check_ticks sample_table (Tick 3000000000) = Some t' \<and>
      Table_abs t' = map (\<lambda>(e, row). (e, map_option (clamp_cell (Tick 3000000000)) \<circ> row)) (Table_abs sample_table)"
  using table_check_ticks_clamps_every_cell [OF sample_table_ok(1,2)] by blast

text \<open>
  C12. Ownership: after any sequence of row insertions, overwrites and removals on a table, dropping the table is
  defined, and the values dropped on the way together with those dropped at the end are exactly the owned values
  that were written: none is leaked and none is dropped twice.
\<close>

theorem table_values_dropped_once:
  assumes "table_life t ins drp"
  shows "\<exists>d. Table_drop t = Some d \<and> ins = drp + mset d"
  using table_life_inv [OF assms] Table_drop_spec [of t] by (metis live_def)

theorem table_values_dropped_once_witness:
  "\<exists>t d. table_life t {#5 :: nat#} {#} \<and> Table_drop t = Some d \<and> {#5#} = mset d"
proof -
  let ?t = "Table_new 1 [\<lparr>ci_storage = Dense, ci_dropper = True\<rparr>] [0] :: nat Table"
  have wf: "table_wf ?t" and len: "tb_entities ?t = []" and comps: "tb_components ?t = [0]"
    using Table_new_spec(1) [of "[0]" 1 "[\<lparr>ci_storage = Dense, ci_dropper = True\<rparr>]"] by (simp_all add: Table_new_def)
  obtain t1 where t1: "Table_alloc_row ?t (Entity (EntityId 1) (EntityTag 0)) = Some (0, t1)" "table_wf t1" "same_schema ?t t1" "0 < tb_capacity t1"
    using Table_alloc_row_spec [OF wf, of "Entity (EntityId 1) (EntityTag 0)"] len by auto
  obtain t2 where t2: "init_columns t1 0 (Tick 1) 0 [5] = Some t2"
    using init_columns_spec [OF t1(2), of 0 "[5]" 0 "Tick 1"] t1(3,4) comps by (auto simp: same_schema_def)
  have "table_life ?t {#} {#}" by (rule life_new) simp
  from life_add [OF this _ _ t1(1) t2] len comps
  have life: "table_life t2 ({#} + owned ?t [5]) {#}" by simp
  have "owned ?t [5] = {#5#}" by (simp add: owned_def Table_new_def Column_new_wf)
  then show ?thesis using life table_values_dropped_once [of t2 "{#5#}" "{#}"] by auto
qed

text \<open>
  C16. The registry of tables: whatever component sets were registered, registering one either returns the id of a
  table with exactly that set, the same id again at every later registration, with no other table changed; or it panics,
  which happens exactly when the set is new and the registry already holds \<open>2 ^ 32 - 1\<close> tables. In particular the
  truncation of the table count to 32 bits never gives two sets the same id.
\<close>

theorem tables_register_idempotent:
  assumes "tables_ok ts"
  shows "case Tables_register ts cs idents of
      Done (i, ts') \<Rightarrow> tables_ok ts' \<and> Tables_get ts' i \<noteq> None \<and> tb_components (the (Tables_get ts' i)) = idents \<and>
        Tables_register ts' cs' idents = Done (i, ts') \<and>
        (\<forall>j. Tables_get ts j \<noteq> None \<longrightarrow> Tables_get ts' j = Tables_get ts j) \<and>
        (Tables_get_id ts idents \<noteq> None \<or> length (tbs_tables ts) < 2 ^ 32 - 1)
    | Panic \<Rightarrow> Tables_get_id ts idents = None \<and> length (tbs_tables ts) = 2 ^ 32 - 1
    | Undef \<Rightarrow> False"
proof (cases "Tables_register ts cs idents")
  case (Done r)
  obtain i ts' where r: "r = (i, ts')" by (cases r)
  note spec = Tables_register_spec [OF assms Done [unfolded r]]
  have "Tables_get_id ts idents \<noteq> None \<or> length (tbs_tables ts) < 2 ^ 32 - 1"
    using Done assms unfolding Tables_register_cases [OF assms]
    by (auto simp: tables_ok_def split: option.splits if_splits)
  then show ?thesis using spec Tables_register_cases [OF spec(1), of cs' idents]
    by (simp add: Done r Tables_get_def)
qed (use assms in \<open>auto simp: Tables_register_cases Let_def split: option.splits if_splits\<close>)

theorem tables_register_idempotent_witness:
  "case Tables_register (Tables_new :: nat Tables) ([] :: ComponentInfo list) [2] of
     Done (i, ts) \<Rightarrow> i = 1 \<and> tables_ok ts \<and> Tables_register ts ([] :: ComponentInfo list) [2] = Done (1, ts)
   | _ \<Rightarrow> False"
proof -
  have ok: "tables_ok (Tables_new :: nat Tables)" by (rule Tables_new_ok)
  obtain ts :: "nat Tables" where r: "Tables_register Tables_new ([] :: ComponentInfo list) [2] = Done (1, ts)"
    using Tables_register_cases [OF ok, where cs = "[] :: ComponentInfo list" and idents = "[2]"]
    by (simp add: Tables_get_id_def Tables_new_def)
  show ?thesis
    using tables_register_idempotent [OF ok, where cs = "[] :: ComponentInfo list" and idents = "[2]" and cs' = "[] :: ComponentInfo list"]
    by (simp add: r)
qed

end
