(* ===== verification/Simulation.thy ===== *)
theory Simulation
  imports Prelude
begin

text \<open>
  Functional refinement, stated once for the components that promise an abstract behaviour: a step function of
  the model simulates a step function on abstract states when every step that the specification allows is defined
  in the model, emits the same values and leads to a state that represents the specified one.
\<close>

fun run :: "('o \<Rightarrow> 's \<Rightarrow> ('d list \<times> 's) option) \<Rightarrow> 'o list \<Rightarrow> 's \<Rightarrow> ('d list \<times> 's) option" where
  "run step [] s = Some ([], s)"
| "run step (x # xs) s =
     (case step x s of
        None \<Rightarrow> None
      | Some (d, s1) \<Rightarrow> (case run step xs s1 of None \<Rightarrow> None | Some (ds, s2) \<Rightarrow> Some (d @ ds, s2)))"

lemma run_append:
  "run step (xs @ ys) s =
     (case run step xs s of
        None \<Rightarrow> None
      | Some (d, s1) \<Rightarrow> (case run step ys s1 of None \<Rightarrow> None | Some (ds, s2) \<Rightarrow> Some (d @ ds, s2)))"
  by (induction xs arbitrary: s) (auto split: option.splits)

text \<open>
  Conservation along a run: when every step emits (through \<open>g\<close>) what it takes out of the quantity \<open>h\<close> and \<open>v\<close> puts
  into it, so does a run.
\<close>

lemma multiset_chain: "A' + D' = A1 + X' \<Longrightarrow> A1 + D = A + X \<Longrightarrow> A' + (D + D') = A + (X + X' :: 'a multiset)"
  by (metis add.assoc add.commute)

lemma run_balance:
  assumes step: "\<And>x s d s'. P s \<Longrightarrow> step x s = Some (d, s') \<Longrightarrow> P s' \<and> h s' + mset (map g d) = h s + mset (v x)"
  shows "run step xs s = Some (d, s') \<Longrightarrow> P s \<Longrightarrow> P s' \<and> h s' + mset (map g d) = h s + mset (concat (map v xs))"
proof (induction xs arbitrary: s d)
  case (Cons x xs)
  from Cons.prems(1) obtain d1 s1 d2 where x: "step x s = Some (d1, s1)" "run step xs s1 = Some (d2, s')" "d = d1 @ d2"
    by (auto split: option.splits)
  note s1 = step [OF Cons.prems(2) x(1)]
  with Cons.IH [OF x(2)] have "P s'" "h s' + mset (map g d2) = h s1 + mset (concat (map v xs))" by auto
  with s1 show ?case using multiset_chain [of "h s'" "mset (map g d2)" "h s1" "mset (concat (map v xs))" "mset (map g d1)" "h s" "mset (v x)"] x(3)
    by simp
qed simp

locale simulation =
  fixes step :: "'o \<Rightarrow> 's \<Rightarrow> ('d list \<times> 's) option"
    and spec :: "'o \<Rightarrow> 'a \<Rightarrow> ('d list \<times> 'a) option"
    and inv :: "'s \<Rightarrow> bool"
    and abs :: "'s \<Rightarrow> 'a"
  assumes sim: "inv s \<Longrightarrow> spec x (abs s) = Some (d, a) \<Longrightarrow> \<exists>s'. step x s = Some (d, s') \<and> inv s' \<and> abs s' = a"
begin

lemma run_sim:
  "inv s \<Longrightarrow> run spec xs (abs s) = Some (d, a) \<Longrightarrow> \<exists>s'. run step xs s = Some (d, s') \<and> inv s' \<and> abs s' = a"
proof (induction xs arbitrary: s d)
  case (Cons x xs)
  then obtain d1 a1 d2 where a1: "spec x (abs s) = Some (d1, a1)" "run spec xs a1 = Some (d2, a)" "d = d1 @ d2"
    by (auto split: option.splits)
  then obtain s1 where s1: "step x s = Some (d1, s1)" "inv s1" "abs s1 = a1"
    using sim [OF Cons.prems(1)] by blast
  then show ?case using Cons.IH [OF s1(2)] a1 by fastforce
qed auto

end

section \<open>Finite maps of cells\<close>

text \<open>The values a finite map of cells holds.\<close>

definition held :: "('k \<Rightarrow> ('v \<times> 'c) option) \<Rightarrow> 'v multiset" where
  "held a = image_mset (\<lambda>e. fst (the (a e))) (mset_set (dom a))"

definition cell_value :: "('v \<times> 'c) option \<Rightarrow> 'v multiset" where
  "cell_value x = (case x of None \<Rightarrow> {#} | Some y \<Rightarrow> {#fst y#})"

lemma held_empty [simp]: "held Map.empty = {#}"
  by (simp add: held_def)

lemma held_update:
  assumes "finite (dom a)"
  shows "held (a(e := z)) = cell_value z + image_mset (\<lambda>x. fst (the (a x))) (mset_set (dom a - {e}))"
proof -
  have rest: "image_mset (\<lambda>x. fst (the ((a(e := z)) x))) (mset_set (dom a - {e})) =
      image_mset (\<lambda>x. fst (the (a x))) (mset_set (dom a - {e}))"
    using assms by (intro image_mset_cong) auto
  show ?thesis
  proof (cases z)
    case (Some y)
    then have "dom (a(e := z)) = insert e (dom a - {e})" by auto
    then have "held (a(e := z)) = image_mset (\<lambda>x. fst (the ((a(e := z)) x))) (add_mset e (mset_set (dom a - {e})))"
      using assms unfolding held_def by (simp only: mset_set.insert finite_Diff Diff_iff singletonI not_True_eq_False simp_thms)
    then show ?thesis using rest Some by (simp add: cell_value_def)
  qed (use rest in \<open>simp add: held_def cell_value_def\<close>)
qed

lemma held_split:
  "finite (dom a) \<Longrightarrow> held a = cell_value (a e) + image_mset (\<lambda>x. fst (the (a x))) (mset_set (dom a - {e}))"
  using held_update [of a e "a e"] by simp

lemma held_balance: "finite (dom a) \<Longrightarrow> held (a(e := z)) + cell_value (a e) = held a + cell_value z"
  using held_update [of a e z] held_split [of a e] by (simp add: ac_simps)

end
