(* ===== verification/SparseMaps.thy ===== *)
theory SparseMaps
  imports Tables Simulation "HOL-Library.AList"
begin

text \<open>
  Sparse component storage (\<open>crates/voker-ecs/src/storage/sparse/\<close>): one map per sparse component, from
  entities to rows of a column, with a heap of free rows; and the registry of maps. The hash maps of the sources
  are association lists. The free list is a binary heap of reversed rows, which pops its smallest row: a
  sorted list. An operation is \<open>None\<close> when the code would access memory it must not, or abort.
\<close>

section \<open>Map\<close>

type_synonym MapId = nat
type_synonym MapRow = nat

record 'v Map =
  mp_id :: MapId
  mp_component :: ComponentId
  mp_entities :: "Entity option list"
  mp_free :: "MapRow list"
  mp_mapper :: "(Entity \<times> MapRow) list"
  mp_column :: "'v Column"

definition Map_new :: "MapId \<Rightarrow> ComponentId \<Rightarrow> 'i ComponentInfo_scheme \<Rightarrow> 'v Map" where
  "Map_new map_id i info =
     \<lparr>mp_id = map_id, mp_component = i, mp_entities = [], mp_free = [], mp_mapper = [],
      mp_column = Column_new (ci_dropper info)\<rparr>"

text \<open>The vector of entities is always resized to its capacity.\<close>

definition Map_capacity :: "'v Map \<Rightarrow> nat" where
  "Map_capacity m = length (mp_entities m)"

definition Map_check_ticks :: "'v Map \<Rightarrow> Tick \<Rightarrow> 'v Map option" where
  "Map_check_ticks m now =
     (case map snd (mp_mapper m) of
        [] \<Rightarrow> Some m
      | r # rs \<Rightarrow> do {
          let row = fold max rs r;
          column \<leftarrow> Column_check_ticks (mp_column m) row now;
          Some (m\<lparr>mp_column := column\<rparr>)
        })"

definition Map_drop :: "'v Map \<Rightarrow> 'v list option" where
  "Map_drop m = map_option concat (those
     (map (\<lambda>(idx, v). if v \<noteq> None then Column_drop_item (mp_column m) idx else Some [])
        (enumerate 0 (mp_entities m))))"

definition Map_reserve_many :: "'v Map \<Rightarrow> (MapRow \<times> 'v Map) option" where
  "Map_reserve_many m =
     (let old_cap = Map_capacity m;
          new_cap = vec_reserve old_cap (length (mp_entities m)) 1
      in if new_cap \<le> 4294967295
         then Some (old_cap,
                m\<lparr>mp_entities := mp_entities m @ replicate (new_cap - length (mp_entities m)) None,
                  mp_column := (if old_cap \<noteq> 0 then Column_realloc (mp_column m) new_cap
                                else Column_alloc (mp_column m) new_cap),
                  mp_free := fold insort [old_cap + 1..<new_cap] (mp_free m)\<rparr>)
         else None)"

definition Map_alloc_row :: "'v Map \<Rightarrow> Entity \<Rightarrow> (MapRow \<times> 'v Map) option" where
  "Map_alloc_row m entity = do {
     (row, m) \<leftarrow> (case mp_free m of
         row # free \<Rightarrow> Some (row, m\<lparr>mp_free := free\<rparr>)
       | [] \<Rightarrow> Map_reserve_many m);
     if row < length (mp_entities m)
     then Some (row, m\<lparr>mp_entities := (mp_entities m)[row := Some entity],
                       mp_mapper := AList.update entity row (mp_mapper m)\<rparr>)
     else None
   }"

definition Map_drop_item :: "'v Map \<Rightarrow> MapRow \<Rightarrow> 'v list option" where
  "Map_drop_item m row = Column_drop_item (mp_column m) row"

definition Map_dealloc_row :: "bool \<Rightarrow> 'v Map \<Rightarrow> MapRow \<Rightarrow> ('v list \<times> 'v Map) option" where
  "Map_dealloc_row DROP m map_row = do {
     let removal = map_row;
     entity \<leftarrow> cell_get (mp_entities m) removal;
     let m = m\<lparr>mp_entities := (mp_entities m)[removal := None],
               mp_mapper := AList.delete entity (mp_mapper m),
               mp_free := insort map_row (mp_free m)\<rparr>;
     dropped \<leftarrow> (if DROP then Map_drop_item m map_row else Some []);
     Some (dropped, m)
   }"

definition Map_get_map_row :: "'v Map \<Rightarrow> Entity \<Rightarrow> MapRow option" where
  "Map_get_map_row m entity = map_of (mp_mapper m) entity"

definition Map_get_data :: "'v Map \<Rightarrow> MapRow \<Rightarrow> 'v option" where
  "Map_get_data m row = Column_get_data (mp_column m) row"

definition Map_get_added :: "'v Map \<Rightarrow> MapRow \<Rightarrow> Tick option" where
  "Map_get_added m row = Column_get_added (mp_column m) row"

definition Map_get_changed :: "'v Map \<Rightarrow> MapRow \<Rightarrow> Tick option" where
  "Map_get_changed m row = Column_get_changed (mp_column m) row"

definition Map_init_item :: "'v Map \<Rightarrow> MapRow \<Rightarrow> 'v \<Rightarrow> Tick \<Rightarrow> 'v Map option" where
  "Map_init_item m row v tick = do {
     column \<leftarrow> Column_init_item (mp_column m) row v tick;
     Some (m\<lparr>mp_column := column\<rparr>)
   }"

definition Map_replace_item :: "'v Map \<Rightarrow> MapRow \<Rightarrow> 'v \<Rightarrow> Tick \<Rightarrow> ('v list \<times> 'v Map) option" where
  "Map_replace_item m row v tick = do {
     (dropped, column) \<leftarrow> Column_replace_item (mp_column m) row v tick;
     Some (dropped, m\<lparr>mp_column := column\<rparr>)
   }"

definition Map_remove_item :: "'v Map \<Rightarrow> MapRow \<Rightarrow> 'v option" where
  "Map_remove_item m row = Column_remove_item (mp_column m) row"

section \<open>Maps\<close>

record 'v Maps =
  mps_maps :: "'v Map list"
  mps_mapper :: "(ComponentId \<times> MapId) list"

definition Maps_new :: "'v Maps" where
  "Maps_new = \<lparr>mps_maps = [], mps_mapper = []\<rparr>"

text \<open>Preparing a map panics with ``too many maps'' when the next id would be the maximum of 32 bits.\<close>

definition MapId_new :: "u32 \<Rightarrow> MapId outcome" where
  "MapId_new i = (case NonMaxU32_new i of Some map_id \<Rightarrow> Done map_id | None \<Rightarrow> Panic)"

definition Maps_prepare :: "'v Maps \<Rightarrow> ComponentId \<Rightarrow> 'i ComponentInfo_scheme \<Rightarrow> 'v Maps outcome" where
  "Maps_prepare ms i info =
     (if map_of (mps_mapper ms) i = None
      then (case MapId_new (of_nat (length (mps_maps ms))) of
              Done map_id \<Rightarrow>
                Done \<lparr>mps_maps = mps_maps ms @ [Map_new map_id i info], mps_mapper = AList.update i map_id (mps_mapper ms)\<rparr>
            | Panic \<Rightarrow> Panic
            | Undef \<Rightarrow> Undef)
      else Done ms)"

fun Maps_register :: "'v Maps \<Rightarrow> 'i ComponentInfos \<Rightarrow> ComponentId list \<Rightarrow> 'v Maps outcome" where
  "Maps_register ms components [] = Done ms"
| "Maps_register ms components (i # idents) =
     (case Maps_prepare ms i (components ! i) of
        Done ms \<Rightarrow> Maps_register ms components idents
      | Panic \<Rightarrow> Panic
      | Undef \<Rightarrow> Undef)"

definition Maps_get_id :: "'v Maps \<Rightarrow> ComponentId \<Rightarrow> MapId option" where
  "Maps_get_id ms component = map_of (mps_mapper ms) component"

definition Maps_get :: "'v Maps \<Rightarrow> MapId \<Rightarrow> 'v Map option" where
  "Maps_get ms i = (if i < length (mps_maps ms) then Some (mps_maps ms ! i) else None)"

section \<open>The map as a finite map of cells\<close>

definition Map_abs :: "'v Map \<Rightarrow> Entity \<Rightarrow> ('v \<times> Tick \<times> Tick) option" where
  "Map_abs m e = do { row \<leftarrow> Map_get_map_row m e; Column_cell (mp_column m) row }"

text \<open>
  The mapper and the vector of entities are inverse to each other, the free rows are the vacant ones, and the rows
  that were ever initialised are those below a watermark \<open>w\<close> with all occupied rows below it.
\<close>

definition map_struct :: "'v Map \<Rightarrow> bool" where
  "map_struct m \<longleftrightarrow> col_wf (Map_capacity m) (mp_column m) \<and> distinct (map fst (mp_mapper m)) \<and>
     (\<forall>e r. Map_get_map_row m e = Some r \<longleftrightarrow> cell_get (mp_entities m) r = Some e) \<and>
     sorted (mp_free m) \<and> distinct (mp_free m) \<and>
     (\<forall>r. r \<in> set (mp_free m) \<longleftrightarrow> r < Map_capacity m \<and> cell_get (mp_entities m) r = None)"

definition map_water :: "nat \<Rightarrow> 'v Map \<Rightarrow> bool" where
  "map_water w m \<longleftrightarrow> (\<forall>r < w. Column_cell (mp_column m) r \<noteq> None) \<and>
     (\<forall>r e. cell_get (mp_entities m) r = Some e \<longrightarrow> r < w) \<and> w \<le> Map_capacity m"

definition map_wf :: "'v Map \<Rightarrow> bool" where
  "map_wf m \<longleftrightarrow> map_struct m \<and> (\<exists>w. map_water w m)"

lemma fold_insort:
  "set (fold insort xs ys) = set xs \<union> set ys"
  "sorted ys \<Longrightarrow> sorted (fold insort xs ys)"
  "distinct (xs @ ys) \<Longrightarrow> distinct (fold insort xs ys)"
  by (induction xs arbitrary: ys) (auto simp: set_insort_key sorted_insort distinct_insort)

lemma map_struct_row:
  "map_struct m \<Longrightarrow> Map_get_map_row m e = Some r \<Longrightarrow> cell_get (mp_entities m) r = Some e \<and> r < Map_capacity m"
  by (auto simp: map_struct_def Map_capacity_def cell_get_def split: if_splits)

lemma map_struct_free:
  "map_struct m \<Longrightarrow> r \<in> set (mp_free m) \<longleftrightarrow> r < Map_capacity m \<and> cell_get (mp_entities m) r = None"
  by (simp add: map_struct_def)

text \<open>Marking a vacant row as occupied.\<close>

lemma map_struct_occupy:
  assumes m: "map_struct m" and e: "Map_get_map_row m e = None"
    and ents: "length ents = cap" "r < cap" "\<And>j. cell_get ents j = cell_get (mp_entities m) j" "cell_get (mp_entities m) r = None"
    and col: "col_wf cap col" and fr: "sorted free" "distinct free"
      "\<And>j. j \<in> set free \<longleftrightarrow> j < cap \<and> j \<noteq> r \<and> cell_get (mp_entities m) j = None"
    and m': "m' = m\<lparr>mp_entities := ents[r := Some e], mp_mapper := AList.update e r (mp_mapper m), mp_free := free, mp_column := col\<rparr>"
  shows "map_struct m'" "Map_get_map_row m' = (Map_get_map_row m)(e \<mapsto> r)"
    "\<And>j. cell_get (mp_entities m') j = (if j = r then Some e else cell_get (mp_entities m) j)"
proof -
  show rows: "Map_get_map_row m' = (Map_get_map_row m)(e \<mapsto> r)"
    unfolding Map_get_map_row_def m' by (simp add: update_conv' fun_eq_iff)
  show cells: "cell_get (mp_entities m') j = (if j = r then Some e else cell_get (mp_entities m) j)" for j
    using ents by (simp add: m')
  have iff: "Map_get_map_row m x = Some y \<longleftrightarrow> cell_get (mp_entities m) y = Some x" for x y
    using m by (simp add: map_struct_def)
  have "Map_get_map_row m' x = Some y \<longleftrightarrow> cell_get (mp_entities m') y = Some x" for x y
    using iff e ents(4) unfolding rows cells by (metis fun_upd_apply option.distinct(1) option.inject)
  moreover have "j \<in> set free \<longleftrightarrow> j < cap \<and> cell_get (mp_entities m') j = None" for j
    using fr(3) cells by auto
  moreover have "distinct (map fst (mp_mapper m'))"
    using m unfolding m' by (simp add: map_struct_def distinct_update)
  ultimately show "map_struct m'"
    using col fr(1,2) ents(1) unfolding map_struct_def by (simp add: m' Map_capacity_def)
qed

lemma Map_alloc_row_spec:
  assumes m: "map_struct m" and e: "Map_get_map_row m e = None"
    and small: "mp_free m = [] \<Longrightarrow> Map_capacity m < 2 ^ 31"
  obtains r m' where "Map_alloc_row m e = Some (r, m')" "map_struct m'" "Map_get_map_row m' = (Map_get_map_row m)(e \<mapsto> r)"
    "cell_get (mp_entities m) r = None" "r < Map_capacity m'" "Map_capacity m \<le> Map_capacity m'"
    "\<And>j. cell_get (mp_entities m') j = (if j = r then Some e else cell_get (mp_entities m) j)"
    "\<And>j. Column_cell (mp_column m') j = Column_cell (mp_column m) j" "col_dropper (mp_column m') = col_dropper (mp_column m)"
    "\<And>w. map_water w m \<Longrightarrow> r \<le> w" "mp_component m' = mp_component m"
proof (cases "mp_free m")
  case (Cons r free)
  have r: "r < Map_capacity m" "cell_get (mp_entities m) r = None"
    using map_struct_free [OF m, of r] Cons by auto
  have fr: "sorted free" "distinct free" "\<And>j. j \<in> set free \<longleftrightarrow> j < Map_capacity m \<and> j \<noteq> r \<and> cell_get (mp_entities m) j = None"
    "\<And>j. j \<in> set free \<Longrightarrow> r \<le> j"
    using m Cons map_struct_free [OF m] by (auto simp: map_struct_def)
  define m' where "m' = m\<lparr>mp_entities := (mp_entities m)[r := Some e], mp_mapper := AList.update e r (mp_mapper m),
      mp_free := free, mp_column := mp_column m\<rparr>"
  have col: "col_wf (Map_capacity m) (mp_column m)" using m by (simp add: map_struct_def)
  note occ = map_struct_occupy [OF m e _ r(1) refl r(2) col fr(1-3) m'_def]
  show thesis
  proof (rule that [of r m'])
    show "Map_alloc_row m e = Some (r, m')"
      using r(1) by (simp add: Map_alloc_row_def Cons m'_def Map_capacity_def)
    show "r \<le> w" if "map_water w m" for w
    proof (rule ccontr)
      assume "\<not> r \<le> w"
      then have "w < Map_capacity m" "w \<notin> set (mp_free m)" using r(1) fr(4) Cons by auto
      then obtain x where "cell_get (mp_entities m) w = Some x" using map_struct_free [OF m, of w] by auto
      then show False using that unfolding map_water_def by blast
    qed
  qed (use occ r in \<open>simp_all add: m'_def Map_capacity_def\<close>)
next
  case Nil
  let ?cap = "Map_capacity m"
  define new_cap where "new_cap = vec_reserve ?cap ?cap 1"
  have new: "?cap + 1 \<le> new_cap" "new_cap \<le> 4294967295"
    using vec_reserve_room [of ?cap ?cap 1] small [OF Nil] by (auto simp: new_cap_def vec_reserve_def)
  define ents where "ents = mp_entities m @ replicate (new_cap - ?cap) None"
  define col where "col = (if ?cap \<noteq> 0 then Column_realloc (mp_column m) new_cap else Column_alloc (mp_column m) new_cap)"
  define free where "free = fold insort [?cap + 1..<new_cap] []"
  have wf: "col_wf ?cap (mp_column m)" using m by (simp add: map_struct_def)
  have cols: "col_wf new_cap col" "col_dropper col = col_dropper (mp_column m)" "Column_cell col j = Column_cell (mp_column m) j" for j
  proof -
    have none: "Column_cell (mp_column m) j = None" if "?cap = 0"
      using Column_cell_bound [OF wf, of j] that by (cases "Column_cell (mp_column m) j") auto
    show "col_wf new_cap col" "col_dropper col = col_dropper (mp_column m)" "Column_cell col j = Column_cell (mp_column m) j"
      using Column_realloc_spec [OF wf, of new_cap] Column_alloc_spec [where n = new_cap and c = "mp_column m"] none new
      by (simp_all add: col_def)
  qed
  have full: "cell_get (mp_entities m) j \<noteq> None" if "j < ?cap" for j
    using map_struct_free [OF m, of j] Nil that by auto
  have ents: "length ents = new_cap" "\<And>j. cell_get ents j = cell_get (mp_entities m) j"
    using new by (auto simp: ents_def Map_capacity_def cell_get_def nth_append)
  have vac: "cell_get (mp_entities m) ?cap = None" by (simp add: cell_get_def Map_capacity_def)
  have fr: "sorted free" "distinct free" "\<And>j. j \<in> set free \<longleftrightarrow> j < new_cap \<and> j \<noteq> ?cap \<and> cell_get (mp_entities m) j = None"
    using full by (auto simp: free_def fold_insort cell_get_def Map_capacity_def)
  define m' where "m' = m\<lparr>mp_entities := ents[?cap := Some e], mp_mapper := AList.update e ?cap (mp_mapper m),
      mp_free := free, mp_column := col\<rparr>"
  have capn: "?cap < new_cap" using new by simp
  note occ = map_struct_occupy [OF m e ents(1) capn ents(2) vac cols(1) fr m'_def]
  show thesis
  proof (rule that [of ?cap m'])
    show "Map_alloc_row m e = Some (?cap, m')"
      using new ents(1) Nil by (simp add: Map_alloc_row_def Map_reserve_many_def Let_def m'_def ents_def new_cap_def free_def col_def Map_capacity_def)
    show "?cap \<le> w" if "map_water w m" for w
    proof (rule ccontr)
      assume "\<not> ?cap \<le> w"
      then obtain x where "cell_get (mp_entities m) w = Some x" using full [of w] by auto
      then show False using that unfolding map_water_def by blast
    qed
  qed (use occ cols vac new ents in \<open>simp_all add: m'_def Map_capacity_def\<close>)
qed

lemma Map_get_map_row_column [simp]: "Map_get_map_row (m\<lparr>mp_column := c\<rparr>) = Map_get_map_row m"
  by (simp add: Map_get_map_row_def fun_eq_iff)

lemma map_wf_abs_iff: "map_wf m \<Longrightarrow> Map_abs m e = None \<longleftrightarrow> Map_get_map_row m e = None"
proof -
  assume m: "map_wf m"
  then obtain w where w: "map_struct m" "map_water w m" by (auto simp: map_wf_def)
  show ?thesis
  proof (cases "Map_get_map_row m e")
    case (Some r)
    then have "Column_cell (mp_column m) r \<noteq> None"
      using map_struct_row [OF w(1) Some] w(2) unfolding map_water_def by blast
    then show ?thesis using Some by (simp add: Map_abs_def)
  qed (simp add: Map_abs_def)
qed

lemma map_abs_Some:
  "map_wf m \<Longrightarrow> Map_abs m e = Some x \<Longrightarrow>
   \<exists>r. Map_get_map_row m e = Some r \<and> r < Map_capacity m \<and> cell_get (mp_entities m) r = Some e \<and> Column_cell (mp_column m) r = Some x"
  using map_struct_row [of m e] by (auto simp: Map_abs_def map_wf_def split: Option.bind_splits)

lemma map_rows_inj:
  "map_struct m \<Longrightarrow> Map_get_map_row m e = Some r \<Longrightarrow> Map_get_map_row m e' = Some r \<Longrightarrow> e = e'"
  by (metis map_struct_row option.inject)

lemma map_capacity_le:
  assumes m: "map_wf m" and free: "mp_free m = []"
  shows "Map_capacity m \<le> card (dom (Map_abs m))"
proof -
  have s: "map_struct m" using m by (simp add: map_wf_def)
  have occ: "\<exists>e. cell_get (mp_entities m) r = Some e" if "r < Map_capacity m" for r
    using map_struct_free [OF s, of r] free that by auto
  have row: "Map_get_map_row m e = Some r \<longleftrightarrow> cell_get (mp_entities m) r = Some e" for e r
    using s by (simp add: map_struct_def)
  have "dom (Map_abs m) = dom (Map_get_map_row m)"
    using map_wf_abs_iff [OF m] by (auto simp: dom_def simp del: not_None_eq)
  moreover have "finite (dom (Map_get_map_row m))"
    unfolding Map_get_map_row_def by (rule finite_dom_map_of)
  moreover have "inj_on (\<lambda>r. the (cell_get (mp_entities m) r)) {..<Map_capacity m}"
    using occ row by (intro inj_onI) (metis lessThan_iff option.sel option.inject)
  moreover have "(\<lambda>r. the (cell_get (mp_entities m) r)) ` {..<Map_capacity m} \<subseteq> dom (Map_get_map_row m)"
    using occ row by fastforce
  ultimately show ?thesis by (metis card_inj_on_le card_lessThan)
qed

text \<open>The three uses the storage layer makes of a map: adding, overwriting and removing an entity's component.\<close>

datatype 'v map_op = Put Entity 'v Tick | Overwrite Entity 'v Tick | Delete Entity

fun map_step :: "'v map_op \<Rightarrow> 'v Map \<Rightarrow> ('v list \<times> 'v Map) option" where
  "map_step (Put e v tick) m = do {
     (row, m) \<leftarrow> Map_alloc_row m e;
     m \<leftarrow> Map_init_item m row v tick;
     Some ([], m)
   }"
| "map_step (Overwrite e v tick) m = do {
     row \<leftarrow> Map_get_map_row m e;
     Map_replace_item m row v tick
   }"
| "map_step (Delete e) m = do {
     row \<leftarrow> Map_get_map_row m e;
     Map_dealloc_row True m row
   }"

fun map_spec :: "bool \<Rightarrow> 'v map_op \<Rightarrow> (Entity \<Rightarrow> ('v \<times> Tick \<times> Tick) option)
    \<Rightarrow> ('v list \<times> (Entity \<Rightarrow> ('v \<times> Tick \<times> Tick) option)) option" where
  "map_spec d (Put e v tick) a =
     (if a e = None \<and> card (dom a) < 2 ^ 31 then Some ([], a(e \<mapsto> (v, tick, tick))) else None)"
| "map_spec d (Overwrite e v tick) a =
     (case a e of None \<Rightarrow> None | Some (old, added, _) \<Rightarrow> Some (if d then [old] else [], a(e \<mapsto> (v, added, tick))))"
| "map_spec d (Delete e) a =
     (case a e of None \<Rightarrow> None | Some (old, _, _) \<Rightarrow> Some (if d then [old] else [], a(e := None)))"

lemma map_put_sim:
  assumes m: "map_wf m" and e: "Map_abs m e = None" and small: "card (dom (Map_abs m)) < 2 ^ 31"
  shows "\<exists>m'. map_step (Put e v tick) m = Some ([], m') \<and> map_wf m' \<and> col_dropper (mp_column m') = col_dropper (mp_column m) \<and>
    Map_abs m' = (Map_abs m)(e \<mapsto> (v, tick, tick))"
proof -
  obtain w where s: "map_struct m" and w: "map_water w m" using m by (auto simp: map_wf_def)
  have row: "Map_get_map_row m e = None" using map_wf_abs_iff [OF m] e by simp
  have cap: "Map_capacity m < 2 ^ 31" if "mp_free m = []" using map_capacity_le [OF m that] small by simp
  obtain r m1 where m1: "Map_alloc_row m e = Some (r, m1)" "map_struct m1" "Map_get_map_row m1 = (Map_get_map_row m)(e \<mapsto> r)"
    "cell_get (mp_entities m) r = None" "r < Map_capacity m1" "Map_capacity m \<le> Map_capacity m1"
    "\<And>j. cell_get (mp_entities m1) j = (if j = r then Some e else cell_get (mp_entities m) j)"
    "\<And>j. Column_cell (mp_column m1) j = Column_cell (mp_column m) j" "col_dropper (mp_column m1) = col_dropper (mp_column m)" "r \<le> w"
    by (rule Map_alloc_row_spec [OF s row cap]) (use w in \<open>auto intro: that\<close>)
  obtain c where c: "Column_init_item (mp_column m1) r v tick = Some c" "col_wf (Map_capacity m1) c" "col_dropper c = col_dropper (mp_column m1)"
    "\<And>j. Column_cell c j = (if j = r then Some (v, tick, tick) else Column_cell (mp_column m1) j)"
    using Column_init_item_spec [of "Map_capacity m1" "mp_column m1" r v tick] m1(2,5) by (auto simp: map_struct_def)
  define m2 where "m2 = m1\<lparr>mp_column := c\<rparr>"
  have rows: "Map_get_map_row m2 = (Map_get_map_row m)(e \<mapsto> r)" using m1(3) by (simp add: m2_def)
  have s2: "map_struct m2" using m1(2) c(2) by (simp add: map_struct_def Map_get_map_row_def Map_capacity_def m2_def)
  have "map_water (max w (Suc r)) m2"
    using w m1(5-8,10) c(4) unfolding map_water_def
    by (auto simp: m2_def Map_capacity_def less_Suc_eq max_def simp del: not_None_eq split: if_splits)
  then have "map_wf m2" using s2 by (auto simp: map_wf_def)
  moreover have "Map_abs m2 = (Map_abs m)(e \<mapsto> (v, tick, tick))"
  proof
    fix x
    have "Map_get_map_row m x \<noteq> Some r" using map_struct_row [OF s, of x r] m1(4) by auto
    then show "Map_abs m2 x = ((Map_abs m)(e \<mapsto> (v, tick, tick))) x"
      unfolding Map_abs_def rows by (cases "Map_get_map_row m x") (auto simp: m2_def c(4) m1(8))
  qed
  ultimately show ?thesis using m1(1,9) c(1,3) by (auto simp: Map_init_item_def m2_def)
qed

lemma map_overwrite_sim:
  assumes m: "map_wf m" and e: "Map_abs m e = Some (old, added, ch)"
  shows "\<exists>m'. map_step (Overwrite e v tick) m = Some (if col_dropper (mp_column m) then [old] else [], m') \<and> map_wf m' \<and>
    col_dropper (mp_column m') = col_dropper (mp_column m) \<and> Map_abs m' = (Map_abs m)(e \<mapsto> (v, added, tick))"
proof -
  obtain w where s: "map_struct m" and w: "map_water w m" using m by (auto simp: map_wf_def)
  obtain r where r: "Map_get_map_row m e = Some r" "Column_cell (mp_column m) r = Some (old, added, ch)"
    using map_abs_Some [OF m e] by blast
  have wf: "col_wf (Map_capacity m) (mp_column m)" using s by (simp add: map_struct_def)
  obtain c where c: "Column_replace_item (mp_column m) r v tick = Some (drops (mp_column m) (old, added, ch), c)"
    "col_wf (Map_capacity m) c" "col_dropper c = col_dropper (mp_column m)"
    "\<And>j. Column_cell c j = (if j = r then Some (v, added, tick) else Column_cell (mp_column m) j)"
    by (rule Column_replace_item_spec [OF wf r(2), of v tick]) simp
  define m2 where "m2 = m\<lparr>mp_column := c\<rparr>"
  have "map_struct m2" "map_water w m2"
    using s w c(2,4) by (auto simp: map_struct_def map_water_def Map_get_map_row_def Map_capacity_def m2_def simp del: not_None_eq)
  then have "map_wf m2" by (auto simp: map_wf_def)
  moreover have "Map_abs m2 = (Map_abs m)(e \<mapsto> (v, added, tick))"
  proof
    fix x
    have "Map_get_map_row m2 = Map_get_map_row m" by (simp add: m2_def)
    then show "Map_abs m2 x = ((Map_abs m)(e \<mapsto> (v, added, tick))) x"
      using map_rows_inj [OF s r(1), of x] r(1) by (cases "Map_get_map_row m x") (auto simp: Map_abs_def m2_def c(4))
  qed
  ultimately show ?thesis using c(1,3) r(1) by (auto simp: Map_replace_item_def m2_def drops_def)
qed

lemma map_struct_vacate:
  assumes s: "map_struct m" and r: "Map_get_map_row m e = Some r"
    and m': "m' = m\<lparr>mp_entities := (mp_entities m)[r := None], mp_mapper := AList.delete e (mp_mapper m), mp_free := insort r (mp_free m)\<rparr>"
  shows "map_struct m'" "Map_get_map_row m' = (Map_get_map_row m)(e := None)"
    "\<And>j. cell_get (mp_entities m') j = (if j = r then None else cell_get (mp_entities m) j)"
proof -
  note row = map_struct_row [OF s r]
  show rows: "Map_get_map_row m' = (Map_get_map_row m)(e := None)"
    unfolding Map_get_map_row_def m' by (simp add: delete_conv' fun_eq_iff)
  show cells: "cell_get (mp_entities m') j = (if j = r then None else cell_get (mp_entities m) j)" for j
    using row by (simp add: m' Map_capacity_def)
  have iff: "Map_get_map_row m x = Some y \<longleftrightarrow> cell_get (mp_entities m) y = Some x" for x y
    using s by (simp add: map_struct_def)
  have "Map_get_map_row m' x = Some y \<longleftrightarrow> cell_get (mp_entities m') y = Some x" for x y
    using iff r unfolding rows cells by (metis fun_upd_apply option.distinct(1) option.inject)
  moreover have "j \<in> set (mp_free m') \<longleftrightarrow> j < Map_capacity m' \<and> cell_get (mp_entities m') j = None" for j
    using map_struct_free [OF s, of j] row cells [of j] by (auto simp: m' Map_capacity_def set_insort_key)
  moreover have "r \<notin> set (mp_free m)" using map_struct_free [OF s, of r] row by simp
  moreover have "distinct (map fst (mp_mapper m'))"
    using s unfolding m' by (simp add: map_struct_def distinct_delete)
  ultimately show "map_struct m'"
    using s unfolding map_struct_def by (simp add: m' Map_capacity_def sorted_insort distinct_insort)
qed

lemma map_delete_sim:
  assumes m: "map_wf m" and e: "Map_abs m e = Some (old, added, ch)"
  shows "\<exists>m'. map_step (Delete e) m = Some (if col_dropper (mp_column m) then [old] else [], m') \<and> map_wf m' \<and>
    col_dropper (mp_column m') = col_dropper (mp_column m) \<and> Map_abs m' = (Map_abs m)(e := None)"
proof -
  obtain w where s: "map_struct m" and w: "map_water w m" using m by (auto simp: map_wf_def)
  obtain r where r: "Map_get_map_row m e = Some r" "cell_get (mp_entities m) r = Some e" "Column_cell (mp_column m) r = Some (old, added, ch)"
    using map_abs_Some [OF m e] by blast
  define m2 where "m2 = m\<lparr>mp_entities := (mp_entities m)[r := None], mp_mapper := AList.delete e (mp_mapper m), mp_free := insort r (mp_free m)\<rparr>"
  note v = map_struct_vacate [OF s r(1) m2_def]
  have "map_water w m2"
    using w v(3) unfolding map_water_def by (auto simp: m2_def Map_capacity_def split: if_splits)
  then have "map_wf m2" using v(1) by (auto simp: map_wf_def)
  moreover have "Map_abs m2 = (Map_abs m)(e := None)"
    by (rule ext) (simp add: Map_abs_def v(2), simp add: m2_def)
  moreover have "Map_drop_item m2 r = Some (if col_dropper (mp_column m) then [old] else [])"
    using Column_drop_item_spec [OF r(3)] by (simp add: Map_drop_item_def m2_def drops_def)
  ultimately show ?thesis using r(1,2)
    by (simp add: Map_dealloc_row_def flip: m2_def) (simp add: m2_def)
qed

interpretation sparse: simulation map_step "map_spec d" "\<lambda>m. map_wf m \<and> col_dropper (mp_column m) = d" Map_abs for d
proof
  fix s :: "'a Map" and x ds a
  assume s: "map_wf s \<and> col_dropper (mp_column s) = d" and spec: "map_spec d x (Map_abs s) = Some (ds, a)"
  show "\<exists>s'. map_step x s = Some (ds, s') \<and> (map_wf s' \<and> col_dropper (mp_column s') = d) \<and> Map_abs s' = a"
  proof (cases x)
    case (Put e v tick)
    then show ?thesis using map_put_sim [of s e v tick] s spec by (auto split: if_splits)
  next
    case (Overwrite e v tick)
    then show ?thesis using map_overwrite_sim [of s e _ _ _ v tick] s spec by (fastforce split: option.splits)
  next
    case (Delete e)
    then show ?thesis using map_delete_sim [of s e] s spec by (fastforce split: option.splits)
  qed
qed

section \<open>Dropping a map\<close>

lemma Map_drop_held:
  assumes m: "map_wf m"
  obtains d where "Map_drop m = Some d" "mset d = (if col_dropper (mp_column m) then held (Map_abs m) else {#})"
proof -
  let ?occ = "\<lambda>r. cell_get (mp_entities m) r \<noteq> None"
  let ?val = "\<lambda>r. fst (the (Column_cell (mp_column m) r))"
  let ?ent = "\<lambda>r. the (cell_get (mp_entities m) r)"
  obtain w where s: "map_struct m" and w: "map_water w m" using m by (auto simp: map_wf_def)
  have row: "Map_get_map_row m e = Some r \<longleftrightarrow> cell_get (mp_entities m) r = Some e" for e r
    using s by (simp add: map_struct_def)
  have init: "Column_cell (mp_column m) r = Some (the (Column_cell (mp_column m) r))" if "?occ r" for r
    using w that unfolding map_water_def by (metis option.exhaust_sel)
  have bound: "r < length (mp_entities m)" if "?occ r" for r
    using that by (auto simp: cell_get_def split: if_splits)
  let ?f = "\<lambda>r. if ?occ r then drops (mp_column m) (the (Column_cell (mp_column m) r)) else []"
  have enum: "map (\<lambda>(idx, v). if v \<noteq> None then Column_drop_item (mp_column m) idx else Some []) (enumerate 0 (mp_entities m)) =
      map (\<lambda>r. if ?occ r then Column_drop_item (mp_column m) r else Some []) [0..<length (mp_entities m)]"
    by (intro nth_equalityI) (simp_all add: nth_enumerate_eq cell_get_def)
  have "those (map (\<lambda>r. if ?occ r then Column_drop_item (mp_column m) r else Some []) [0..<length (mp_entities m)]) =
      Some (map ?f [0..<length (mp_entities m)])"
    using Column_drop_item_spec [OF init] by (intro those_map_Some) simp
  then have run: "Map_drop m = Some (concat (map ?f [0..<length (mp_entities m)]))"
    unfolding Map_drop_def enum by simp
  have filt: "mset (concat (map (\<lambda>r. if P r then [g r] else []) xs)) = image_mset g (mset (filter P xs))"
    for P and g :: "nat \<Rightarrow> 'a" and xs
    by (induction xs) auto
  have occs: "mset (filter ?occ [0..<length (mp_entities m)]) = mset_set {r. ?occ r}"
  proof -
    have "{r. ?occ r} = set (filter ?occ [0..<length (mp_entities m)])" using bound by auto
    then show ?thesis by (simp only: mset_set_set distinct_filter distinct_upt)
  qed
  have inj: "inj_on ?ent {r. ?occ r}"
  proof (rule inj_onI, clarsimp)
    fix p q e e' assume "cell_get (mp_entities m) p = Some e" "cell_get (mp_entities m) q = Some e"
    then have "Map_get_map_row m e = Some p" "Map_get_map_row m e = Some q" using row by auto
    then show "p = q" by simp
  qed
  have dom: "dom (Map_abs m) = ?ent ` {r. ?occ r}"
  proof -
    have "e \<in> dom (Map_abs m) \<longleftrightarrow> (\<exists>r. cell_get (mp_entities m) r = Some e)" for e
      using map_wf_abs_iff [OF m, of e] row [of e] by (auto simp: dom_def)
    moreover have "e \<in> ?ent ` {r. ?occ r} \<longleftrightarrow> (\<exists>r. cell_get (mp_entities m) r = Some e)" for e
      unfolding image_iff by (auto simp: Bex_def)
    ultimately show ?thesis by blast
  qed
  have "held (Map_abs m) = image_mset (\<lambda>e. fst (the (Map_abs m e))) (image_mset ?ent (mset_set {r. ?occ r}))"
    unfolding held_def dom image_mset_mset_set [OF inj] ..
  also have "\<dots> = image_mset ?val (mset_set {r. ?occ r})"
  proof -
    have fin: "finite {r. ?occ r}" using bound by (auto intro: finite_subset [of _ "{..<length (mp_entities m)}"])
    have "Map_abs m (?ent r) = Column_cell (mp_column m) r" if "?occ r" for r
      using row [of "?ent r" r] that by (auto simp: Map_abs_def)
    then show ?thesis using fin by (simp add: multiset.map_comp comp_def) (intro image_mset_cong, simp)
  qed
  finally have held: "held (Map_abs m) = image_mset ?val (mset_set {r. ?occ r})" .
  show thesis
  proof (rule that [OF run])
    show "mset (concat (map ?f [0..<length (mp_entities m)])) = (if col_dropper (mp_column m) then held (Map_abs m) else {#})"
    proof (cases "col_dropper (mp_column m)")
      case True
      then have "?f = (\<lambda>r. if ?occ r then [?val r] else [])" by (auto simp: drops_def fun_eq_iff)
      then show ?thesis using True filt [of ?occ ?val] occs held by simp
    next
      case False
      then have "?f = (\<lambda>r. [])" by (auto simp: drops_def fun_eq_iff)
      then show ?thesis using False by simp
    qed
  qed
qed

fun op_value :: "'v map_op \<Rightarrow> 'v list" where
  "op_value (Put e v tick) = [v]"
| "op_value (Overwrite e v tick) = [v]"
| "op_value (Delete e) = []"

lemma map_spec_balance:
  assumes "map_spec True x a = Some (d, a')" "finite (dom a)"
  shows "finite (dom a') \<and> held a' + mset d = held a + mset (op_value x)"
proof (cases x)
  case (Put e v tick)
  then show ?thesis using assms held_balance [OF assms(2), of e "Some (v, tick, tick)"]
    by (auto simp: cell_value_def split: if_splits)
next
  case (Overwrite e v tick)
  then obtain old added ch where "a e = Some (old, added, ch)" using assms(1) by (auto split: option.splits)
  then show ?thesis using Overwrite assms held_balance [OF assms(2), of e "Some (v, added, tick)"] by (auto simp: cell_value_def)
next
  case (Delete e)
  then obtain old added ch where "a e = Some (old, added, ch)" using assms(1) by (auto split: option.splits)
  then show ?thesis using Delete assms held_balance [OF assms(2), of e None] by (auto simp: cell_value_def)
qed

lemma map_run_balance:
  assumes "run (map_spec True) xs a = Some (d, a')" "finite (dom a)"
  shows "held a' + mset d = held a + mset (concat (map op_value xs))"
proof -
  have "finite (dom a') \<and> held a' + mset (map id d) = held a + mset (concat (map op_value xs))"
  proof (rule run_balance [where P = "\<lambda>a. finite (dom a)", OF _ assms])
  qed (simp add: map_spec_balance)
  then show ?thesis by simp
qed

lemma Map_new_wf: "map_wf (Map_new i c info)" "Map_abs (Map_new i c info) = Map.empty"
  "col_dropper (mp_column (Map_new i c info)) = ci_dropper info"
  using Column_new_wf [of "ci_dropper info"]
  by (auto simp: map_wf_def map_struct_def map_water_def Map_new_def Map_get_map_row_def Map_capacity_def Map_abs_def
      cell_get_def fun_eq_iff)

section \<open>Tick maintenance of a map\<close>

lemma fold_max_Max: "fold max rs (r :: nat) = Max (insert r (set rs))"
  using Max.set_eq_fold [of r rs] by simp

lemma Map_check_ticks_spec:
  assumes m: "map_wf m" and e: "Map_get_map_row m e = Some r" and top: "\<forall>e' r'. Map_get_map_row m e' = Some r' \<longrightarrow> r' \<le> r"
  obtains m' where "Map_check_ticks m now = Some m'" "map_wf m'" "Map_get_map_row m' = Map_get_map_row m"
    "\<And>j. Column_cell (mp_column m') j = (if j < r then map_option (clamp_cell now) (Column_cell (mp_column m) j) else Column_cell (mp_column m) j)"
proof -
  obtain w where s: "map_struct m" and w: "map_water w m" using m by (auto simp: map_wf_def)
  have wf: "col_wf (Map_capacity m) (mp_column m)" using s by (simp add: map_struct_def)
  have "r < w" using map_struct_row [OF s e] w unfolding map_water_def by blast
  then have init: "Column_cell (mp_column m) i \<noteq> None" if "i < r" for i using w that unfolding map_water_def by simp
  obtain c where c: "Column_check_ticks (mp_column m) r now = Some c" "col_wf (Map_capacity m) c"
    "\<And>i. Column_cell c i = (if i < r then map_option (clamp_cell now) (Column_cell (mp_column m) i) else Column_cell (mp_column m) i)"
    by (rule Column_check_ticks_spec [OF wf init, where now = now]) (auto simp: clamp_cell_def)
  have "(e, r) \<in> set (mp_mapper m)" using e by (auto simp: Map_get_map_row_def dest: map_of_SomeD)
  moreover have "r' \<le> r" if "(e', r') \<in> set (mp_mapper m)" for e' r'
    using top [rule_format, of e' r'] that s by (simp add: Map_get_map_row_def map_struct_def)
  ultimately have max: "fold max rs r0 = r" if "map snd (mp_mapper m) = r0 # rs" for r0 rs
    using that unfolding fold_max_Max by (intro Max_eqI) force+
  define m' where "m' = m\<lparr>mp_column := c\<rparr>"
  have "mp_mapper m \<noteq> []" using \<open>(e, r) \<in> set (mp_mapper m)\<close> by auto
  then have run: "Map_check_ticks m now = Some m'"
    using max c(1) by (auto simp: Map_check_ticks_def m'_def neq_Nil_conv)
  have "map_struct m'" "map_water w m'"
    using s w c(2,3) by (auto simp: map_struct_def map_water_def Map_capacity_def m'_def simp del: not_None_eq)
  then show thesis using that [OF run] c(3) by (auto simp: map_wf_def m'_def)
qed

section \<open>Properties\<close>

text \<open>
  C17. A sparse map is a finite map from entities to cells: every sequence of additions (of absent entities, fewer
  than \<open>2 ^ 31\<close> at a time), overwrites and removals (of present ones) runs without an invalid access and gives the
  cells, ticks and dropped values of the same sequence on a finite map, and dropping the map at the end leaves
  every written value of a component with a drop function dropped exactly once.
\<close>

theorem sparse_map_refines_finite_map:
  assumes "run (map_spec (ci_dropper info)) ops Map.empty = Some (d, a)"
  shows "\<exists>m d'. run map_step ops (Map_new i c info) = Some (d, m) \<and> Map_abs m = a \<and> Map_drop m = Some d' \<and>
    (ci_dropper info \<longrightarrow> mset d + mset d' = mset (concat (map op_value ops)))"
proof -
  obtain m where m: "run map_step ops (Map_new i c info) = Some (d, m)" "map_wf m" "col_dropper (mp_column m) = ci_dropper info" "Map_abs m = a"
  proof -
    have "map_wf (Map_new i c info) \<and> col_dropper (mp_column (Map_new i c info)) = ci_dropper info"
      "run (map_spec (ci_dropper info)) ops (Map_abs (Map_new i c info)) = Some (d, a)"
      by (simp_all add: Map_new_wf assms)
    from sparse.run_sim [OF this] that show thesis by blast
  qed
  obtain d' where d': "Map_drop m = Some d'" "mset d' = (if ci_dropper info then held a else {#})"
    using Map_drop_held [OF m(2)] m(3,4) by metis
  have "mset d + mset d' = mset (concat (map op_value ops))" if "ci_dropper info"
    using map_run_balance [of ops Map.empty d a] assms that d'(2) by (simp add: ac_simps)
  then show ?thesis using m d' by blast
qed

theorem sparse_map_refines_finite_map_witness:
  "\<exists>m d'. run map_step [Put (Entity (EntityId 1) (EntityTag 0)) (7 :: nat) (Tick 3), Delete (Entity (EntityId 1) (EntityTag 0))]
      (Map_new 0 5 \<lparr>ci_storage = Sparse, ci_dropper = True\<rparr>) = Some ([7], m) \<and> Map_abs m = Map.empty \<and>
    Map_drop m = Some d' \<and> mset [7] + mset d' = mset [7]"
proof -
  let ?info = "\<lparr>ci_storage = Sparse, ci_dropper = True\<rparr>"
  let ?ops = "[Put (Entity (EntityId 1) (EntityTag 0)) (7 :: nat) (Tick 3), Delete (Entity (EntityId 1) (EntityTag 0))]"
  have ops: "run (map_spec (ci_dropper ?info)) ?ops Map.empty = Some ([7], Map.empty)" by simp
  have "concat (map op_value ?ops) = [7]" "ci_dropper ?info = True" by simp_all
  then show ?thesis using sparse_map_refines_finite_map [OF ops, of 0 5] by (simp only: simp_thms)
qed

text \<open>
  C18. Tick maintenance of a sparse map never reads an uninitialised tick, because free rows are reused smallest
  first; it clamps every cell except the one in the highest occupied row, whose ticks it leaves as they are: the
  code passes the highest row where the column expects a length.
\<close>

theorem map_check_ticks_skips_highest_row:
  assumes "map_wf m" "Map_get_map_row m e = Some r" "\<forall>e' r'. Map_get_map_row m e' = Some r' \<longrightarrow> r' \<le> r"
  shows "\<exists>m'. Map_check_ticks m now = Some m' \<and> map_wf m' \<and>
    Map_abs m' = (\<lambda>e'. if e' = e then Map_abs m e else map_option (clamp_cell now) (Map_abs m e'))"
proof -
  obtain m' where m': "Map_check_ticks m now = Some m'" "map_wf m'" "Map_get_map_row m' = Map_get_map_row m"
    "\<And>j. Column_cell (mp_column m') j = (if j < r then map_option (clamp_cell now) (Column_cell (mp_column m) j) else Column_cell (mp_column m) j)"
    using Map_check_ticks_spec [OF assms, where now = now] by metis
  have s: "map_struct m" using assms(1) by (simp add: map_wf_def)
  have "Map_abs m' e' = (if e' = e then Map_abs m e else map_option (clamp_cell now) (Map_abs m e'))" for e'
  proof (cases "Map_get_map_row m e'")
    case (Some r')
    have "r' = r \<longleftrightarrow> e' = e" using map_rows_inj [OF s assms(2), of e'] Some assms(2) by auto
    then show ?thesis using m'(3,4) assms(2) assms(3) [rule_format, OF Some] Some by (auto simp: Map_abs_def)
  qed (auto simp: Map_abs_def m'(3) assms(2))
  then show ?thesis using m'(1,2) by (intro exI [of _ m']) (simp add: fun_eq_iff)
qed

theorem map_check_ticks_skips_highest_row_witness:
  "\<exists>m m'. Map_abs m (Entity (EntityId 1) (EntityTag 0)) = Some (7 :: nat, Tick 3, Tick 3) \<and>
    Map_check_ticks m (Tick 4000000000) = Some m' \<and>
    Map_abs m' (Entity (EntityId 1) (EntityTag 0)) = Some (7, Tick 3, Tick 3)"
proof -
  let ?e = "Entity (EntityId 1) (EntityTag 0)"
  obtain m where m: "map_wf m" "Map_abs m = [?e \<mapsto> (7 :: nat, Tick 3, Tick 3)]"
  proof -
    let ?m = "Map_new 0 5 \<lparr>ci_storage = Sparse, ci_dropper = True\<rparr> :: nat Map"
    have "Map_abs ?m ?e = None" "card (dom (Map_abs ?m)) < 2 ^ 31" by (simp_all add: Map_new_wf)
    from map_put_sim [OF Map_new_wf(1) this, of 7 "Tick 3"] that show thesis by (auto simp: Map_new_wf)
  qed
  then obtain r where r: "Map_get_map_row m ?e = Some r" using map_abs_Some [OF m(1), of ?e] by auto
  have "r' \<le> r" if "Map_get_map_row m e' = Some r'" for e' r'
    using map_wf_abs_iff [OF m(1), of e'] m(2) that r by (cases "e' = ?e") auto
  then show ?thesis using map_check_ticks_skips_highest_row [OF m(1) r, of "Tick 4000000000"] m(2)
    by - (rule exI [of _ m], auto)
qed

end
