(* ===== verification/ResourceStore.thy ===== *)
theory ResourceStore
  imports Ticks Simulation "HOL-Library.AList"
begin

text \<open>
  Resources: the registry of resource types (\<open>resource/resources.rs\<close>), the storage of their values
  (\<open>storage/global/\<close>) and the methods of the world on them (\<open>world/methods/resource.rs\<close>), all under
  \<open>crates/voker-ecs/src\<close>. A resource type is a natural number with a flag that says whether its values have a drop
  function. Calls of drop functions are collected in lists, as for components.
\<close>

section \<open>ResourceData\<close>

type_synonym TypeId = nat

record ResourceInfo =
  ri_id :: ResourceId
  ri_dropper :: bool

record 'v ResourceData =
  rd_id :: ResourceId
  rd_dropper :: bool
  rd_data :: "'v option"
  rd_added :: Tick
  rd_changed :: Tick

definition ResourceData_new :: "ResourceInfo \<Rightarrow> 'v ResourceData" where
  "ResourceData_new info =
     \<lparr>rd_id = ri_id info, rd_dropper = ri_dropper info, rd_data = None, rd_added = Tick 0, rd_changed = Tick 0\<rparr>"

definition ResourceData_insert_untyped :: "'v ResourceData \<Rightarrow> 'v \<Rightarrow> Tick \<Rightarrow> 'v list \<times> 'v ResourceData" where
  "ResourceData_insert_untyped r v tick =
     (let (dropped, r) =
        (case rd_data r of
           Some old \<Rightarrow> (if rd_dropper r then [old] else [], r)
         | None \<Rightarrow> ([], r\<lparr>rd_added := tick\<rparr>))
      in (dropped, r\<lparr>rd_changed := tick, rd_data := Some v\<rparr>))"

definition ResourceData_check_ticks :: "'v ResourceData \<Rightarrow> Tick \<Rightarrow> 'v ResourceData" where
  "ResourceData_check_ticks r now =
     r\<lparr>rd_added := Tick_check_tick (rd_added r) now, rd_changed := Tick_check_tick (rd_changed r) now\<rparr>"

definition ResourceData_is_active :: "'v ResourceData \<Rightarrow> bool" where
  "ResourceData_is_active r \<longleftrightarrow> rd_data r \<noteq> None"

definition ResourceData_get_added :: "'v ResourceData \<Rightarrow> Tick option" where
  "ResourceData_get_added r = (if ResourceData_is_active r then Some (rd_added r) else None)"

definition ResourceData_get_changed :: "'v ResourceData \<Rightarrow> Tick option" where
  "ResourceData_get_changed r = (if ResourceData_is_active r then Some (rd_changed r) else None)"

definition ResourceData_clear :: "'v ResourceData \<Rightarrow> 'v list \<times> 'v ResourceData" where
  "ResourceData_clear r =
     (case rd_data r of
        Some v \<Rightarrow> (if rd_dropper r then [v] else [], r\<lparr>rd_data := None\<rparr>)
      | None \<Rightarrow> ([], r))"

definition ResourceData_leak :: "'v ResourceData \<Rightarrow> ('v \<times> Tick \<times> Tick) option \<times> 'v ResourceData" where
  "ResourceData_leak r = (map_option (\<lambda>ptr. (ptr, rd_added r, rd_changed r)) (rd_data r), r\<lparr>rd_data := None\<rparr>)"

definition ResourceData_from_raw :: "'v ResourceData \<Rightarrow> 'v \<Rightarrow> Tick \<Rightarrow> Tick \<Rightarrow> 'v list \<times> 'v ResourceData" where
  "ResourceData_from_raw r ptr added changed =
     (let (dropped, r) = ResourceData_clear r
      in (dropped, r\<lparr>rd_added := added, rd_changed := changed, rd_data := Some ptr\<rparr>))"

definition ResourceData_remove :: "'v ResourceData \<Rightarrow> 'v option \<times> 'v ResourceData" where
  "ResourceData_remove r =
     (case rd_data r of None \<Rightarrow> (None, r) | Some ret \<Rightarrow> (Some ret, r\<lparr>rd_data := None\<rparr>))"

section \<open>ResourceStorage\<close>

record 'v ResourceStorage =
  rs_data :: "'v ResourceData option list"

definition ResourceStorage_new :: "'v ResourceStorage" where
  "ResourceStorage_new = \<lparr>rs_data = []\<rparr>"

definition ResourceStorage_check_ticks :: "'v ResourceStorage \<Rightarrow> Tick \<Rightarrow> 'v ResourceStorage" where
  "ResourceStorage_check_ticks s now = s\<lparr>rs_data := map (map_option (\<lambda>r. ResourceData_check_ticks r now)) (rs_data s)\<rparr>"

definition ResourceStorage_get :: "'v ResourceStorage \<Rightarrow> ResourceId \<Rightarrow> 'v ResourceData option" where
  "ResourceStorage_get s i = (if i < length (rs_data s) then rs_data s ! i else None)"

text \<open>Writing back through \<open>get_mut\<close>.\<close>

definition ResourceStorage_put :: "'v ResourceStorage \<Rightarrow> ResourceId \<Rightarrow> 'v ResourceData \<Rightarrow> 'v ResourceStorage" where
  "ResourceStorage_put s i r = s\<lparr>rs_data := (rs_data s)[i := Some r]\<rparr>"

text \<open>The vector is always resized to its capacity, so that its length is its capacity.\<close>

definition ResourceStorage_resize_data :: "'v ResourceStorage \<Rightarrow> nat \<Rightarrow> 'v ResourceStorage" where
  "ResourceStorage_resize_data s len =
     (let cap = vec_reserve (length (rs_data s)) (length (rs_data s)) (len - length (rs_data s))
      in s\<lparr>rs_data := rs_data s @ replicate (cap - length (rs_data s)) None\<rparr>)"

definition ResourceStorage_prepare :: "'v ResourceStorage \<Rightarrow> ResourceInfo \<Rightarrow> 'v ResourceStorage" where
  "ResourceStorage_prepare s info =
     (if ResourceStorage_get s (ri_id info) = None
      then let index = ri_id info;
               s = (if length (rs_data s) \<le> index then ResourceStorage_resize_data s (index + 1) else s)
           in s\<lparr>rs_data := (rs_data s)[index := Some (ResourceData_new info)]\<rparr>
      else s)"

definition ResourceStorage_len :: "'v ResourceStorage \<Rightarrow> nat" where
  "ResourceStorage_len s = length (filter (\<lambda>r. r \<noteq> None) (rs_data s))"

section \<open>Resources\<close>

record Resources =
  rsc_infos :: "ResourceInfo list"
  rsc_mapper :: "(TypeId \<times> ResourceId) list"

definition Resources_new :: Resources where
  "Resources_new = \<lparr>rsc_infos = [], rsc_mapper = []\<rparr>"

definition Resources_get_id :: "Resources \<Rightarrow> TypeId \<Rightarrow> ResourceId option" where
  "Resources_get_id rs ty = map_of (rsc_mapper rs) ty"

definition Resources_get :: "Resources \<Rightarrow> ResourceId \<Rightarrow> ResourceInfo option" where
  "Resources_get rs i = (if i < length (rsc_infos rs) then Some (rsc_infos rs ! i) else None)"

text \<open>
  \<open>dropper\<close> is the type's constant \<open>T::DROPPER\<close>. The panic of \<open>ResourceId::new\<close> at the \<open>2 ^ 32\<close>-th type is left out: ids are
  given once per Rust type of the program.
\<close>

definition Resources_register :: "Resources \<Rightarrow> TypeId \<Rightarrow> bool \<Rightarrow> ResourceId \<times> Resources" where
  "Resources_register rs ty dropper =
     (case Resources_get_id rs ty of
        Some i \<Rightarrow> (i, rs)
      | None \<Rightarrow>
          let i = length (rsc_infos rs)
          in (i, \<lparr>rsc_infos = rsc_infos rs @ [\<lparr>ri_id = i, ri_dropper = dropper\<rparr>],
                  rsc_mapper = AList.update ty i (rsc_mapper rs)\<rparr>))"

section \<open>Resource methods of the world\<close>

record 'v rworld =
  rw_resources :: Resources
  rw_storage :: "'v ResourceStorage"
  rw_this_run :: Tick
  rw_last_run :: Tick

record 'v ResMut =
  rm_value :: 'v
  rm_added :: Tick
  rm_changed :: Tick
  rm_last_run :: Tick
  rm_this_run :: Tick

definition ResMut_is_changed :: "'v ResMut \<Rightarrow> bool" where
  "ResMut_is_changed m \<longleftrightarrow> Tick_is_newer_than (rm_changed m) (rm_last_run m) (rm_this_run m)"

definition ResMut_is_added :: "'v ResMut \<Rightarrow> bool" where
  "ResMut_is_added m \<longleftrightarrow> Tick_is_newer_than (rm_added m) (rm_last_run m) (rm_this_run m)"

text \<open>A write through \<open>deref_mut\<close>.\<close>

definition ResMut_deref_mut :: "('v \<Rightarrow> 'v) \<Rightarrow> 'v ResMut \<Rightarrow> 'v ResMut" where
  "ResMut_deref_mut f m = m\<lparr>rm_changed := rm_this_run m, rm_value := f (rm_value m)\<rparr>"

definition World_prepare_resource :: "'v rworld \<Rightarrow> ResourceId \<Rightarrow> 'v rworld" where
  "World_prepare_resource w i =
     (case Resources_get (rw_resources w) i of
        Some info \<Rightarrow> w\<lparr>rw_storage := ResourceStorage_prepare (rw_storage w) info\<rparr>
      | None \<Rightarrow> w)"

definition World_insert_internal :: "'v rworld \<Rightarrow> 'v \<Rightarrow> ResourceId \<Rightarrow> ('v list \<times> 'v rworld) outcome" where
  "World_insert_internal w v i =
     (let w = World_prepare_resource w i; tick = rw_this_run w
      in case ResourceStorage_get (rw_storage w) i of
           None \<Rightarrow> Undef
         | Some r \<Rightarrow> let (dropped, r) = ResourceData_insert_untyped r v tick
                    in Done (dropped, w\<lparr>rw_storage := ResourceStorage_put (rw_storage w) i r\<rparr>))"

definition World_insert_resource :: "'v rworld \<Rightarrow> TypeId \<Rightarrow> bool \<Rightarrow> 'v \<Rightarrow> ('v list \<times> 'v rworld) outcome" where
  "World_insert_resource w ty dropper v =
     (let (i, rs) = Resources_register (rw_resources w) ty dropper
      in World_insert_internal (w\<lparr>rw_resources := rs\<rparr>) v i)"

text \<open>The slot that \<open>resources.get_id(TypeId)\<close> and \<open>storages.resources.get(id)\<close> lead to.\<close>

definition World_resource_data :: "'v rworld \<Rightarrow> TypeId \<Rightarrow> (ResourceId \<times> 'v ResourceData) option" where
  "World_resource_data w ty =
     (case Resources_get_id (rw_resources w) ty of
        None \<Rightarrow> None
      | Some i \<Rightarrow> map_option (Pair i) (ResourceStorage_get (rw_storage w) i))"

definition World_contains_resource :: "'v rworld \<Rightarrow> TypeId \<Rightarrow> bool" where
  "World_contains_resource w ty =
     (case World_resource_data w ty of Some (_, r) \<Rightarrow> ResourceData_is_active r | None \<Rightarrow> False)"

definition World_remove_resource :: "'v rworld \<Rightarrow> TypeId \<Rightarrow> 'v option \<times> 'v rworld" where
  "World_remove_resource w ty =
     (case World_resource_data w ty of
        Some (i, r) \<Rightarrow> let (ret, r) = ResourceData_remove r
                       in (ret, w\<lparr>rw_storage := ResourceStorage_put (rw_storage w) i r\<rparr>)
      | None \<Rightarrow> (None, w))"

definition World_drop_resource :: "'v rworld \<Rightarrow> TypeId \<Rightarrow> 'v list \<times> 'v rworld" where
  "World_drop_resource w ty =
     (case World_resource_data w ty of
        Some (i, r) \<Rightarrow> let (dropped, r) = ResourceData_clear r
                       in (dropped, w\<lparr>rw_storage := ResourceStorage_put (rw_storage w) i r\<rparr>)
      | None \<Rightarrow> ([], w))"

definition World_get_resource :: "'v rworld \<Rightarrow> TypeId \<Rightarrow> 'v option" where
  "World_get_resource w ty = (case World_resource_data w ty of Some (_, r) \<Rightarrow> rd_data r | None \<Rightarrow> None)"

text \<open>\<open>get_resource_ref\<close> and \<open>get_resource_mut\<close> hand out the value with its ticks.\<close>

definition World_get_resource_mut :: "'v rworld \<Rightarrow> TypeId \<Rightarrow> 'v ResMut option" where
  "World_get_resource_mut w ty =
     (case World_resource_data w ty of
        Some (_, r) \<Rightarrow> map_option (\<lambda>v. \<lparr>rm_value = v, rm_added = rd_added r, rm_changed = rd_changed r,
                                           rm_last_run = rw_last_run w, rm_this_run = rw_this_run w\<rparr>) (rd_data r)
      | None \<Rightarrow> None)"

text \<open>A write through the reference that \<open>get_resource_mut\<close> returned ends up in the slot, ticks included.\<close>

definition World_write_resource :: "'v rworld \<Rightarrow> TypeId \<Rightarrow> ('v \<Rightarrow> 'v) \<Rightarrow> 'v rworld option" where
  "World_write_resource w ty f =
     (case (World_resource_data w ty, World_get_resource_mut w ty) of
        (Some (i, r), Some m) \<Rightarrow>
          let m = ResMut_deref_mut f m
          in Some (w\<lparr>rw_storage := ResourceStorage_put (rw_storage w) i
                 (r\<lparr>rd_data := Some (rm_value m), rd_added := rm_added m, rd_changed := rm_changed m\<rparr>)\<rparr>)
      | _ \<Rightarrow> None)"

definition World_init_resource :: "'v rworld \<Rightarrow> TypeId \<Rightarrow> bool \<Rightarrow> ('v rworld \<Rightarrow> 'v \<times> 'v rworld) \<Rightarrow> ('v list \<times> 'v rworld) outcome" where
  "World_init_resource w ty dropper from_world =
     (if World_contains_resource w ty then Done ([], w)
      else let (v, w) = from_world w in World_insert_resource w ty dropper v)"

text \<open>
  \<open>ReinsertGuard::drop\<close>: the ticks are those copied into the guard, the value is what the pointer points to at that
  moment. A missing slot makes \<open>unwrap\<close> panic.
\<close>

definition ReinsertGuard_drop :: "'v rworld \<Rightarrow> ResourceId \<Rightarrow> 'v \<Rightarrow> Tick \<Rightarrow> Tick \<Rightarrow> ('v list \<times> 'v rworld) outcome" where
  "ReinsertGuard_drop w i ptr added changed =
     (case ResourceStorage_get (rw_storage w) i of
        None \<Rightarrow> Panic
      | Some r \<Rightarrow>
          let (d1, r) = (if ResourceData_is_active r then ResourceData_clear r else ([], r));
              (d2, r) = ResourceData_from_raw r ptr added changed
          in Done (d1 @ d2, w\<lparr>rw_storage := ResourceStorage_put (rw_storage w) i r\<rparr>))"

definition World_try_resource_scope ::
  "'v rworld \<Rightarrow> TypeId \<Rightarrow> ('v rworld \<Rightarrow> 'v ResMut \<Rightarrow> 'r \<times> 'v rworld \<times> 'v ResMut) \<Rightarrow> ('r option \<times> 'v list \<times> 'v rworld) outcome" where
  "World_try_resource_scope w ty func =
     (case World_resource_data w ty of
        None \<Rightarrow> Done (None, [], w)
      | Some (i, r) \<Rightarrow>
          (case ResourceData_leak r of
             (None, r) \<Rightarrow> Done (None, [], w\<lparr>rw_storage := ResourceStorage_put (rw_storage w) i r\<rparr>)
           | (Some (ptr, added, changed), r) \<Rightarrow>
               let res_mut = \<lparr>rm_value = ptr, rm_added = added, rm_changed = changed,
                              rm_last_run = rw_last_run w, rm_this_run = rw_this_run w\<rparr>;
                   (ret, w, res_mut) = func (w\<lparr>rw_storage := ResourceStorage_put (rw_storage w) i r\<rparr>) res_mut
               in (case ReinsertGuard_drop w i (rm_value res_mut) added changed of
                     Done (dropped, w) \<Rightarrow> Done (Some ret, dropped, w)
                   | Panic \<Rightarrow> Panic
                   | Undef \<Rightarrow> Undef)))"

section \<open>Resources as a finite map\<close>

definition res_abs :: "'v rworld \<Rightarrow> TypeId \<Rightarrow> ('v \<times> Tick \<times> Tick) option" where
  "res_abs w ty =
     (case World_resource_data w ty of
        Some (_, r) \<Rightarrow> map_option (\<lambda>v. (v, rd_added r, rd_changed r)) (rd_data r)
      | None \<Rightarrow> None)"

text \<open>\<open>dp\<close> gives the drop flag of each type.\<close>

definition registry_ok :: "(TypeId \<Rightarrow> bool) \<Rightarrow> Resources \<Rightarrow> bool" where
  "registry_ok dp rs \<longleftrightarrow>
     (\<forall>i < length (rsc_infos rs). ri_id (rsc_infos rs ! i) = i) \<and>
     (\<forall>ty i. Resources_get_id rs ty = Some i \<longrightarrow> i < length (rsc_infos rs) \<and> ri_dropper (rsc_infos rs ! i) = dp ty) \<and>
     (\<forall>ty ty' i. Resources_get_id rs ty = Some i \<longrightarrow> Resources_get_id rs ty' = Some i \<longrightarrow> ty = ty')"

definition res_inv :: "(TypeId \<Rightarrow> bool) \<Rightarrow> 'v rworld \<Rightarrow> bool" where
  "res_inv dp w \<longleftrightarrow> registry_ok dp (rw_resources w) \<and>
     (\<forall>i r. ResourceStorage_get (rw_storage w) i = Some r \<longrightarrow>
        i < length (rsc_infos (rw_resources w)) \<and> rd_dropper r = ri_dropper (rsc_infos (rw_resources w) ! i))"

lemma storage_get_update:
  "i < length (rs_data s) \<Longrightarrow>
   ResourceStorage_get (s\<lparr>rs_data := (rs_data s)[i := x]\<rparr>) j = (if j = i then x else ResourceStorage_get s j)"
  by (auto simp: ResourceStorage_get_def)

lemma storage_get_put:
  "ResourceStorage_get s i \<noteq> None \<Longrightarrow>
   ResourceStorage_get (ResourceStorage_put s i r) j = (if j = i then Some r else ResourceStorage_get s j)"
  by (auto simp: ResourceStorage_get_def ResourceStorage_put_def split: if_splits)

lemma res_dropper:
  "res_inv dp w \<Longrightarrow> World_resource_data w ty = Some (i, r) \<Longrightarrow> rd_dropper r = dp ty"
  by (auto simp: res_inv_def registry_ok_def World_resource_data_def split: option.splits)

lemma res_put:
  assumes inv: "res_inv dp w" and d: "World_resource_data w ty = Some (i, r)" and dr: "rd_dropper r' = rd_dropper r"
    and w': "w' = w\<lparr>rw_storage := ResourceStorage_put (rw_storage w) i r'\<rparr>"
  shows "res_inv dp w'" "World_resource_data w' = (World_resource_data w)(ty \<mapsto> (i, r'))"
    "res_abs w' = (res_abs w)(ty := map_option (\<lambda>v. (v, rd_added r', rd_changed r')) (rd_data r'))"
proof -
  have i: "Resources_get_id (rw_resources w) ty = Some i" "ResourceStorage_get (rw_storage w) i = Some r"
    using d by (auto simp: World_resource_data_def split: option.splits)
  have get: "ResourceStorage_get (rw_storage w') j = (if j = i then Some r' else ResourceStorage_get (rw_storage w) j)" for j
    using i(2) by (simp add: w' storage_get_put)
  show "res_inv dp w'"
    using inv i get dr unfolding res_inv_def by (auto simp: w' split: if_splits)
  have inj: "ty' = ty" if "Resources_get_id (rw_resources w) ty' = Some i" for ty'
    using inv i(1) that by (auto simp: res_inv_def registry_ok_def)
  show data: "World_resource_data w' = (World_resource_data w)(ty \<mapsto> (i, r'))"
  proof
    fix ty'
    show "World_resource_data w' ty' = ((World_resource_data w)(ty \<mapsto> (i, r'))) ty'"
    proof (cases "Resources_get_id (rw_resources w) ty'")
      case (Some j)
      then have "World_resource_data w' ty' = map_option (Pair j) (ResourceStorage_get (rw_storage w') j)"
        "World_resource_data w ty' = map_option (Pair j) (ResourceStorage_get (rw_storage w) j)"
        by (simp_all add: World_resource_data_def w')
      moreover have "ty' = ty \<longleftrightarrow> j = i" using inj [of ty'] i(1) Some by auto
      ultimately show ?thesis unfolding get by simp
    qed (use i(1) in \<open>auto simp: World_resource_data_def w'\<close>)
  qed
  show "res_abs w' = (res_abs w)(ty := map_option (\<lambda>v. (v, rd_added r', rd_changed r')) (rd_data r'))"
    unfolding res_abs_def data by auto
qed

lemma res_register:
  assumes inv: "res_inv dp w" and reg: "Resources_register (rw_resources w) ty (dp ty) = (i, rs)"
    and w': "w' = w\<lparr>rw_resources := rs\<rparr>"
  shows "res_inv dp w'" "Resources_get_id rs ty = Some i" "World_resource_data w' = World_resource_data w"
proof -
  let ?rs = "rw_resources w"
  have none: "World_resource_data w ty = None \<and> ResourceStorage_get (rw_storage w) (length (rsc_infos ?rs)) = None"
    if "Resources_get_id ?rs ty = None"
    using that inv by (cases "ResourceStorage_get (rw_storage w) (length (rsc_infos ?rs))")
      (auto simp: World_resource_data_def res_inv_def)
  have upd: "Resources_get_id rs = (Resources_get_id ?rs)(ty \<mapsto> i)"
    using reg by (auto simp: Resources_register_def Let_def Resources_get_id_def update_conv' fun_eq_iff split: option.splits)
  then show "Resources_get_id rs ty = Some i" by simp
  show "World_resource_data w' = World_resource_data w"
  proof (cases "Resources_get_id ?rs ty")
    case None
    then have "i = length (rsc_infos ?rs)" using reg by (auto simp: Resources_register_def Let_def)
    then show ?thesis using none [OF None] None unfolding World_resource_data_def fun_eq_iff w'
      by (auto simp: upd split: option.splits)
  next
    case (Some j)
    then show ?thesis using reg by (auto simp: Resources_register_def w')
  qed
  show "res_inv dp w'"
  proof (cases "Resources_get_id ?rs ty")
    case None
    then have i: "i = length (rsc_infos ?rs)" "rsc_infos rs = rsc_infos ?rs @ [\<lparr>ri_id = i, ri_dropper = dp ty\<rparr>]"
      using reg by (auto simp: Resources_register_def Let_def)
    have "registry_ok dp rs"
      using inv i unfolding res_inv_def registry_ok_def upd
      by (auto simp: nth_append less_Suc_eq split: if_splits)
    then show ?thesis using inv i by (auto simp: res_inv_def w' nth_append intro: less_SucI)
  next
    case (Some j)
    then show ?thesis using reg inv by (auto simp: Resources_register_def w')
  qed
qed

lemma storage_prepare:
  assumes "s' = ResourceStorage_prepare s info"
  shows "ResourceStorage_get s' j =
    (if j = ri_id info then Some (case ResourceStorage_get s j of None \<Rightarrow> ResourceData_new info | Some r \<Rightarrow> r)
     else ResourceStorage_get s j)"
proof (cases "ResourceStorage_get s (ri_id info)")
  case None
  define s1 where "s1 = (if length (rs_data s) \<le> ri_id info then ResourceStorage_resize_data s (ri_id info + 1) else s)"
  have "ri_id info < length (rs_data s1)"
    using vec_reserve_room [of "length (rs_data s)" "length (rs_data s)" "ri_id info + 1 - length (rs_data s)"]
    by (auto simp: s1_def ResourceStorage_resize_data_def Let_def)
  moreover have "ResourceStorage_get s1 k = ResourceStorage_get s k" for k
    by (auto simp: s1_def ResourceStorage_resize_data_def ResourceStorage_get_def Let_def nth_append)
  moreover have "s' = s1\<lparr>rs_data := (rs_data s1)[ri_id info := Some (ResourceData_new info)]\<rparr>"
    using None by (simp add: assms ResourceStorage_prepare_def s1_def Let_def)
  ultimately show ?thesis using None by (simp add: storage_get_update)
qed (use assms in \<open>auto simp: ResourceStorage_prepare_def\<close>)

lemma res_prepare:
  assumes inv: "res_inv dp w" and i: "Resources_get_id (rw_resources w) ty = Some i"
  obtains r where "World_resource_data (World_prepare_resource w i) ty = Some (i, r)" "res_inv dp (World_prepare_resource w i)"
    "res_abs (World_prepare_resource w i) = res_abs w" "rw_this_run (World_prepare_resource w i) = rw_this_run w"
proof -
  let ?info = "rsc_infos (rw_resources w) ! i" let ?w = "World_prepare_resource w i"
  have info: "i < length (rsc_infos (rw_resources w))" "ri_id ?info = i"
    using inv i by (auto simp: res_inv_def registry_ok_def)
  then have w': "?w = w\<lparr>rw_storage := ResourceStorage_prepare (rw_storage w) ?info\<rparr>"
    by (simp add: World_prepare_resource_def Resources_get_def)
  have get: "ResourceStorage_get (rw_storage ?w) j =
      (if j = i then Some (case ResourceStorage_get (rw_storage w) j of None \<Rightarrow> ResourceData_new ?info | Some r \<Rightarrow> r)
       else ResourceStorage_get (rw_storage w) j)" for j
    unfolding w' using storage_prepare [OF refl, of "rw_storage w" ?info j] info(2) by simp
  have "res_inv dp ?w"
    using inv info get unfolding res_inv_def by (auto simp: w' ResourceData_new_def split: if_splits option.splits)
  moreover have "res_abs ?w ty' = res_abs w ty'" for ty'
    using get unfolding res_abs_def World_resource_data_def
    by (auto simp: w' ResourceData_new_def split: option.splits if_splits)
  moreover have "\<exists>r. World_resource_data ?w ty = Some (i, r)"
    using get i by (auto simp: World_resource_data_def w')
  moreover have "rw_this_run ?w = rw_this_run w" by (simp add: w')
  ultimately show thesis using that by blast
qed

lemma insert_resource_spec:
  assumes inv: "res_inv dp w"
  shows "\<exists>w'. World_insert_resource w ty (dp ty) v =
      Done (case res_abs w ty of Some (old, _, _) \<Rightarrow> if dp ty then [old] else [] | None \<Rightarrow> [], w') \<and>
    res_inv dp w' \<and> rw_this_run w' = rw_this_run w \<and>
    res_abs w' = (res_abs w)(ty \<mapsto> (v, case res_abs w ty of Some (_, added, _) \<Rightarrow> added | None \<Rightarrow> rw_this_run w, rw_this_run w))"
proof -
  obtain i rs where reg: "Resources_register (rw_resources w) ty (dp ty) = (i, rs)" by fastforce
  define w1 where "w1 = w\<lparr>rw_resources := rs\<rparr>"
  note r = res_register [OF inv reg w1_def]
  have w1: "res_inv dp w1" "Resources_get_id (rw_resources w1) ty = Some i" "res_abs w1 = res_abs w" "rw_this_run w1 = rw_this_run w"
    using r by (auto simp: w1_def res_abs_def fun_eq_iff)
  define w2 where "w2 = World_prepare_resource w1 i"
  obtain r where w2: "World_resource_data w2 ty = Some (i, r)" "res_inv dp w2" "res_abs w2 = res_abs w" "rw_this_run w2 = rw_this_run w"
    using res_prepare [OF w1(1,2)] w1(3,4) unfolding w2_def by metis
  obtain d r' where r': "ResourceData_insert_untyped r v (rw_this_run w) = (d, r')" by fastforce
  have dr: "rd_dropper r' = rd_dropper r" "rd_data r' = Some v" "rd_changed r' = rw_this_run w"
    "rd_added r' = (case rd_data r of Some _ \<Rightarrow> rd_added r | None \<Rightarrow> rw_this_run w)"
    "d = (case rd_data r of Some old \<Rightarrow> if rd_dropper r then [old] else [] | None \<Rightarrow> [])"
    using r' by (auto simp: ResourceData_insert_untyped_def split: option.splits)
  define w3 where "w3 = w2\<lparr>rw_storage := ResourceStorage_put (rw_storage w2) i r'\<rparr>"
  note p = res_put [OF w2(2,1) dr(1) w3_def]
  have abs: "res_abs w ty = map_option (\<lambda>v. (v, rd_added r, rd_changed r)) (rd_data r)"
    unfolding w2(3) [symmetric] by (simp add: res_abs_def w2(1))
  have "ResourceStorage_get (rw_storage w2) i = Some r"
    using w2(1) by (auto simp: World_resource_data_def split: option.splits)
  then have "World_insert_resource w ty (dp ty) v = Done (d, w3)"
    using reg r' w2(4) by (simp add: World_insert_resource_def World_insert_internal_def w3_def Let_def flip: w1_def w2_def)
  moreover have "rw_this_run w3 = rw_this_run w" using w2(4) by (simp add: w3_def)
  ultimately show ?thesis
    using p(1,3) dr(2-5) abs res_dropper [OF w2(2,1)] w2(3) by (auto split: option.splits)
qed

datatype 'v res_op = Res_insert TypeId 'v | Res_remove TypeId | Res_drop TypeId | Res_check Tick

datatype 'v res_out = Dropped (out_value: 'v) | Returned (out_value: 'v)

fun res_step :: "(TypeId \<Rightarrow> bool) \<Rightarrow> 'v res_op \<Rightarrow> 'v rworld \<Rightarrow> ('v res_out list \<times> 'v rworld) option" where
  "res_step dp (Res_insert ty v) w =
     (case World_insert_resource w ty (dp ty) v of Done (d, w') \<Rightarrow> Some (map Dropped d, w') | _ \<Rightarrow> None)"
| "res_step dp (Res_remove ty) w =
     (case World_remove_resource w ty of (ret, w') \<Rightarrow> Some (case ret of Some v \<Rightarrow> [Returned v] | None \<Rightarrow> [], w'))"
| "res_step dp (Res_drop ty) w = (case World_drop_resource w ty of (d, w') \<Rightarrow> Some (map Dropped d, w'))"
| "res_step dp (Res_check now) w = Some ([], w\<lparr>rw_storage := ResourceStorage_check_ticks (rw_storage w) now\<rparr>)"

fun res_spec :: "(TypeId \<Rightarrow> bool) \<Rightarrow> Tick \<Rightarrow> 'v res_op \<Rightarrow> (TypeId \<Rightarrow> ('v \<times> Tick \<times> Tick) option)
    \<Rightarrow> ('v res_out list \<times> (TypeId \<Rightarrow> ('v \<times> Tick \<times> Tick) option)) option" where
  "res_spec dp tick (Res_insert ty v) a =
     Some (case a ty of
             None \<Rightarrow> ([], a(ty \<mapsto> (v, tick, tick)))
           | Some (old, added, _) \<Rightarrow> (if dp ty then [Dropped old] else [], a(ty \<mapsto> (v, added, tick))))"
| "res_spec dp tick (Res_remove ty) a =
     Some (case a ty of None \<Rightarrow> ([], a) | Some (old, _) \<Rightarrow> ([Returned old], a(ty := None)))"
| "res_spec dp tick (Res_drop ty) a =
     Some (case a ty of None \<Rightarrow> ([], a) | Some (old, _) \<Rightarrow> (if dp ty then [Dropped old] else [], a(ty := None)))"
| "res_spec dp tick (Res_check now) a =
     Some ([], \<lambda>ty. map_option (\<lambda>(v, added, changed). (v, Tick_check_tick added now, Tick_check_tick changed now)) (a ty))"

lemma res_abs_data: "World_resource_data w ty = Some (i, r) \<Longrightarrow> res_abs w ty = map_option (\<lambda>v. (v, rd_added r, rd_changed r)) (rd_data r)"
  by (simp add: res_abs_def)

lemma res_check_spec:
  assumes "res_inv dp w" "w' = w\<lparr>rw_storage := ResourceStorage_check_ticks (rw_storage w) now\<rparr>"
  shows "res_inv dp w'"
    "res_abs w' = (\<lambda>ty. map_option (\<lambda>(v, added, changed). (v, Tick_check_tick added now, Tick_check_tick changed now)) (res_abs w ty))"
proof -
  have get: "ResourceStorage_get (rw_storage w') i = map_option (\<lambda>r. ResourceData_check_ticks r now) (ResourceStorage_get (rw_storage w) i)" for i
    by (simp add: assms(2) ResourceStorage_get_def ResourceStorage_check_ticks_def)
  have rs: "rw_resources w' = rw_resources w" by (simp add: assms(2))
  show "res_inv dp w'" using assms(1) get rs by (auto simp: res_inv_def ResourceData_check_ticks_def)
  have data: "World_resource_data w' ty = map_option (map_prod id (\<lambda>r. ResourceData_check_ticks r now)) (World_resource_data w ty)" for ty
    by (auto simp: World_resource_data_def rs get option.map_comp comp_def split: option.splits)
  show "res_abs w' = (\<lambda>ty. map_option (\<lambda>(v, added, changed). (v, Tick_check_tick added now, Tick_check_tick changed now)) (res_abs w ty))"
    by (rule ext) (auto simp: res_abs_def data ResourceData_check_ticks_def option.map_comp comp_def split: option.splits)
qed

lemma res_remove_spec:
  assumes inv: "res_inv dp w" and rem: "World_remove_resource w ty = (ret, w')"
  shows "res_inv dp w' \<and> rw_this_run w' = rw_this_run w \<and> ret = map_option fst (res_abs w ty) \<and> res_abs w' = (res_abs w)(ty := None)"
proof (cases "World_resource_data w ty")
  case None
  then show ?thesis using inv rem by (auto simp: World_remove_resource_def res_abs_def fun_eq_iff)
next
  case (Some ir)
  then obtain i r where d: "World_resource_data w ty = Some (i, r)" by (cases ir) auto
  obtain r' where r': "ResourceData_remove r = (rd_data r, r')" "rd_dropper r' = rd_dropper r" "rd_data r' = None"
    by (cases "rd_data r") (auto simp: ResourceData_remove_def)
  have w': "w' = w\<lparr>rw_storage := ResourceStorage_put (rw_storage w) i r'\<rparr>" "ret = rd_data r"
    using rem d r'(1) by (auto simp: World_remove_resource_def)
  show ?thesis using res_put [OF inv d r'(2) w'(1)] res_abs_data [OF d] r'(3) w'
    by (simp add: option.map_comp comp_def option.map_ident)
qed

lemma res_drop_spec:
  assumes inv: "res_inv dp w" and drp: "World_drop_resource w ty = (d, w')"
  shows "res_inv dp w' \<and> rw_this_run w' = rw_this_run w \<and>
    d = (case res_abs w ty of Some (old, _) \<Rightarrow> if dp ty then [old] else [] | None \<Rightarrow> []) \<and> res_abs w' = (res_abs w)(ty := None)"
proof (cases "World_resource_data w ty")
  case None
  then show ?thesis using inv drp by (auto simp: World_drop_resource_def res_abs_def fun_eq_iff)
next
  case (Some ir)
  then obtain i r where dat: "World_resource_data w ty = Some (i, r)" by (cases ir) auto
  obtain r' where r': "ResourceData_clear r = (case rd_data r of Some v \<Rightarrow> if rd_dropper r then [v] else [] | None \<Rightarrow> [], r')"
      "rd_dropper r' = rd_dropper r" "rd_data r' = None"
    by (cases "rd_data r") (auto simp: ResourceData_clear_def)
  have w': "w' = w\<lparr>rw_storage := ResourceStorage_put (rw_storage w) i r'\<rparr>"
      "d = (case rd_data r of Some v \<Rightarrow> if rd_dropper r then [v] else [] | None \<Rightarrow> [])"
    using drp dat r'(1) by (auto simp: World_drop_resource_def)
  show ?thesis using res_put [OF inv dat r'(2) w'(1)] res_abs_data [OF dat] r'(3) w' res_dropper [OF inv dat]
    by (simp split: option.splits)
qed

interpretation resource: simulation "res_step dp" "res_spec dp tick" "\<lambda>w. res_inv dp w \<and> rw_this_run w = tick" res_abs for dp tick
proof
  fix s :: "'a rworld" and x d a
  assume s: "res_inv dp s \<and> rw_this_run s = tick" and spec: "res_spec dp tick x (res_abs s) = Some (d, a)"
  show "\<exists>s'. res_step dp x s = Some (d, s') \<and> (res_inv dp s' \<and> rw_this_run s' = tick) \<and> res_abs s' = a"
  proof (cases x)
    case (Res_insert ty v)
    then show ?thesis using insert_resource_spec [of dp s ty v] s spec by (auto split: option.splits)
  next
    case (Res_remove ty)
    obtain ret s' where rem: "World_remove_resource s ty = (ret, s')" by fastforce
    show ?thesis using res_remove_spec [OF _ rem] s spec rem Res_remove by (auto split: option.splits simp: fun_eq_iff)
  next
    case (Res_drop ty)
    obtain d' s' where drp: "World_drop_resource s ty = (d', s')" by fastforce
    show ?thesis using res_drop_spec [OF _ drp] s spec drp Res_drop by (auto split: option.splits simp: fun_eq_iff)
  next
    case (Res_check now)
    then show ?thesis using res_check_spec [OF _ refl, of dp s now] s spec by auto
  qed
qed

definition rworld_new :: "Tick \<Rightarrow> Tick \<Rightarrow> 'v rworld" where
  "rworld_new this_run last_run =
     \<lparr>rw_resources = Resources_new, rw_storage = ResourceStorage_new, rw_this_run = this_run, rw_last_run = last_run\<rparr>"

lemma rworld_new_inv: "res_inv dp (rworld_new t l)" "res_abs (rworld_new t l) = Map.empty" "rw_this_run (rworld_new t l) = t"
  by (auto simp: rworld_new_def res_inv_def registry_ok_def Resources_new_def Resources_get_id_def ResourceStorage_new_def
      ResourceStorage_get_def res_abs_def World_resource_data_def fun_eq_iff)

fun res_value :: "'v res_op \<Rightarrow> 'v list" where
  "res_value (Res_insert ty v) = [v]"
| "res_value _ = []"

lemma held_map: "held (\<lambda>k. map_option f (a k)) = held a" if "\<And>x. fst (f x) = fst x"
proof -
  have "dom (\<lambda>k. map_option f (a k)) = dom a" by (auto simp: dom_def)
  moreover have "k \<in># mset_set (dom a) \<Longrightarrow> fst (the (map_option f (a k))) = fst (the (a k))" for k
    by (cases "finite (dom a)") (auto simp: that)
  ultimately show ?thesis unfolding held_def by (auto intro: image_mset_cong)
qed

lemma res_spec_total: "\<exists>d a'. res_spec dp tick x a = Some (d, a')"
  by (cases x) auto

lemma res_run_total: "\<exists>d a'. run (res_spec dp tick) xs a = Some (d, a')"
proof (induction xs arbitrary: a)
  case (Cons x xs)
  obtain d1 a1 where "res_spec dp tick x a = Some (d1, a1)" using res_spec_total [of dp tick x a] by blast
  then show ?case using Cons [of a1] by auto
qed simp

lemma res_spec_balance:
  assumes "res_spec (\<lambda>_. True) tick x a = Some (d, a')" "finite (dom a)"
  shows "finite (dom a') \<and> held a' + mset (map out_value d) = held a + mset (res_value x)"
proof (cases x)
  case (Res_insert ty v)
  then show ?thesis using assms held_balance [OF assms(2), of ty "Some (v, tick, tick)"]
      held_balance [OF assms(2), of ty "Some (v, fst (snd (the (a ty))), tick)"]
    by (cases "a ty") (auto simp: cell_value_def)
next
  case (Res_remove ty)
  then show ?thesis using assms held_balance [OF assms(2), of ty None] by (cases "a ty") (auto simp: cell_value_def)
next
  case (Res_drop ty)
  then show ?thesis using assms held_balance [OF assms(2), of ty None] by (cases "a ty") (auto simp: cell_value_def)
next
  case (Res_check now)
  then show ?thesis using assms
    held_map [of "\<lambda>(v, added, changed). (v, Tick_check_tick added now, Tick_check_tick changed now)" a]
    by (auto simp: dom_def)
qed

lemma res_run_balance:
  assumes "run (res_spec (\<lambda>_. True) tick) xs a = Some (d, a')" "finite (dom a)"
  shows "finite (dom a') \<and> held a' + mset (map out_value d) = held a + mset (concat (map res_value xs))"
proof (rule run_balance [where P = "\<lambda>a. finite (dom a)", OF _ assms])
qed (rule res_spec_balance)

section \<open>Properties\<close>

text \<open>
  C19. Resources behave as a finite map from types to a value with its added and changed tick: any sequence of
  insertions, removals, drops and tick checks on a new world is defined, drops and returns what the same sequence
  on a finite map does (an insertion over a live value keeps the added tick and drops the old value; after a removal
  it sets both ticks), and every inserted value is dropped, returned or still held exactly once.
\<close>

theorem resources_refine_finite_map:
  "\<exists>out w. run (res_step dp) ops (rworld_new tick last_run) = Some (out, w) \<and>
     run (res_spec dp tick) ops Map.empty = Some (out, res_abs w) \<and>
     ((\<forall>ty. dp ty) \<longrightarrow> mset (map out_value out) + held (res_abs w) = mset (concat (map res_value ops)))"
proof -
  let ?w = "rworld_new tick last_run :: 'a rworld"
  obtain out a where run: "run (res_spec dp tick) ops (res_abs ?w) = Some (out, a)"
    using res_run_total [of dp tick ops "res_abs ?w"] by blast
  have inv: "res_inv dp ?w \<and> rw_this_run ?w = tick" by (simp add: rworld_new_inv)
  obtain w where w: "run (res_step dp) ops ?w = Some (out, w)" "res_abs w = a"
    using resource.run_sim [OF inv run] by blast
  have "mset (map out_value out) + held a = mset (concat (map res_value ops))" if "\<forall>ty. dp ty"
  proof -
    have "dp = (\<lambda>_. True)" using that by auto
    then show ?thesis using res_run_balance [of tick ops Map.empty out a] run
      by (simp add: rworld_new_inv ac_simps)
  qed
  then show ?thesis using run w by (auto simp: rworld_new_inv)
qed

theorem resources_refine_finite_map_witness:
  "\<exists>w. run (res_step (\<lambda>_. True)) [Res_insert 3 (10 :: nat), Res_insert 3 11, Res_remove 3] (rworld_new (Tick 5) (Tick 1)) =
     Some ([Dropped 10, Returned 11], w) \<and> res_abs w = Map.empty \<and> mset (map out_value [Dropped 10, Returned 11]) + held (res_abs w) = {#10, 11#}"
proof -
  let ?ops = "[Res_insert 3 (10 :: nat), Res_insert 3 11, Res_remove 3]"
  have "run (res_spec (\<lambda>_. True) (Tick 5)) ?ops Map.empty = Some ([Dropped 10, Returned 11], Map.empty)"
    by (simp add: fun_upd_idem)
  moreover have "mset (concat (map res_value ?ops)) = {#10, 11#}" by simp
  ultimately show ?thesis
    using resources_refine_finite_map [of "\<lambda>_. True" ?ops "Tick 5" "Tick 1"] by (auto simp del: run.simps concat.simps list.map)
qed

text \<open>
  C20. A mutation inside \<open>resource_scope\<close> escapes change detection: the value written through the closure's
  \<open>ResMut\<close> is kept, but the slot gets back the ticks copied before the closure ran, while the same write
  through \<open>get_resource_mut\<close> sets the changed tick to the current tick.
\<close>

theorem resource_scope_loses_change_tick:
  assumes inv: "res_inv dp w" and a: "res_abs w ty = Some (v, added, changed)"
  shows "\<exists>w1 w2. World_try_resource_scope w ty (\<lambda>w m. (ret, w, ResMut_deref_mut f m)) = Done (Some ret, [], w1) \<and>
      res_abs w1 = (res_abs w)(ty \<mapsto> (f v, added, changed)) \<and>
      World_write_resource w ty f = Some w2 \<and> res_abs w2 = (res_abs w)(ty \<mapsto> (f v, added, rw_this_run w))"
proof -
  obtain i r where d: "World_resource_data w ty = Some (i, r)" and r: "rd_data r = Some v" "rd_added r = added" "rd_changed r = changed"
    using a by (auto simp: res_abs_def split: option.splits)
  define ra where "ra = r\<lparr>rd_data := None\<rparr>"
  define wa where "wa = w\<lparr>rw_storage := ResourceStorage_put (rw_storage w) i ra\<rparr>"
  have dra: "rd_dropper ra = rd_dropper r" by (simp add: ra_def)
  note pa = res_put [OF inv d dra wa_def]
  have da: "World_resource_data wa ty = Some (i, ra)" using pa(2) by simp
  then have ga: "ResourceStorage_get (rw_storage wa) i = Some ra" by (auto simp: World_resource_data_def split: option.splits)
  define rb where "rb = ra\<lparr>rd_added := added, rd_changed := changed, rd_data := Some (f v)\<rparr>"
  define w1 where "w1 = wa\<lparr>rw_storage := ResourceStorage_put (rw_storage wa) i rb\<rparr>"
  have drb: "rd_dropper rb = rd_dropper ra" by (simp add: rb_def)
  note pb = res_put [OF pa(1) da drb w1_def]
  have scope: "World_try_resource_scope w ty (\<lambda>w m. (ret, w, ResMut_deref_mut f m)) = Done (Some ret, [], w1)"
    using d r ga by (simp add: World_try_resource_scope_def ResourceData_leak_def ReinsertGuard_drop_def ResMut_deref_mut_def
        ResourceData_is_active_def ResourceData_from_raw_def ResourceData_clear_def Let_def w1_def rb_def flip: ra_def wa_def)
      (simp add: ra_def)
  define rc where "rc = r\<lparr>rd_data := Some (f v), rd_added := added, rd_changed := rw_this_run w\<rparr>"
  define w2 where "w2 = w\<lparr>rw_storage := ResourceStorage_put (rw_storage w) i rc\<rparr>"
  have drc: "rd_dropper rc = rd_dropper r" by (simp add: rc_def)
  note pc = res_put [OF inv d drc w2_def]
  have "World_write_resource w ty f = Some w2"
    using d r by (simp add: World_write_resource_def World_get_resource_mut_def ResMut_deref_mut_def Let_def w2_def rc_def)
  then show ?thesis using scope pa(3) pb(3) pc(3) by (auto simp: rb_def rc_def)
qed

theorem resource_scope_loses_change_tick_witness:
  "\<exists>w w1 w2 :: nat rworld. res_abs w 3 = Some (10, Tick 5, Tick 5) \<and>
     World_try_resource_scope w 3 (\<lambda>w m. ((), w, ResMut_deref_mut Suc m)) = Done (Some (), [], w1) \<and>
     res_abs w1 3 = Some (11, Tick 5, Tick 5) \<and> World_write_resource w 3 Suc = Some w2 \<and> rw_this_run w = Tick 9 \<and>
     res_abs w2 3 = Some (11, Tick 5, Tick 9)"
proof -
  obtain w0 :: "nat rworld" where w0: "res_inv (\<lambda>_. True) w0" "res_abs w0 3 = Some (10, Tick 5, Tick 5)"
    using insert_resource_spec [OF rworld_new_inv(1) [of "\<lambda>_. True" "Tick 5" "Tick 1"], of 3 "10 :: nat"] by (auto simp: rworld_new_inv)
  define w where "w = w0\<lparr>rw_this_run := Tick 9\<rparr>"
  have "World_resource_data w = World_resource_data w0" by (auto simp: w_def World_resource_data_def fun_eq_iff split: option.splits)
  then have w: "res_inv (\<lambda>_. True) w" "res_abs w 3 = Some (10, Tick 5, Tick 5)" "rw_this_run w = Tick 9"
    using w0 by (simp_all add: w_def res_inv_def res_abs_def)
  from resource_scope_loses_change_tick [OF w(1,2), of "()" Suc] w(2,3) show ?thesis by fastforce
qed
end
