(* ===== verification/WorldTicks.thy ===== *)
theory WorldTicks
  imports TableLife SparseMaps ResourceStore
begin

text \<open>
  The ticks of a whole world: the last runs of the systems in its schedules (\<open>system/\<close>, \<open>schedule/\<close>) and the ticks of
  resources, tables and maps, with the validation pass over all of them (\<open>check_ticks_cold\<close> in
  \<open>world/world.rs\<close>), all under \<open>crates/voker-ecs/src\<close>. The pass interprets the locale \<open>tick_pass\<close>, so the theorem about
  comparisons of ticks holds for the storages as they are, with the rows of sparse maps that the pass leaves out.
\<close>

section \<open>Systems\<close>

text \<open>
  A system as far as its last run goes: functions and the \<open>ApplyDeferred\<close> node hold a tick, the markers at the ends
  of a system set hold none, the combinators hold systems.
\<close>

datatype System =
    FunctionSystem Tick
  | ApplyDeferred Tick
  | SystemSetMarker
  | WithInputSystem System
  | PipeSystem System System
  | MapSystem System
  | MarkSystem System

fun System_last_run :: "System \<Rightarrow> Tick" where
  "System_last_run (FunctionSystem t) = t"
| "System_last_run (ApplyDeferred t) = t"
| "System_last_run SystemSetMarker = Tick 0"
| "System_last_run (WithInputSystem s) = System_last_run s"
| "System_last_run (PipeSystem a b) = System_last_run a"
| "System_last_run (MapSystem s) = System_last_run s"
| "System_last_run (MarkSystem s) = System_last_run s"

fun System_set_last_run :: "System \<Rightarrow> Tick \<Rightarrow> System" where
  "System_set_last_run (FunctionSystem _) last_run = FunctionSystem last_run"
| "System_set_last_run (ApplyDeferred _) last_run = ApplyDeferred last_run"
| "System_set_last_run SystemSetMarker last_run = SystemSetMarker"
| "System_set_last_run (WithInputSystem s) last_run = WithInputSystem (System_set_last_run s last_run)"
| "System_set_last_run (PipeSystem a b) last_run =
     PipeSystem (System_set_last_run a last_run) (System_set_last_run b last_run)"
| "System_set_last_run (MapSystem s) last_run = MapSystem (System_set_last_run s last_run)"
| "System_set_last_run (MarkSystem s) last_run = MarkSystem (System_set_last_run s last_run)"

fun System_check_ticks :: "System \<Rightarrow> Tick \<Rightarrow> System" where
  "System_check_ticks (FunctionSystem t) now = FunctionSystem (Tick_check_tick t now)"
| "System_check_ticks (ApplyDeferred t) now = ApplyDeferred (Tick_check_tick t now)"
| "System_check_ticks SystemSetMarker now = SystemSetMarker"
| "System_check_ticks (WithInputSystem s) now = WithInputSystem (System_check_ticks s now)"
| "System_check_ticks (PipeSystem a b) now = PipeSystem (System_check_ticks a now) (System_check_ticks b now)"
| "System_check_ticks (MapSystem s) now = MapSystem (System_check_ticks s now)"
| "System_check_ticks (MarkSystem s) now = MarkSystem (System_check_ticks s now)"

type_synonym SystemSchedule = "System list"

definition Schedule_check_ticks :: "SystemSchedule \<Rightarrow> Tick \<Rightarrow> SystemSchedule" where
  "Schedule_check_ticks sche now = map (\<lambda>system. System_check_ticks system now) sche"

section \<open>The pass over a world\<close>

record 'v WorldData =
  wd_schedules :: "SystemSchedule list"
  wd_resources :: "'v ResourceStorage"
  wd_tables :: "'v Tables"
  wd_maps :: "'v Maps"

text \<open>\<open>None\<close> when the pass would read a tick that was never written.\<close>

definition check_storages :: "Tick \<Rightarrow> 'v WorldData \<Rightarrow> 'v WorldData option" where
  "check_storages now d = do {
     let schedules = map (\<lambda>sche. Schedule_check_ticks sche now) (wd_schedules d);
     let resources = ResourceStorage_check_ticks (wd_resources d) now;
     tables \<leftarrow> those (map (\<lambda>table. Table_check_ticks table now) (tbs_tables (wd_tables d)));
     maps \<leftarrow> those (map (\<lambda>m. Map_check_ticks m now) (mps_maps (wd_maps d)));
     Some \<lparr>wd_schedules = schedules, wd_resources = resources,
           wd_tables = (wd_tables d)\<lparr>tbs_tables := tables\<rparr>, wd_maps = (wd_maps d)\<lparr>mps_maps := maps\<rparr>\<rparr>
   }"

definition World_pass :: "Tick \<Rightarrow> 'v WorldData option \<Rightarrow> 'v WorldData option" where
  "World_pass now s = Option.bind s (check_storages now)"

section \<open>Places of ticks\<close>

fun System_ticks :: "System \<Rightarrow> Tick list" where
  "System_ticks (FunctionSystem t) = [t]"
| "System_ticks (ApplyDeferred t) = [t]"
| "System_ticks SystemSetMarker = []"
| "System_ticks (WithInputSystem s) = System_ticks s"
| "System_ticks (PipeSystem a b) = System_ticks a @ System_ticks b"
| "System_ticks (MapSystem s) = System_ticks s"
| "System_ticks (MarkSystem s) = System_ticks s"

lemma System_ticks_check: "System_ticks (System_check_ticks s now) = map (\<lambda>t. Tick_check_tick t now) (System_ticks s)"
  by (induction s) simp_all

lemma System_ticks_set: "System_ticks (System_set_last_run s t) = map (\<lambda>_. t) (System_ticks s)"
  by (induction s) simp_all

text \<open>A resource by its id, a component in a row of a table, an entity's component in a map.\<close>

datatype cell_place = Resource_cell ResourceId | Dense_cell TableId TableRow ComponentId | Sparse_cell MapId Entity

text \<open>The \<open>n\<close>-th tick inside a system of a schedule, and the two ticks of a cell.\<close>

datatype data_place = Run_tick nat nat nat | Added_tick cell_place | Changed_tick cell_place

definition nth_option :: "'a list \<Rightarrow> nat \<Rightarrow> 'a option" where
  "nth_option xs i = (if i < length xs then Some (xs ! i) else None)"

definition cell_ticks :: "'v WorldData \<Rightarrow> cell_place \<Rightarrow> (Tick \<times> Tick) option" where
  "cell_ticks d c = (case c of
     Resource_cell i \<Rightarrow> do {
       r \<leftarrow> ResourceStorage_get (wd_resources d) i;
       if ResourceData_is_active r then Some (rd_added r, rd_changed r) else None }
   | Dense_cell k row i \<Rightarrow> do {
       t \<leftarrow> Tables_get (wd_tables d) k;
       if row < length (tb_entities t) then map_option snd (Table_cell t row i) else None }
   | Sparse_cell k e \<Rightarrow> do {
       m \<leftarrow> Maps_get (wd_maps d) k;
       map_option snd (Map_abs m e) })"

definition run_tick :: "'v WorldData \<Rightarrow> nat \<Rightarrow> nat \<Rightarrow> nat \<Rightarrow> Tick option" where
  "run_tick d i j n = do {
     sche \<leftarrow> nth_option (wd_schedules d) i;
     system \<leftarrow> nth_option sche j;
     nth_option (System_ticks system) n }"

definition stored_tick :: "'v WorldData option \<Rightarrow> data_place \<Rightarrow> Tick option" where
  "stored_tick s p = do {
     d \<leftarrow> s;
     case p of
       Run_tick i j n \<Rightarrow> run_tick d i j n
     | Added_tick c \<Rightarrow> map_option fst (cell_ticks d c)
     | Changed_tick c \<Rightarrow> map_option snd (cell_ticks d c) }"

text \<open>The pass over a map stops below the highest occupied row.\<close>

definition Map_reached :: "'v Map \<Rightarrow> Entity \<Rightarrow> bool" where
  "Map_reached m e \<longleftrightarrow> (\<exists>r' \<in> set (map snd (mp_mapper m)). \<exists>r \<in> set_option (Map_get_map_row m e). r < r')"

definition cell_reached :: "'v WorldData \<Rightarrow> cell_place \<Rightarrow> bool" where
  "cell_reached d c = (case c of
     Sparse_cell k e \<Rightarrow> (case Maps_get (wd_maps d) k of None \<Rightarrow> True | Some m \<Rightarrow> Map_reached m e)
   | _ \<Rightarrow> True)"

definition pass_reaches :: "'v WorldData option \<Rightarrow> data_place \<Rightarrow> bool" where
  "pass_reaches s p = (case s of None \<Rightarrow> True | Some d \<Rightarrow>
     (case p of Run_tick _ _ _ \<Rightarrow> True | Added_tick c \<Rightarrow> cell_reached d c | Changed_tick c \<Rightarrow> cell_reached d c))"

text \<open>Tables are fully initialised between the operations of the world, maps keep their invariant.\<close>

definition storages_ok :: "'v WorldData option \<Rightarrow> bool" where
  "storages_ok s = (case s of None \<Rightarrow> False | Some d \<Rightarrow>
     (\<forall>t \<in> set (tbs_tables (wd_tables d)). table_wf t \<and> table_full t) \<and>
     (\<forall>m \<in> set (mps_maps (wd_maps d)). map_wf m))"

section \<open>The pass meets its contract\<close>

lemma nth_option_map: "nth_option (map f xs) i = map_option f (nth_option xs i)"
  by (simp add: nth_option_def)

lemma Map_check_ticks_reached:
  assumes m: "map_wf m"
  shows "\<exists>m'. Map_check_ticks m now = Some m' \<and> map_wf m' \<and>
    (\<forall>e. Map_abs m' e = (if Map_reached m e then map_option (clamp_cell now) (Map_abs m e) else Map_abs m e))"
proof (cases "mp_mapper m = []")
  case True
  then show ?thesis using m by (auto simp: Map_check_ticks_def Map_reached_def)
next
  case False
  let ?rows = "set (map snd (mp_mapper m))"
  have dist: "distinct (map fst (mp_mapper m))" using m by (simp add: map_wf_def map_struct_def)
  have rows: "r' \<in> ?rows" if "Map_get_map_row m e' = Some r'" for e' r'
    using that by (force simp: Map_get_map_row_def dest: map_of_SomeD)
  have "Max ?rows \<in> ?rows" using False by (intro Max_in) auto
  then obtain e where e: "Map_get_map_row m e = Some (Max ?rows)"
    using dist by (auto simp: Map_get_map_row_def)
  have top: "\<forall>e' r'. Map_get_map_row m e' = Some r' \<longrightarrow> r' \<le> Max ?rows"
    using rows by (auto intro!: Max_ge)
  obtain m' where m': "Map_check_ticks m now = Some m'" "map_wf m'" "Map_get_map_row m' = Map_get_map_row m"
    "\<And>j. Column_cell (mp_column m') j = (if j < Max ?rows then map_option (clamp_cell now) (Column_cell (mp_column m) j)
        else Column_cell (mp_column m) j)"
    using Map_check_ticks_spec [OF m e top, where now = now] by metis
  have "Map_reached m e' \<longleftrightarrow> (\<exists>r. Map_get_map_row m e' = Some r \<and> r < Max ?rows)" for e'
    using False by (auto simp: Map_reached_def Max_gr_iff)
  then show ?thesis using m' by (intro exI [of _ m']) (auto simp: Map_abs_def split: Option.bind_splits)
qed

lemma Table_check_ticks_cells:
  assumes "table_wf t" "table_full t"
  shows "\<exists>t'. Table_check_ticks t now = Some t' \<and> table_wf t' \<and> table_full t' \<and> length (tb_entities t') = length (tb_entities t) \<and>
    (\<forall>row i. row < length (tb_entities t) \<longrightarrow> Table_cell t' row i = map_option (clamp_cell now) (Table_cell t row i))"
proof -
  obtain t' where t': "Table_check_ticks t now = Some t'" "table_wf t'" "same_schema t t'" "tb_entities t' = tb_entities t"
    "\<And>row i. row < length (tb_entities t) \<Longrightarrow> Table_cell t' row i = map_option (clamp_cell now) (Table_cell t row i)"
    using Table_check_ticks_spec [OF assms] by metis
  have "table_full t'"
    using t' assms by (simp add: table_full_cells same_schema_def)
  then show ?thesis using t' by auto
qed

lemma those_map_nth:
  assumes "\<And>x. x \<in> set xs \<Longrightarrow> \<exists>y. f x = Some y"
  shows "those (map f xs) = Some (map (\<lambda>x. the (f x)) xs)"
  using assms by (intro those_map_Some) fastforce

lemma check_storages_defined:
  assumes "storages_ok (Some d)"
  shows "check_storages now d = Some \<lparr>
      wd_schedules = map (\<lambda>sche. Schedule_check_ticks sche now) (wd_schedules d),
      wd_resources = ResourceStorage_check_ticks (wd_resources d) now,
      wd_tables = (wd_tables d)\<lparr>tbs_tables := map (\<lambda>t. the (Table_check_ticks t now)) (tbs_tables (wd_tables d))\<rparr>,
      wd_maps = (wd_maps d)\<lparr>mps_maps := map (\<lambda>m. the (Map_check_ticks m now)) (mps_maps (wd_maps d))\<rparr>\<rparr>"
proof -
  have "those (map (\<lambda>t. Table_check_ticks t now) (tbs_tables (wd_tables d))) =
      Some (map (\<lambda>t. the (Table_check_ticks t now)) (tbs_tables (wd_tables d)))"
    using assms Table_check_ticks_cells [of _ now] by (intro those_map_nth) (fastforce simp: storages_ok_def)
  moreover have "those (map (\<lambda>m. Map_check_ticks m now) (mps_maps (wd_maps d))) =
      Some (map (\<lambda>m. the (Map_check_ticks m now)) (mps_maps (wd_maps d)))"
    using assms Map_check_ticks_reached [of _ now] by (intro those_map_nth) (fastforce simp: storages_ok_def)
  ultimately show ?thesis by (simp add: check_storages_def)
qed

lemma check_storages_ok:
  assumes ok: "storages_ok (Some d)"
  shows "storages_ok (check_storages now d)"
proof -
  have "table_wf (the (Table_check_ticks t now)) \<and> table_full (the (Table_check_ticks t now))"
    if "t \<in> set (tbs_tables (wd_tables d))" for t
    using Table_check_ticks_cells [of t now] ok that by (fastforce simp: storages_ok_def)
  moreover have "map_wf (the (Map_check_ticks m now))" if "m \<in> set (mps_maps (wd_maps d))" for m
    using Map_check_ticks_reached [of m now] ok that by (fastforce simp: storages_ok_def)
  ultimately show ?thesis by (simp add: check_storages_defined [OF ok] storages_ok_def)
qed

lemma cell_ticks_check:
  assumes ok: "storages_ok (Some d)" and d': "check_storages now d = Some d'"
  shows "cell_ticks d' c = (if cell_reached d c
      then map_option (\<lambda>(a, ch). (Tick_check_tick a now, Tick_check_tick ch now)) (cell_ticks d c) else cell_ticks d c)"
proof (cases c)
  case (Resource_cell i)
  have "ResourceStorage_get (ResourceStorage_check_ticks s now) i = map_option (\<lambda>r. ResourceData_check_ticks r now) (ResourceStorage_get s i)"
    for s :: "'a ResourceStorage"
    by (simp add: ResourceStorage_get_def ResourceStorage_check_ticks_def)
  then show ?thesis using d' Resource_cell unfolding check_storages_defined [OF ok]
    by (cases "ResourceStorage_get (wd_resources d) i")
       (auto simp: cell_ticks_def cell_reached_def ResourceData_check_ticks_def ResourceData_is_active_def)
next
  case (Dense_cell k row i)
  have "length (tb_entities (the (Table_check_ticks t now))) = length (tb_entities t) \<and>
      (row < length (tb_entities t) \<longrightarrow> Table_cell (the (Table_check_ticks t now)) row i = map_option (clamp_cell now) (Table_cell t row i))"
    if "t \<in> set (tbs_tables (wd_tables d))" for t
    using Table_check_ticks_cells [of t now] ok that by (fastforce simp: storages_ok_def)
  then show ?thesis using d' Dense_cell unfolding check_storages_defined [OF ok]
    by (auto simp: cell_ticks_def cell_reached_def Tables_get_def clamp_cell_def option.map_comp comp_def split_def)
next
  case (Sparse_cell k e)
  have "Map_abs (the (Map_check_ticks m now)) e = (if Map_reached m e then map_option (clamp_cell now) (Map_abs m e) else Map_abs m e)"
    if "m \<in> set (mps_maps (wd_maps d))" for m
    using Map_check_ticks_reached [of m now] ok that by (fastforce simp: storages_ok_def)
  then show ?thesis using d' Sparse_cell unfolding check_storages_defined [OF ok]
    by (auto simp: cell_ticks_def cell_reached_def Maps_get_def clamp_cell_def option.map_comp comp_def split_def)
qed

lemma run_tick_check:
  assumes ok: "storages_ok (Some d)" and d': "check_storages now d = Some d'"
  shows "run_tick d' i j n = map_option (\<lambda>t. Tick_check_tick t now) (run_tick d i j n)"
  using d' unfolding check_storages_defined [OF ok]
  by (auto simp: run_tick_def nth_option_map Schedule_check_ticks_def System_ticks_check option.map_comp split: Option.bind_splits)

interpretation world: tick_pass World_pass stored_tick pass_reaches storages_ok
proof
  fix s :: "'v WorldData option" and now p
  assume ok: "storages_ok s"
  then obtain d where d: "s = Some d" by (auto simp: storages_ok_def split: option.splits)
  show "storages_ok (World_pass now s)"
    using ok check_storages_ok by (simp add: World_pass_def d)
  obtain d' where d': "check_storages now d = Some d'" using check_storages_defined ok d by blast
  show "stored_tick (World_pass now s) p =
      (if pass_reaches s p then map_option (\<lambda>t. Tick_check_tick t now) (stored_tick s p) else stored_tick s p)"
    using cell_ticks_check [OF ok [unfolded d] d'] run_tick_check [OF ok [unfolded d] d']
    by (cases p) (auto simp: World_pass_def d d' stored_tick_def pass_reaches_def option.map_comp comp_def split_def)
qed

section \<open>Operations as steps of a run\<close>

abbreviation world_reach :: "nat \<Rightarrow> nat \<Rightarrow> (data_place tick_place \<rightharpoonup> nat) \<Rightarrow> 'v WorldData option world_clock \<Rightarrow> bool" where
  "world_reach \<equiv> clock_reach World_pass stored_tick pass_reaches storages_ok"

text \<open>
  The operations of the storages are steps of the clock's runs. \<open>fa\<close> and \<open>fc\<close> say where the added and the changed
  tick of a cell come from; \<open>None\<close> is a tick written now, by a run that began at time \<open>s\<close>, or no cell.
\<close>

definition times_moved ::
  "(cell_place \<Rightarrow> cell_place option) \<Rightarrow> (cell_place \<Rightarrow> cell_place option) \<Rightarrow> nat \<Rightarrow> 'v WorldData \<Rightarrow>
   (data_place tick_place \<rightharpoonup> nat) \<Rightarrow> (data_place tick_place \<rightharpoonup> nat)" where
  "times_moved fa fc s d' ss p = (let new = (\<lambda>c. if cell_ticks d' c = None then None else Some s) in case p of
     Stored (Added_tick c) \<Rightarrow> (case fa c of None \<Rightarrow> new c | Some c' \<Rightarrow> ss (Stored (Added_tick c')))
   | Stored (Changed_tick c) \<Rightarrow> (case fc c of None \<Rightarrow> new c | Some c' \<Rightarrow> ss (Stored (Changed_tick c')))
   | _ \<Rightarrow> ss p)"

definition tick_origin :: "Tick \<Rightarrow> Tick option \<Rightarrow> (cell_place \<Rightarrow> Tick option) \<Rightarrow> cell_place option \<Rightarrow> bool" where
  "tick_origin tick t old from = (case from of None \<Rightarrow> t = None \<or> t = Some tick | Some c \<Rightarrow> t = old c)"

lemma reach_cells:
  assumes reach: "world_reach T g ss w" and d: "clk_storages w = Some d" and ok: "storages_ok (Some d')"
    and s: "s \<le> T" "T - s \<le> unat MAX_TICK_AGE" and sched: "wd_schedules d' = wd_schedules d"
    and fa: "\<And>c. tick_origin (Tick (of_nat s)) (map_option fst (cell_ticks d' c)) (map_option fst \<circ> cell_ticks d) (fa c)"
    and fc: "\<And>c. tick_origin (Tick (of_nat s)) (map_option snd (cell_ticks d' c)) (map_option snd \<circ> cell_ticks d) (fc c)"
  shows "world_reach T g (times_moved fa fc s d' ss) (w\<lparr>clk_storages := Some d'\<rparr>)"
proof (rule clock_reach.store [OF reach ok])
  let ?w = "w\<lparr>clk_storages := Some d'\<rparr>"
  let ?old = "\<lambda>p t. \<exists>q. ss q = Some t \<and> tick_of stored_tick ?w p = tick_of stored_tick w q"
  let ?new = "\<lambda>p t. t = s \<and> tick_of stored_tick ?w p = Some (Tick (of_nat s))"
  have "?new p t \<or> ?old p t" if p: "times_moved fa fc s d' ss p = Some t" for p t
  proof -
    consider (last) "p = World_last_run" | (run) i j n where "p = Stored (Run_tick i j n)"
      | (added) c where "p = Stored (Added_tick c)" | (changed) c where "p = Stored (Changed_tick c)"
      by (cases p; metis data_place.exhaust)
    then show ?thesis
    proof cases
      case last
      then show ?thesis using p by (auto simp: times_moved_def tick_of_def intro!: exI [of _ World_last_run])
    next
      case run
      then show ?thesis using p
        by (auto simp: times_moved_def tick_of_def stored_tick_def run_tick_def sched d intro!: exI [of _ p])
    next
      case (added c)
      then show ?thesis using p fa [of c]
        by (cases "fa c") (auto simp: times_moved_def tick_origin_def tick_of_def stored_tick_def d Let_def split: if_splits)
    next
      case (changed c)
      then show ?thesis using p fc [of c]
        by (cases "fc c") (auto simp: times_moved_def tick_origin_def tick_of_def stored_tick_def d Let_def split: if_splits)
    qed
  qed
  then show "ticks_written stored_tick T w ss ?w (times_moved fa fc s d' ss)"
    unfolding ticks_written_def using s by blast
qed

text \<open>Inserting a resource.\<close>

lemma reach_insert_resource:
  fixes v :: 'v
  assumes reach: "world_reach T g ss w" and d: "clk_storages w = Some d"
    and s: "s \<le> T" "T - s \<le> unat MAX_TICK_AGE" and r: "ResourceStorage_get (wd_resources d) i = Some r"
  defines "d' \<equiv> d\<lparr>wd_resources := ResourceStorage_put (wd_resources d) i (snd (ResourceData_insert_untyped r v (Tick (of_nat s))))\<rparr>"
  shows "world_reach T g
    (times_moved (\<lambda>c. if c = Resource_cell i \<and> \<not> ResourceData_is_active r then None else Some c)
       (\<lambda>c. if c = Resource_cell i then None else Some c) s d' ss) (w\<lparr>clk_storages := Some d'\<rparr>)"
proof (rule reach_cells [OF reach d _ s])
  have ok: "storages_ok (Some d)" using world.reach_ok [OF reach] d by simp
  then show "storages_ok (Some d')" by (simp add: storages_ok_def d'_def)
  have "ResourceStorage_get (wd_resources d') j =
      (if j = i then Some (snd (ResourceData_insert_untyped r v (Tick (of_nat s)))) else ResourceStorage_get (wd_resources d) j)" for j
    using r by (auto simp: d'_def ResourceStorage_get_def ResourceStorage_put_def split: if_splits)
  moreover have "wd_tables d' = wd_tables d" "wd_maps d' = wd_maps d" by (simp_all add: d'_def)
  ultimately have cells: "cell_ticks d' c = (if c = Resource_cell i
      then Some (if ResourceData_is_active r then rd_added r else Tick (of_nat s), Tick (of_nat s)) else cell_ticks d c)" for c
    by (cases c) (auto simp: cell_ticks_def ResourceData_insert_untyped_def ResourceData_is_active_def split: option.splits)
  have old: "cell_ticks d (Resource_cell i) = (if ResourceData_is_active r then Some (rd_added r, rd_changed r) else None)"
    using r by (simp add: cell_ticks_def)
  fix c
  show "tick_origin (Tick (of_nat s)) (map_option fst (cell_ticks d' c)) (map_option fst \<circ> cell_ticks d)
      (if c = Resource_cell i \<and> \<not> ResourceData_is_active r then None else Some c)"
    "tick_origin (Tick (of_nat s)) (map_option snd (cell_ticks d' c)) (map_option snd \<circ> cell_ticks d)
      (if c = Resource_cell i then None else Some c)"
    by (auto simp: tick_origin_def cells old)
qed (simp add: d'_def)

text \<open>Adding, overwriting and removing an entity's component in a sparse map.\<close>

fun map_op_entity :: "'v map_op \<Rightarrow> Entity" where
  "map_op_entity (Put e _ _) = e"
| "map_op_entity (Overwrite e _ _) = e"
| "map_op_entity (Delete e) = e"

fun map_op_tick :: "Tick \<Rightarrow> 'v map_op \<Rightarrow> bool" where
  "map_op_tick tick (Put _ _ t) = (t = tick)"
| "map_op_tick tick (Overwrite _ _ t) = (t = tick)"
| "map_op_tick tick (Delete _) = True"

fun map_op_keeps_added :: "'v map_op \<Rightarrow> bool" where
  "map_op_keeps_added (Overwrite _ _ _) = True"
| "map_op_keeps_added _ = False"

lemma map_spec_ticks:
  assumes "map_spec dp x a = Some (ds, a')" "map_op_tick tick x"
  shows "e \<noteq> map_op_entity x \<Longrightarrow> a' e = a e"
    and "tick_origin tick (map_option (snd \<circ> snd) (a' (map_op_entity x))) f None"
    and "map_option (fst \<circ> snd) (a' (map_op_entity x)) =
      (if map_op_keeps_added x then map_option (fst \<circ> snd) (a (map_op_entity x)) else map_option (snd \<circ> snd) (a' (map_op_entity x)))"
  using assms by (cases x; auto simp: tick_origin_def split: if_splits option.splits)+

lemma reach_map_op:
  assumes reach: "world_reach T g ss w" and d: "clk_storages w = Some d"
    and s: "s \<le> T" "T - s \<le> unat MAX_TICK_AGE" and k: "k < length (mps_maps (wd_maps d))"
    and x: "map_op_tick (Tick (of_nat s)) x"
    and spec: "map_spec (col_dropper (mp_column (mps_maps (wd_maps d) ! k))) x (Map_abs (mps_maps (wd_maps d) ! k)) = Some (ds, a)"
  shows "\<exists>m' d'. map_step x (mps_maps (wd_maps d) ! k) = Some (ds, m') \<and>
    d' = d\<lparr>wd_maps := (wd_maps d)\<lparr>mps_maps := (mps_maps (wd_maps d))[k := m']\<rparr>\<rparr> \<and>
    world_reach T g
      (times_moved (\<lambda>c. if c = Sparse_cell k (map_op_entity x) \<and> \<not> map_op_keeps_added x then None else Some c)
         (\<lambda>c. if c = Sparse_cell k (map_op_entity x) then None else Some c) s d' ss) (w\<lparr>clk_storages := Some d'\<rparr>)"
proof -
  let ?m = "mps_maps (wd_maps d) ! k" and ?e = "map_op_entity x"
  have ok: "storages_ok (Some d)" using world.reach_ok [OF reach] d by simp
  then have "map_wf ?m \<and> col_dropper (mp_column ?m) = col_dropper (mp_column ?m)"
    using k by (simp add: storages_ok_def)
  from sparse.sim [OF this spec] obtain m' where m': "map_step x ?m = Some (ds, m')" "map_wf m'" "Map_abs m' = a"
    by blast
  define d' where "d' = d\<lparr>wd_maps := (wd_maps d)\<lparr>mps_maps := (mps_maps (wd_maps d))[k := m']\<rparr>\<rparr>"
  have cells: "cell_ticks d' c = (if c = Sparse_cell k ?e then map_option snd (a ?e) else cell_ticks d c)" for c
    using k map_spec_ticks(1) [OF spec x] m'(3)
    by (cases c) (auto simp: cell_ticks_def d'_def Maps_get_def nth_list_update)
  have old: "cell_ticks d (Sparse_cell k ?e) = map_option snd (Map_abs ?m ?e)"
    using k by (simp add: cell_ticks_def Maps_get_def)
  have "world_reach T g (times_moved (\<lambda>c. if c = Sparse_cell k ?e \<and> \<not> map_op_keeps_added x then None else Some c)
         (\<lambda>c. if c = Sparse_cell k ?e then None else Some c) s d' ss) (w\<lparr>clk_storages := Some d'\<rparr>)"
  proof (rule reach_cells [OF reach d _ s])
    show "storages_ok (Some d')"
      using ok m'(2) by (auto simp: storages_ok_def d'_def dest!: set_update_subset_insert [THEN subsetD])
    fix c
    show "tick_origin (Tick (of_nat s)) (map_option fst (cell_ticks d' c)) (map_option fst \<circ> cell_ticks d)
        (if c = Sparse_cell k ?e \<and> \<not> map_op_keeps_added x then None else Some c)"
      "tick_origin (Tick (of_nat s)) (map_option snd (cell_ticks d' c)) (map_option snd \<circ> cell_ticks d)
        (if c = Sparse_cell k ?e then None else Some c)"
      using map_spec_ticks(2,3) [OF spec x]
      by (auto simp: tick_origin_def cells old option.map_comp)
  qed (simp add: d'_def)
  then show ?thesis using m'(1) d'_def by blast
qed

text \<open>Removing a row of a table moves the cells of the last row.\<close>

lemma reach_dealloc_row:
  assumes reach: "world_reach T g ss w" and d: "clk_storages w = Some d" and k: "k < length (tbs_tables (wd_tables d))"
    and row: "row < length (tb_entities (tbs_tables (wd_tables d) ! k))"
  defines "end \<equiv> length (tb_entities (tbs_tables (wd_tables d) ! k)) - 1"
  defines "from \<equiv> \<lambda>c. case c of Dense_cell k' r i \<Rightarrow>
      if k' = k \<and> r = end then None else if k' = k \<and> r = row then Some (Dense_cell k end i) else Some c | _ \<Rightarrow> Some c"
  shows "\<exists>ds moved t' d'. Table_dealloc_row DROP (tbs_tables (wd_tables d) ! k) row = Some (ds, moved, t') \<and>
    d' = d\<lparr>wd_tables := (wd_tables d)\<lparr>tbs_tables := (tbs_tables (wd_tables d))[k := t']\<rparr>\<rparr> \<and>
    world_reach T g (times_moved from from T d' ss) (w\<lparr>clk_storages := Some d'\<rparr>)"
proof -
  let ?t = "tbs_tables (wd_tables d) ! k"
  have ok: "storages_ok (Some d)" using world.reach_ok [OF reach] d by simp
  then have t: "table_wf ?t" "table_full ?t" using k by (simp_all add: storages_ok_def)
  obtain ds moved t' where t': "Table_dealloc_row DROP ?t row = Some (ds, moved, t')" "table_wf t'" "table_full t'"
    "tb_entities t' = swap_remove row (tb_entities ?t)" "Table_abs t' = swap_remove row (Table_abs ?t)"
    using Table_dealloc_row_spec [OF t row, of DROP] by blast
  define d' where "d' = d\<lparr>wd_tables := (wd_tables d)\<lparr>tbs_tables := (tbs_tables (wd_tables d))[k := t']\<rparr>\<rparr>"
  have len: "length (tb_entities t') = end" by (simp add: t'(4) end_def)
  have cell: "Table_cell t' r i = Table_cell ?t (if r = row then end else r) i" if "r < end" for r i
  proof -
    have "Table_abs t' ! r = Table_abs ?t ! (if r = row then end else r)"
      unfolding t'(5) using that row nth_swap_remove [of row "Table_abs ?t" r] by (simp add: Table_abs_def end_def)
    then show ?thesis using that len row by (auto simp: Table_abs_def end_def split: if_splits)
  qed
  have cells: "case from c of None \<Rightarrow> cell_ticks d' c = None | Some c' \<Rightarrow> cell_ticks d' c = cell_ticks d c'" for c
    using k row cell len
    by (cases c) (auto simp: cell_ticks_def from_def d'_def Tables_get_def nth_list_update end_def)
  have "world_reach T g (times_moved from from T d' ss) (w\<lparr>clk_storages := Some d'\<rparr>)"
  proof (rule reach_cells [OF reach d])
    show "storages_ok (Some d')"
      using ok t'(2,3) by (auto simp: storages_ok_def d'_def dest!: set_update_subset_insert [THEN subsetD])
    fix c
    show "tick_origin (Tick (of_nat T)) (map_option fst (cell_ticks d' c)) (map_option fst \<circ> cell_ticks d) (from c)"
      "tick_origin (Tick (of_nat T)) (map_option snd (cell_ticks d' c)) (map_option snd \<circ> cell_ticks d) (from c)"
      using cells [of c] by (auto simp: tick_origin_def split: option.splits)
  qed (simp_all add: d'_def)
  then show ?thesis using t'(1) d'_def by blast
qed

text \<open>A system records its run.\<close>

lemma reach_set_last_run:
  assumes reach: "world_reach T g ss w" and d: "clk_storages w = Some d"
    and s: "s \<le> T" "T - s \<le> unat MAX_TICK_AGE"
    and i: "i < length (wd_schedules d)" and j: "j < length (wd_schedules d ! i)"
  defines "sys \<equiv> wd_schedules d ! i ! j"
  defines "d' \<equiv> d\<lparr>wd_schedules := (wd_schedules d)[i := (wd_schedules d ! i)[j := System_set_last_run sys (Tick (of_nat s))]]\<rparr>"
  shows "world_reach T g (\<lambda>p. if \<exists>n < length (System_ticks sys). p = Stored (Run_tick i j n) then Some s else ss p)
    (w\<lparr>clk_storages := Some d'\<rparr>)"
proof (rule clock_reach.store [OF reach])
  let ?w = "w\<lparr>clk_storages := Some d'\<rparr>"
  show "storages_ok (Some d')" using world.reach_ok [OF reach] d by (simp add: storages_ok_def d'_def)
  have run: "run_tick d' i' j' n = (if i' = i \<and> j' = j \<and> n < length (System_ticks sys) then Some (Tick (of_nat s)) else run_tick d i' j' n)" for i' j' n
    using i j by (cases "i' = i"; cases "j' = j") (auto simp: run_tick_def nth_option_def d'_def sys_def System_ticks_set)
  have cells: "cell_ticks d' c = cell_ticks d c" for c
    by (cases c) (simp_all add: cell_ticks_def d'_def)
  have "tick_of stored_tick ?w p = (if \<exists>n < length (System_ticks sys). p = Stored (Run_tick i j n)
      then Some (Tick (of_nat s)) else tick_of stored_tick w p)" for p
  proof (cases p)
    case (Stored q)
    then show ?thesis by (cases q) (auto simp: tick_of_def stored_tick_def d run cells)
  qed (simp add: tick_of_def)
  then show "ticks_written stored_tick T w ss ?w
      (\<lambda>p. if \<exists>n < length (System_ticks sys). p = Stored (Run_tick i j n) then Some s else ss p)"
    unfolding ticks_written_def using s by (auto split: if_splits)
qed

section \<open>Properties\<close>

text \<open>
  C1. Comparing ticks is comparing true times. In every state of a run in which validation is asked for at least once every
  \<open>2 ^ 28\<close> ticks (no bound on the length of the run: the 32-bit counter may wrap any number of times), every pass so far
  was defined, and \<open>is_newer_than\<close> with the tick that the next run is given compares the times at which the two ticks
  were written, ages being clamped at \<open>MAX_TICK_AGE\<close>. It holds for all ticks with a known time: the last runs of the systems
  in the schedules, the ticks of resources and of table cells, and those cells of sparse maps which were younger than
  \<open>MAX_TICK_AGE\<close> at every pass that found them in the highest occupied row of their map, because a pass leaves
  that row out. The world's own \<open>last_run\<close>, which no pass visits, has the same restriction.
  Observers of the \<open>CheckTicks\<close> event are not part of a run.
\<close>

theorem is_newer_than_true_time:
  assumes "clock_reach World_pass stored_tick pass_reaches storages_ok T g ss w" "ss p = Some s" "ss q = Some t"
  shows "clk_storages w \<noteq> None \<and> s \<le> T \<and> t \<le> T \<and>
    (\<exists>a b. tick_of stored_tick w p = Some a \<and> tick_of stored_tick w q = Some b \<and>
       (Tick_is_newer_than a b (fst (World_advance_tick w)) \<longleftrightarrow>
          min (T - s) (unat MAX_TICK_AGE) < min (T - t) (unat MAX_TICK_AGE)))"
  using world.reach_newer [OF assms] world.reach_ok [OF assms(1)]
  by (auto simp: storages_ok_def split: option.splits)

text \<open>A system runs at tick 2 and a resource is inserted afterwards, at tick 3.\<close>

definition sample_data :: "System list list \<Rightarrow> nat ResourceData \<Rightarrow> nat WorldData" where
  "sample_data sches r = \<lparr>wd_schedules = sches, wd_resources = \<lparr>rs_data = [Some r]\<rparr>, wd_tables = Tables_new, wd_maps = Maps_new\<rparr>"

lemma sample_run:
  "\<exists>ss w. world_reach 3 2 ss w \<and> fst (World_advance_tick w) = Tick 3 \<and>
     clk_storages w = Some (sample_data [[FunctionSystem (Tick 2)]]
       \<lparr>rd_id = 0, rd_dropper = False, rd_data = Some 7, rd_added = Tick 3, rd_changed = Tick 3\<rparr>) \<and>
     ss (Stored (Changed_tick (Resource_cell 0))) = Some 3 \<and> ss (Stored (Run_tick 0 0 0)) = Some 2"
proof -
  let ?r = "ResourceData_new \<lparr>ri_id = 0, ri_dropper = False\<rparr> :: nat ResourceData"
  let ?d0 = "sample_data [[FunctionSystem (Tick 0)]] ?r"
  let ?w3 = "snd (World_advance_tick (snd (World_advance_tick (World_clock_alloc (Some ?d0)))))"
  have "storages_ok (Some ?d0)"
    using Table_new_spec(1) [of "[]" 0 "[] :: ComponentInfo list"]
    by (simp add: storages_ok_def sample_data_def Tables_new_def Maps_new_def table_full_def Table_new_def)
  then have "world_reach 1 0 [World_last_run \<mapsto> 0] (World_clock_alloc (Some ?d0))" by (rule clock_reach.start)
  from clock_reach.advance [OF clock_reach.advance [OF this]]
  have 1: "world_reach 3 2 [World_last_run \<mapsto> 0] ?w3"
    by (simp add: MAINTENANCE_def numeral_3_eq_3 numeral_2_eq_2)
  have w3: "clk_storages ?w3 = Some ?d0" "clk_this_run ?w3 = 3"
    by (simp_all add: World_advance_tick_def World_clock_alloc_def)
  let ?d1 = "sample_data [[FunctionSystem (Tick 2)]] ?r"
  obtain ss1 where 2: "world_reach 3 2 ss1 (?w3\<lparr>clk_storages := Some ?d1\<rparr>)" "ss1 (Stored (Run_tick 0 0 0)) = Some 2"
    using reach_set_last_run [OF 1 w3(1), of 2 0 0] by (simp add: sample_data_def MAX_TICK_AGE_eq)
  have "world_reach 3 2 (times_moved (\<lambda>c. if c = Resource_cell 0 \<and> \<not> ResourceData_is_active ?r then None else Some c)
         (\<lambda>c. if c = Resource_cell 0 then None else Some c) 3 (sample_data [[FunctionSystem (Tick 2)]]
       \<lparr>rd_id = 0, rd_dropper = False, rd_data = Some 7, rd_added = Tick 3, rd_changed = Tick 3\<rparr>) ss1)
      (?w3\<lparr>clk_storages := Some (sample_data [[FunctionSystem (Tick 2)]]
       \<lparr>rd_id = 0, rd_dropper = False, rd_data = Some 7, rd_added = Tick 3, rd_changed = Tick 3\<rparr>)\<rparr>)"
    using reach_insert_resource [OF 2(1), of ?d1 3 0 ?r 7]
    by (simp add: sample_data_def MAX_TICK_AGE_eq ResourceStorage_get_def ResourceStorage_put_def
        ResourceData_insert_untyped_def ResourceData_new_def)
  moreover have "clk_this_run (?w3\<lparr>clk_storages := x\<rparr>) = 3" for x using w3(2) by simp
  ultimately show ?thesis
    using 2(2) by - (rule exI, rule exI, rule conjI, assumption,
      simp add: times_moved_def World_advance_tick_def cell_ticks_def sample_data_def ResourceStorage_get_def ResourceData_is_active_def ResourceData_new_def)
qed

theorem is_newer_than_true_time_witness:
  "\<exists>w. clk_storages w = Some (sample_data [[FunctionSystem (Tick 2)]]
       \<lparr>rd_id = 0, rd_dropper = False, rd_data = Some 7, rd_added = Tick 3, rd_changed = Tick 3\<rparr>) \<and>
     Tick_is_newer_than (Tick 3) (Tick 2) (fst (World_advance_tick w)) \<and>
     \<not> Tick_is_newer_than (Tick 2) (Tick 3) (fst (World_advance_tick w))"
proof -
  obtain ss and w :: "nat WorldData option world_clock" where w: "world_reach 3 2 ss w"
    "clk_storages w = Some (sample_data [[FunctionSystem (Tick 2)]]
       \<lparr>rd_id = 0, rd_dropper = False, rd_data = Some 7, rd_added = Tick 3, rd_changed = Tick 3\<rparr>)"
    "ss (Stored (Changed_tick (Resource_cell 0))) = Some 3" "ss (Stored (Run_tick 0 0 0)) = Some 2"
    using sample_run by blast
  have "tick_of stored_tick w (Stored (Changed_tick (Resource_cell 0))) = Some (Tick 3)"
    "tick_of stored_tick w (Stored (Run_tick 0 0 0)) = Some (Tick 2)"
    by (simp_all add: tick_of_def stored_tick_def w(2) sample_data_def cell_ticks_def run_tick_def nth_option_def
        ResourceStorage_get_def ResourceData_is_active_def)
  then show ?thesis
    using is_newer_than_true_time [OF w(1,3,4)] is_newer_than_true_time [OF w(1,4,3)] w(2)
    by (auto simp: MAX_TICK_AGE_eq)
qed

end
