(* ===== verification/FreeBuffer.thy ===== *)
theory FreeBuffer
  imports EntityIds
begin

text \<open>
  The chunked table that stores recycled entities (\<open>Chunk\<close>, \<open>FreeBuffer\<close> and
  \<open>FreeBufferIter\<close> of \<open>crates/voker-ecs/src/entity/allocator.rs\<close>). A chunk is the array behind its
  head pointer, \<open>None\<close> while the pointer is null; a read through a null pointer or past the end of
  the array is undefined behaviour and gives \<open>None\<close>. The theory ends with the contract of the
  table as an indexed store (\<^emph>\<open>entity_store\<close>) and its interpretation on the chunked layout.
\<close>

section \<open>Chunk\<close>

type_synonym Chunk = "Entity list option"

definition Chunk_new :: Chunk where
  "Chunk_new = None"

definition Chunk_alloc :: "u32 \<Rightarrow> Entity list" where
  "Chunk_alloc capacity = replicate (unat capacity) Entity_PLACEHOLDER"

definition Chunk_get :: "Chunk \<Rightarrow> u32 \<Rightarrow> Entity option" where
  "Chunk_get chunk index =
     (case chunk of
        None \<Rightarrow> None
      | Some head \<Rightarrow> if unat index < length head then Some (head ! unat index) else None)"

definition Chunk_get_slice :: "Chunk \<Rightarrow> u32 \<Rightarrow> u32 \<Rightarrow> u32 \<Rightarrow> Entity list option" where
  "Chunk_get_slice chunk index required_len chunk_capacity =
     (let available_len = chunk_capacity - index;
          len = unat (min available_len required_len)
      in case chunk of
           None \<Rightarrow> None
         | Some head \<Rightarrow>
             if unat index + len \<le> length head then Some (take len (drop (unat index) head)) else None)"

definition Chunk_set_slice :: "Chunk \<Rightarrow> u32 \<Rightarrow> Entity list \<Rightarrow> u32 \<Rightarrow> Chunk \<times> nat" where
  "Chunk_set_slice chunk index entities chunk_capacity =
     (let available_len = unat (chunk_capacity - index);
          len = min available_len (length entities);
          head = (case chunk of None \<Rightarrow> Chunk_alloc chunk_capacity | Some head \<Rightarrow> head)
      in (Some (take (unat index) head @ take len entities @ drop (unat index + len) head), len))"

section \<open>FreeBuffer\<close>

definition NUM_CHUNKS :: u32 where
  "NUM_CHUNKS = 24"

definition NUM_SKIPPED :: u32 where
  "NUM_SKIPPED = 32 - NUM_CHUNKS"

type_synonym FreeBuffer = "Chunk list"

definition FreeBuffer_new :: FreeBuffer where
  "FreeBuffer_new = replicate (unat NUM_CHUNKS) Chunk_new"

definition chunck_capacity :: "u32 \<Rightarrow> u32" where
  "chunck_capacity chunk_index =
     (let corrected = (if chunk_index = 0 then 1 else chunk_index);
          corrected = corrected + NUM_SKIPPED
      in push_bit (unat corrected) 1)"

text \<open>\<open>u32::leading_zeros\<close>: 32 minus the number of significant bits.\<close>

fun bit_width :: "nat \<Rightarrow> nat" where
  "bit_width n = (if n = 0 then 0 else Suc (bit_width (n div 2)))"

declare bit_width.simps [simp del]

definition leading_zeros :: "u32 \<Rightarrow> u32" where
  "leading_zeros w = of_nat (32 - bit_width (unat w))"

definition saturating_sub :: "u32 \<Rightarrow> u32 \<Rightarrow> u32" where
  "saturating_sub a b = (if a \<ge> b then a - b else 0)"

definition chunk_with_index :: "u32 \<Rightarrow> u32 \<times> u32 \<times> u32" where
  "chunk_with_index full_index =
     (let chunk_index = saturating_sub (NUM_CHUNKS - 1) (leading_zeros full_index);
          chunk_capacity = chunck_capacity chunk_index;
          index_in_chunk = full_index AND NOT chunk_capacity
      in (chunk_index, index_in_chunk, chunk_capacity))"

definition FreeBuffer_get :: "FreeBuffer \<Rightarrow> u32 \<Rightarrow> Entity option" where
  "FreeBuffer_get buf full_index =
     (case chunk_with_index full_index of (c, index, _) \<Rightarrow> Chunk_get (buf ! unat c) index)"

section \<open>Addressing\<close>

text \<open>Chunk \<open>c\<close> holds the global indices from \<open>chunk_base c\<close> on, \<open>chunk_cap c\<close> of them.\<close>

definition chunk_base :: "nat \<Rightarrow> nat" where
  "chunk_base c = (if c = 0 then 0 else 2 ^ (c + 8))"

definition chunk_cap :: "nat \<Rightarrow> nat" where
  "chunk_cap c = 2 ^ (max c 1 + 8)"

definition chunk_of :: "nat \<Rightarrow> nat" where
  "chunk_of n = bit_width n - 9"

lemma bit_width_0 [simp]: "bit_width 0 = 0"
  by (subst bit_width.simps) simp

lemma bit_width_pos: "n \<noteq> 0 \<Longrightarrow> bit_width n = Suc (bit_width (n div 2))"
  by (subst bit_width.simps) simp

lemma bit_width_upper: "n < 2 ^ bit_width n"
proof (induction n rule: bit_width.induct)
  case (1 n)
  then show ?case by (cases "n = 0") (auto simp: bit_width_pos)
qed

lemma bit_width_lower: "n \<noteq> 0 \<Longrightarrow> 2 ^ (bit_width n - 1) \<le> n"
proof (induction n rule: bit_width.induct)
  case (1 n)
  show ?case
  proof (cases "n div 2 = 0")
    case True
    with 1 show ?thesis by (simp add: bit_width_pos)
  next
    case False
    then obtain k where k: "bit_width (n div 2) = Suc k" using bit_width_pos by blast
    from 1 False k have "2 ^ k \<le> n div 2" by simp
    then show ?thesis using 1(2) k by (simp add: bit_width_pos)
  qed
qed

lemma bit_width_le: "n < 2 ^ k \<Longrightarrow> bit_width n \<le> k"
proof (rule ccontr)
  assume n: "n < 2 ^ k" and "\<not> bit_width n \<le> k"
  then have "k \<le> bit_width n - 1" "n \<noteq> 0" by (auto intro: gr0I)
  then have "(2::nat) ^ k \<le> 2 ^ (bit_width n - 1)" "2 ^ (bit_width n - 1) \<le> n"
    by (simp_all add: bit_width_lower [simplified])
  with n show False by linarith
qed

lemma chunk_of_bounds:
  "chunk_base (chunk_of n) \<le> n" "n < chunk_base (chunk_of n) + chunk_cap (chunk_of n)"
proof -
  show "chunk_base (chunk_of n) \<le> n"
    using bit_width_lower [of n] by (cases "n = 0") (auto simp: chunk_base_def chunk_of_def)
  show "n < chunk_base (chunk_of n) + chunk_cap (chunk_of n)"
  proof (cases "bit_width n \<le> 9")
    case True
    then have "(2::nat) ^ bit_width n \<le> 2 ^ 9" by (intro power_increasing) auto
    with bit_width_upper [of n] True show ?thesis by (simp add: chunk_base_def chunk_cap_def chunk_of_def)
  next
    case False
    then have "bit_width n = chunk_of n + 9" "chunk_of n \<noteq> 0" "max (chunk_of n) 1 = chunk_of n"
      by (auto simp: chunk_of_def)
    with bit_width_upper [of n] show ?thesis by (simp add: chunk_base_def chunk_cap_def power_add)
  qed
qed

lemma chunk_base_mono: "c < d \<Longrightarrow> chunk_base c + chunk_cap c \<le> chunk_base d"
proof -
  assume "c < d"
  then have d: "(2::nat) ^ (Suc c + 8) \<le> 2 ^ (d + 8)"
    by (intro power_increasing) auto
  show ?thesis
  proof (cases "c = 0")
    case True
    with d \<open>c < d\<close> show ?thesis by (simp add: chunk_base_def chunk_cap_def)
  next
    case False
    then have "max c 1 = c" by simp
    with d \<open>c < d\<close> False show ?thesis by (simp add: chunk_base_def chunk_cap_def power_add)
  qed
qed

lemma chunk_of_unique:
  assumes "chunk_base c \<le> n" "n < chunk_base c + chunk_cap c"
  shows "chunk_of n = c"
  using chunk_of_bounds [of n] chunk_base_mono [of c "chunk_of n"] chunk_base_mono [of "chunk_of n" c] assms
  by (cases c "chunk_of n" rule: linorder_cases) auto

lemma chunk_of_less: "n < 2 ^ 32 \<Longrightarrow> chunk_of n < 24"
  using bit_width_le [of n 32] by (simp add: chunk_of_def)

lemma unat_exp_32: "k < 32 \<Longrightarrow> unat (2 ^ k :: u32) = 2 ^ k"
proof -
  assume "k < 32"
  then have "(2::nat) ^ k < 2 ^ 32" by (intro power_strict_increasing) auto
  then show ?thesis using unat_of_nat_32 [of "2 ^ k"] by simp
qed

lemma of_nat_eq_iff_32:
  "m < 2 ^ 32 \<Longrightarrow> n < 2 ^ 32 \<Longrightarrow> (of_nat m :: u32) = of_nat n \<longleftrightarrow> m = n"
  by (auto dest: arg_cong [of _ _ unat])

lemma chunck_capacity_eq:
  assumes "c < 24"
  shows "chunck_capacity (of_nat c) = 2 ^ (max c 1 + 8)"
proof -
  have "unat ((if (of_nat c :: u32) = 0 then 1 else of_nat c) + NUM_SKIPPED) = max c 1 + 8"
    using assms of_nat_eq_iff_32 [of c 0] by (auto simp: NUM_SKIPPED_def NUM_CHUNKS_def unat_word_ariths)
  then show ?thesis by (simp add: chunck_capacity_def push_bit_eq_mult Let_def)
qed

lemma chunck_capacity_unat: "c < 24 \<Longrightarrow> unat (chunck_capacity (of_nat c)) = chunk_cap c"
  by (subst chunck_capacity_eq) (auto simp: chunk_cap_def unat_exp_32)

lemma chunk_index_eq:
  assumes "n < 2 ^ 32"
  shows "saturating_sub (NUM_CHUNKS - 1) (leading_zeros (of_nat n)) = of_nat (chunk_of n)"
proof -
  have bw: "bit_width n \<le> 32" using assms by (rule bit_width_le)
  have lz: "leading_zeros (of_nat n) = of_nat (32 - bit_width n)"
    using assms by (simp add: leading_zeros_def)
  have u: "unat (of_nat (32 - bit_width n) :: u32) = 32 - bit_width n" by simp
  show ?thesis
  proof (cases "bit_width n \<le> 9")
    case True
    then have c: "chunk_of n = 0" "32 - bit_width n \<ge> 23" by (auto simp: chunk_of_def)
    then have "(of_nat (32 - bit_width n) :: u32) \<ge> 23" using u by (simp add: word_le_nat_alt del: of_nat_diff)
    then show ?thesis using c by (auto simp: lz saturating_sub_def NUM_CHUNKS_def simp del: of_nat_diff)
  next
    case False
    then have "(of_nat (32 - bit_width n) :: u32) \<le> 23" using bw u by (simp add: word_le_nat_alt)
    moreover have "of_nat (bit_width n - 9) + (of_nat (32 - bit_width n) :: u32) = of_nat 23"
      using False bw unfolding of_nat_add [symmetric] by simp
    ultimately show ?thesis
      by (simp add: lz saturating_sub_def NUM_CHUNKS_def chunk_of_def algebra_simps)
  qed
qed

lemma index_in_chunk_eq:
  assumes "n < 2 ^ 32"
  shows "of_nat n AND NOT (chunck_capacity (of_nat (chunk_of n))) = (of_nat (n - chunk_base (chunk_of n)) :: u32)"
proof -
  define k where "k = max (chunk_of n) 1 + 8"
  note c = chunk_of_less [OF assms]
  have k: "k < 32" using c by (simp add: k_def)
  have k_nz: "chunk_of n \<noteq> 0 \<Longrightarrow> k = chunk_of n + 8" by (simp add: k_def)
  have b: "chunk_base (chunk_of n) \<le> n" "n < chunk_base (chunk_of n) + 2 ^ k"
    using chunk_of_bounds [of n] by (simp_all add: chunk_cap_def k_def)
  have "bit n k \<longleftrightarrow> chunk_of n \<noteq> 0"
  proof (cases "chunk_of n = 0")
    case True
    then have "n < 2 ^ k" using b by (simp add: chunk_base_def)
    then show ?thesis using True by (simp add: bit_nat_def)
  next
    case False
    note k_nz [OF False]
    with b False have "2 ^ k \<le> n" "n < 2 ^ k + 2 ^ k" by (simp_all add: chunk_base_def)
    then have "n div 2 ^ k = 1" by (intro div_nat_eqI) auto
    then show ?thesis using False by (simp add: bit_nat_def)
  qed
  then have "bit (of_nat n :: u32) k \<longleftrightarrow> chunk_of n \<noteq> 0" using k by (simp add: bit_of_nat_iff)
  then have "unset_bit k (of_nat n :: u32) = of_nat n - of_nat (chunk_base (chunk_of n))"
    by (cases "chunk_of n = 0") (simp_all add: unset_bit_eq chunk_base_def k_nz)
  moreover have "of_nat n AND NOT (chunck_capacity (of_nat (chunk_of n))) = unset_bit k (of_nat n :: u32)"
    using chunck_capacity_eq [OF c] by (simp add: unset_bit_def push_bit_eq_mult k_def)
  ultimately show ?thesis using b(1) by (simp add: of_nat_diff)
qed

lemma chunk_with_index_eq:
  "n < 2 ^ 32 \<Longrightarrow> chunk_with_index (of_nat n) =
     (of_nat (chunk_of n), of_nat (n - chunk_base (chunk_of n)), of_nat (chunk_cap (chunk_of n)))"
  using index_in_chunk_eq [of n] chunck_capacity_eq [of "chunk_of n"]
  by (simp add: chunk_with_index_def chunk_index_eq chunk_of_less chunk_cap_def Let_def del: of_nat_diff)


lemma chunk_word_cases:
  obtains c j cap where "chunk_with_index w = (of_nat c, of_nat j, of_nat cap)"
    and "c < 24" "c = chunk_of (unat w)" "cap = chunk_cap c" "unat w = chunk_base c + j" "j < cap"
    and "cap \<le> 2 ^ 31" "unat (of_nat j :: u32) = j" "unat (of_nat cap :: u32) = cap" "unat (of_nat c :: u32) = c"
proof -
  let ?n = "unat w" let ?c = "chunk_of ?n" let ?j = "?n - chunk_base ?c"
  have n: "?n < 2 ^ 32" using unat_lt_32 [of w] by simp
  have c: "?c < 24" using n by (rule chunk_of_less)
  have "chunk_cap ?c \<le> 2 ^ (23 + 8)" unfolding chunk_cap_def using c by (intro power_increasing) auto
  then have cap: "chunk_cap ?c \<le> 2 ^ 31" by simp
  have j: "?n = chunk_base ?c + ?j" "?j < chunk_cap ?c" using chunk_of_bounds [of ?n] by simp_all
  show thesis
    using that [of ?c ?j "chunk_cap ?c"] chunk_with_index_eq [OF n] n c cap j
    by (simp del: of_nat_diff)
qed

section \<open>The loop of set_slice\<close>

lemma Chunk_set_slice_len:
  "Chunk_set_slice ch index es cap = (ch', len) \<Longrightarrow> len = min (unat (cap - index)) (length es)"
  by (auto simp: Chunk_set_slice_def Let_def)

lemma chunk_room: "chunk_with_index w = (c, index, cap) \<Longrightarrow> 0 < unat (cap - index)"
proof -
  assume w: "chunk_with_index w = (c, index, cap)"
  obtain d j k where "chunk_with_index w = (of_nat d, of_nat j, of_nat k)" "j < k"
      "unat (of_nat j :: u32) = j" "unat (of_nat k :: u32) = k"
    by (rule chunk_word_cases [of w])
  with w have "unat index < unat cap" by (simp del: unat_of_nat_32)
  then have "cap - index \<noteq> 0" by auto
  then show ?thesis unfolding unat_gt_0 .
qed

function FreeBuffer_set_slice :: "FreeBuffer \<Rightarrow> u32 \<Rightarrow> Entity list \<Rightarrow> FreeBuffer" where
  "FreeBuffer_set_slice buf full_index entities =
     (if entities = [] then buf
      else case chunk_with_index full_index of (c, index, chunk_capacity) \<Rightarrow>
        case Chunk_set_slice (buf ! unat c) index entities chunk_capacity of (chunk, len) \<Rightarrow>
          FreeBuffer_set_slice (buf[unat c := chunk]) (full_index + of_nat len) (drop len entities))"
  by pat_completeness auto

termination
  by (relation "measure (\<lambda>(buf, full_index, entities). length entities)")
     (auto dest!: Chunk_set_slice_len chunk_room [OF sym] Chunk_set_slice_len [OF sym])

declare FreeBuffer_set_slice.simps [simp del]

section \<open>The buffer as an indexed store\<close>

definition buf_wf :: "FreeBuffer \<Rightarrow> bool" where
  "buf_wf buf \<longleftrightarrow> length buf = 24 \<and>
     (\<forall>c < 24. \<forall>head. buf ! c = Some head \<longrightarrow> length head = chunk_cap c)"

lemma buf_wf_new: "buf_wf FreeBuffer_new"
  by (simp add: buf_wf_def FreeBuffer_new_def NUM_CHUNKS_def Chunk_new_def)

lemma FreeBuffer_get_wf:
  assumes "buf_wf buf" "n < 2 ^ 32"
  shows "FreeBuffer_get buf (of_nat n) =
     map_option (\<lambda>head. head ! (n - chunk_base (chunk_of n))) (buf ! chunk_of n)"
proof -
  let ?c = "chunk_of n"
  have c: "?c < 24" using assms(2) by (rule chunk_of_less)
  have j: "n - chunk_base ?c < chunk_cap ?c" "n - chunk_base ?c < 4294967296"
    using chunk_of_bounds [of n] assms(2) by auto
  show ?thesis
    using assms c j
    by (auto simp: FreeBuffer_get_def chunk_with_index_eq Chunk_get_def buf_wf_def
        simp del: of_nat_diff split: option.splits)
qed

lemma Chunk_set_slice_nth:
  assumes "\<And>head. ch = Some head \<Longrightarrow> length head = k" "j < k" "k \<le> 2 ^ 31"
    and "Chunk_set_slice ch (of_nat j) es (of_nat k) = (ch', len)"
  shows "len = min (k - j) (length es)"
    and "\<exists>head'. ch' = Some head' \<and> length head' = k \<and>
      (\<forall>i < len. head' ! (j + i) = es ! i) \<and>
      (\<forall>head i. ch = Some head \<longrightarrow> i < k \<longrightarrow> i < j \<or> j + len \<le> i \<longrightarrow> head' ! i = head ! i)"
proof -
  have u: "unat (of_nat j :: u32) = j" "unat (of_nat k :: u32) = k" using assms(2,3) by simp_all
  then have "(of_nat j :: u32) \<le> of_nat k" using assms(2) by (simp add: word_le_nat_alt)
  then have d: "unat (of_nat k - of_nat j :: u32) = k - j" by (simp only: unat_minus_le u)
  define old where "old = (case ch of None \<Rightarrow> Chunk_alloc (of_nat k) | Some head \<Rightarrow> head)"
  have old: "length old = k" "\<And>head. ch = Some head \<Longrightarrow> old = head"
    using assms(1) u by (auto simp: old_def Chunk_alloc_def split: option.splits)
  from assms(4) have len: "len = min (k - j) (length es)"
    and ch': "ch' = Some (take j old @ take len es @ drop (j + len) old)"
    by (auto simp: Chunk_set_slice_def Let_def d u old_def simp del: unat_of_nat_32)
  show "len = min (k - j) (length es)" by (fact len)
  show "\<exists>head'. ch' = Some head' \<and> length head' = k \<and>
      (\<forall>i < len. head' ! (j + i) = es ! i) \<and>
      (\<forall>head i. ch = Some head \<longrightarrow> i < k \<longrightarrow> i < j \<or> j + len \<le> i \<longrightarrow> head' ! i = head ! i)"
    unfolding ch' using old len assms(2) by (auto simp: nth_append min_def)
qed

lemma set_chunk:
  assumes wf: "buf_wf buf" and n: "n < 2 ^ 32"
    and s: "Chunk_set_slice (buf ! chunk_of n) (of_nat (n - chunk_base (chunk_of n))) es
        (of_nat (chunk_cap (chunk_of n))) = (ch, len)"
  shows "buf_wf (buf[chunk_of n := ch])"
    and "n + len \<le> 2 ^ 32" "len \<le> length es" "es \<noteq> [] \<Longrightarrow> 0 < len"
    and "m < 2 ^ 32 \<Longrightarrow> n \<le> m \<Longrightarrow> m < n + len \<Longrightarrow>
      FreeBuffer_get (buf[chunk_of n := ch]) (of_nat m) = Some (es ! (m - n))"
    and "m < 2 ^ 32 \<Longrightarrow> \<not> (n \<le> m \<and> m < n + len) \<Longrightarrow> FreeBuffer_get buf (of_nat m) = Some e \<Longrightarrow>
      FreeBuffer_get (buf[chunk_of n := ch]) (of_nat m) = Some e"
proof -
  let ?c = "chunk_of n" let ?b = "chunk_base ?c" let ?j = "n - ?b"
  have c: "?c < 24" using n by (rule chunk_of_less)
  have "chunk_cap ?c \<le> 2 ^ (23 + 8)" unfolding chunk_cap_def using c by (intro power_increasing) auto
  then have k: "chunk_cap ?c \<le> 2 ^ 31" by simp
  have b: "?b \<le> n" "?j < chunk_cap ?c" using chunk_of_bounds [of n] by auto
  have "?b + chunk_cap ?c \<le> chunk_base 24"
    using c by (rule chunk_base_mono)
  then have top: "?b + chunk_cap ?c \<le> 2 ^ 32" by (simp add: chunk_base_def)
  have old: "\<And>head. buf ! ?c = Some head \<Longrightarrow> length head = chunk_cap ?c"
    using wf c by (auto simp: buf_wf_def)
  note slice = Chunk_set_slice_nth [OF old b(2) k s]
  then obtain head' where ch: "ch = Some head'" and h: "length head' = chunk_cap ?c"
      and new: "\<And>i. i < len \<Longrightarrow> head' ! (?j + i) = es ! i"
      and frame: "\<And>head i. buf ! ?c = Some head \<Longrightarrow> i < chunk_cap ?c \<Longrightarrow> i < ?j \<or> ?j + len \<le> i \<Longrightarrow>
        head' ! i = head ! i"
    by blast
  note len = slice(1)
  show wf': "buf_wf (buf[?c := ch])"
    using wf h ch c by (auto simp: buf_wf_def nth_list_update)
  show "n + len \<le> 2 ^ 32" "len \<le> length es" "es \<noteq> [] \<Longrightarrow> 0 < len"
    using len b top by auto
  have lb: "length buf = 24" using wf by (simp add: buf_wf_def)
  show "FreeBuffer_get (buf[?c := ch]) (of_nat m) = Some (es ! (m - n))"
    if m: "m < 2 ^ 32" "n \<le> m" "m < n + len"
  proof -
    have cm: "chunk_of m = ?c" using m b len by (intro chunk_of_unique) auto
    have "m - ?b = ?j + (m - n)" using m b by auto
    then have "head' ! (m - ?b) = es ! (m - n)" using new [of "m - n"] m by auto
    then show ?thesis using FreeBuffer_get_wf [OF wf' m(1)] ch c lb by (simp add: cm)
  qed
  show "FreeBuffer_get (buf[?c := ch]) (of_nat m) = Some e"
    if m: "m < 2 ^ 32" "\<not> (n \<le> m \<and> m < n + len)" "FreeBuffer_get buf (of_nat m) = Some e"
  proof (cases "chunk_of m = ?c")
    case False
    then show ?thesis
      using m(3) FreeBuffer_get_wf [OF wf' m(1)] FreeBuffer_get_wf [OF wf m(1)] by simp
  next
    case True
    then obtain head where hd: "buf ! ?c = Some head" "head ! (m - ?b) = e"
      using m(3) FreeBuffer_get_wf [OF wf m(1)] by auto
    have mb: "?b \<le> m" "m < ?b + chunk_cap ?c" using chunk_of_bounds [of m] True by auto
    then have "head' ! (m - ?b) = head ! (m - ?b)"
      using m(2) b by (intro frame [OF hd(1)]) auto
    then show ?thesis using FreeBuffer_get_wf [OF wf' m(1)] ch c lb True hd by simp
  qed
qed
lemma FreeBuffer_set_slice_spec:
  assumes "buf_wf buf" "n + length es \<le> 2 ^ 32"
  shows "buf_wf (FreeBuffer_set_slice buf (of_nat n) es) \<and>
    (\<forall>m < 2 ^ 32. n \<le> m \<and> m < n + length es \<longrightarrow>
       FreeBuffer_get (FreeBuffer_set_slice buf (of_nat n) es) (of_nat m) = Some (es ! (m - n))) \<and>
    (\<forall>m < 2 ^ 32. \<forall>e. \<not> (n \<le> m \<and> m < n + length es) \<longrightarrow> FreeBuffer_get buf (of_nat m) = Some e \<longrightarrow>
       FreeBuffer_get (FreeBuffer_set_slice buf (of_nat n) es) (of_nat m) = Some e)"
  using assms
proof (induction "length es" arbitrary: buf n es rule: less_induct)
  case less
  show ?case
  proof (cases "es = []")
    case True
    then show ?thesis using less.prems by (auto simp: FreeBuffer_set_slice.simps)
  next
    case False
    with less.prems have n: "n < 2 ^ 32" by (cases es) auto
    let ?c = "chunk_of n"
    obtain ch len where s: "Chunk_set_slice (buf ! ?c) (of_nat (n - chunk_base ?c)) es
        (of_nat (chunk_cap ?c)) = (ch, len)"
      by (cases "Chunk_set_slice (buf ! ?c) (of_nat (n - chunk_base ?c)) es (of_nat (chunk_cap ?c))") auto
    have c: "?c mod 4294967296 = ?c" using chunk_of_less [OF n] by simp
    have loop: "FreeBuffer_set_slice buf (of_nat n) es =
        FreeBuffer_set_slice (buf[?c := ch]) (of_nat (n + len)) (drop len es)"
      using False n s c
      by (subst FreeBuffer_set_slice.simps) (simp add: chunk_with_index_eq del: of_nat_diff)
    note step = set_chunk [OF less.prems(1) n s]
    have IH: "length (drop len es) < length es" "n + len + length (drop len es) \<le> 2 ^ 32"
      using step(2-4) False less.prems(2) by auto
    note rec = less.hyps [OF IH(1) step(1) IH(2)]
    have "FreeBuffer_get (FreeBuffer_set_slice buf (of_nat n) es) (of_nat m) = Some (es ! (m - n))"
      if m: "m < 2 ^ 32" "n \<le> m" "m < n + length es" for m
    proof (cases "m < n + len")
      case True
      then show ?thesis using rec step(5) [of m] m by (simp add: loop)
    next
      case False
      then have "drop len es ! (m - (n + len)) = es ! (m - n)"
        using step(3) m by (simp add: nth_drop)
      moreover have "n + len \<le> m" "m < n + len + length (drop len es)" using False m step(3) by auto
      ultimately show ?thesis using rec m unfolding loop by auto
    qed
    moreover have "FreeBuffer_get (FreeBuffer_set_slice buf (of_nat n) es) (of_nat m) = Some e"
      if m: "m < 2 ^ 32" "\<not> (n \<le> m \<and> m < n + length es)" "FreeBuffer_get buf (of_nat m) = Some e" for m e
    proof -
      have "\<not> (n \<le> m \<and> m < n + len)" "\<not> (n + len \<le> m \<and> m < n + len + length (drop len es))"
        using m(2) step(3) by auto
      then show ?thesis using rec step(6) [OF m(1) _ m(3)] m(1) unfolding loop by blast
    qed
    ultimately show ?thesis using rec unfolding loop by blast
  qed
qed

text \<open>What the free list relies on: an indexed store, written in slices.\<close>

definition filled :: "(nat \<Rightarrow> Entity option) \<Rightarrow> nat \<Rightarrow> bool" where
  "filled g n \<longleftrightarrow> (\<forall>i < n. g i \<noteq> None)"

definition contents :: "(nat \<Rightarrow> Entity option) \<Rightarrow> nat \<Rightarrow> Entity list" where
  "contents g n = map (\<lambda>i. the (g i)) [0..<n]"

lemma length_contents [simp]: "length (contents g n) = n"
  by (simp add: contents_def)

lemma take_contents: "m \<le> n \<Longrightarrow> take m (contents g n) = contents g m"
  by (simp add: contents_def take_map)

lemma drop_contents: "drop m (contents g n) = map (\<lambda>i. the (g i)) [m..<n]"
  by (simp add: contents_def drop_map)

lemma filled_mono: "filled g n \<Longrightarrow> m \<le> n \<Longrightarrow> filled g m"
  by (auto simp: filled_def)

lemma nth_contents: "i < n \<Longrightarrow> contents g n ! i = the (g i)"
  by (simp add: contents_def)

locale entity_store =
  fixes get :: "'b \<Rightarrow> nat \<Rightarrow> Entity option"
    and put :: "'b \<Rightarrow> nat \<Rightarrow> Entity list \<Rightarrow> 'b"
    and ok :: "'b \<Rightarrow> bool"
    and cap :: nat
  assumes ok_put: "ok b \<Longrightarrow> n + length es \<le> cap \<Longrightarrow> ok (put b n es)"
    and get_put_same: "ok b \<Longrightarrow> n + length es \<le> cap \<Longrightarrow> n \<le> m \<Longrightarrow> m < n + length es \<Longrightarrow>
      get (put b n es) m = Some (es ! (m - n))"
    and get_put_other: "ok b \<Longrightarrow> n + length es \<le> cap \<Longrightarrow> m < n \<Longrightarrow> get b m = Some e \<Longrightarrow>
      get (put b n es) m = Some e"
begin

lemma filled_put:
  assumes "ok b" "n + length es \<le> cap" "filled (get b) n"
  shows "filled (get (put b n es)) (n + length es)"
  unfolding filled_def
proof (intro allI impI)
  fix m assume m: "m < n + length es"
  show "get (put b n es) m \<noteq> None"
  proof (cases "m < n")
    case True
    then obtain e where "get b m = Some e" using assms(3) by (auto simp: filled_def)
    then show ?thesis using get_put_other [OF assms(1,2) True] by simp
  next
    case False
    then show ?thesis using get_put_same [OF assms(1,2), of m] m by simp
  qed
qed

lemma contents_put:
  assumes "ok b" "n + length es \<le> cap" "filled (get b) n"
  shows "contents (get (put b n es)) (n + length es) = contents (get b) n @ es"
proof (rule nth_equalityI)
  fix m assume "m < length (contents (get (put b n es)) (n + length es))"
  then have m: "m < n + length es" by simp
  show "contents (get (put b n es)) (n + length es) ! m = (contents (get b) n @ es) ! m"
  proof (cases "m < n")
    case True
    then obtain e where "get b m = Some e" using assms(3) by (auto simp: filled_def)
    then show ?thesis using get_put_other [OF assms(1,2) True] m True by (simp add: nth_contents nth_append)
  next
    case False
    then show ?thesis using get_put_same [OF assms(1,2), of m] m by (simp add: nth_contents nth_append)
  qed
qed simp

end

interpretation fb: entity_store
  "\<lambda>b n. FreeBuffer_get b (of_nat n)" "\<lambda>b n es. FreeBuffer_set_slice b (of_nat n) es" buf_wf "2 ^ 32"
proof (unfold_locales, goal_cases)
  case (1 b n es)
  then show ?case using FreeBuffer_set_slice_spec [of b n es] by blast
next
  case (2 b n es m)
  then have "m < 2 ^ 32" by linarith
  with 2 show ?case using FreeBuffer_set_slice_spec [of b n es] by blast
next
  case (3 b n es m e)
  then have "m < 2 ^ 32" by linarith
  with 3 show ?case using FreeBuffer_set_slice_spec [of b n es] by auto
qed
section \<open>FreeBufferIter\<close>

record FreeBufferIter =
  it_buffer :: FreeBuffer
  it_current :: "Entity list"
  it_start :: u32
  it_end :: u32

definition FreeBuffer_iter :: "FreeBuffer \<Rightarrow> u32 \<Rightarrow> u32 \<Rightarrow> FreeBufferIter" where
  "FreeBuffer_iter buf a b = \<lparr>it_buffer = buf, it_current = [], it_start = a, it_end = b\<rparr>"

text \<open>The length of a \<open>Range<u32>\<close>.\<close>

definition range_len :: "u32 \<Rightarrow> u32 \<Rightarrow> u32" where
  "range_len a b = (if a < b then b - a else 0)"

definition slow_next :: "FreeBufferIter \<Rightarrow> u32 \<Rightarrow> (Entity option \<times> FreeBufferIter) option" where
  "slow_next this required =
     (let next_index = it_start this
      in case chunk_with_index next_index of (c, index, capacity) \<Rightarrow>
           case Chunk_get_slice (it_buffer this ! unat c) index required capacity of
             None \<Rightarrow> None
           | Some [] \<Rightarrow> None
           | Some (e # rest) \<Rightarrow>
               Some (Some e, this\<lparr>it_start := next_index + of_nat (length (e # rest)), it_current := rest\<rparr>))"

definition FreeBufferIter_next :: "FreeBufferIter \<Rightarrow> (Entity option \<times> FreeBufferIter) option" where
  "FreeBufferIter_next it =
     (case it_current it of
        e # rest \<Rightarrow> Some (Some e, it\<lparr>it_current := rest\<rparr>)
      | [] \<Rightarrow>
          (let still_need = range_len (it_start it) (it_end it)
           in if still_need = 0 then Some (None, it) else slow_next it still_need))"

definition FreeBufferIter_len :: "FreeBufferIter \<Rightarrow> nat" where
  "FreeBufferIter_len it = length (it_current it) + unat (range_len (it_start it) (it_end it))"

lemma range_len_step:
  assumes "0 < l" "l \<le> unat (range_len a b)"
  shows "unat (range_len (a + of_nat l) b) = unat (range_len a b) - l"
proof -
  have ab: "a < b" using assms by (auto simp: range_len_def split: if_splits)
  then have r: "range_len a b = b - a" "unat (b - a) = unat b - unat a"
    by (simp_all add: range_len_def unat_minus_le)
  have "unat a + l \<le> unat b" using assms(2) ab unfolding r by (simp add: word_less_nat_alt)
  moreover from this have u: "unat (a + of_nat l) = unat a + l"
    using unat_lt_32 [of b] by (simp add: unat_word_ariths)
  ultimately show ?thesis
    unfolding r by (auto simp: range_len_def word_less_nat_alt unat_minus_le word_le_nat_alt)
qed

lemma Chunk_get_slice_len:
  "Chunk_get_slice ch index required cap = Some xs \<Longrightarrow> length xs = unat (min (cap - index) required)"
  by (auto simp: Chunk_get_slice_def Let_def split: option.splits if_splits)

lemma slow_next_len:
  assumes "slow_next it (range_len (it_start it) (it_end it)) = Some (Some e, it')" "it_current it = []"
  shows "FreeBufferIter_len it' < FreeBufferIter_len it"
proof -
  obtain c index cap where c: "chunk_with_index (it_start it) = (c, index, cap)"
    by (cases "chunk_with_index (it_start it)") auto
  from assms(1) c obtain rest where
    g: "Chunk_get_slice (it_buffer it ! unat c) index (range_len (it_start it) (it_end it)) cap = Some (e # rest)"
    and it': "it' = it\<lparr>it_start := it_start it + of_nat (length (e # rest)), it_current := rest\<rparr>"
    by (auto simp: slow_next_def Let_def split: option.splits list.splits)
  have "length (e # rest) \<le> unat (range_len (it_start it) (it_end it))"
    unfolding Chunk_get_slice_len [OF g] by (simp add: word_le_nat_alt [symmetric])
  from range_len_step [OF _ this] this show ?thesis
    using assms(2) by (simp add: FreeBufferIter_len_def it')
qed

lemma FreeBufferIter_next_len:
  "FreeBufferIter_next it = Some (Some e, it') \<Longrightarrow> FreeBufferIter_len it' < FreeBufferIter_len it"
  using slow_next_len [of it e it']
  by (auto simp: FreeBufferIter_next_def Let_def FreeBufferIter_len_def split: list.splits if_splits)

text \<open>Consuming the iterator to its end.\<close>

function FreeBufferIter_collect :: "FreeBufferIter \<Rightarrow> Entity list option" where
  "FreeBufferIter_collect it =
     (case FreeBufferIter_next it of
        None \<Rightarrow> None
      | Some (None, it') \<Rightarrow> Some []
      | Some (Some e, it') \<Rightarrow> map_option (Cons e) (FreeBufferIter_collect it'))"
  by pat_completeness auto

termination
  by (relation "measure FreeBufferIter_len") (auto intro: FreeBufferIter_next_len)

declare FreeBufferIter_collect.simps [simp del]

lemma slow_next_filled:
  assumes wf: "buf_wf buf" and r: "s < e" "e < 2 ^ 32"
    and f: "\<And>i. s \<le> i \<Longrightarrow> i < e \<Longrightarrow> FreeBuffer_get buf (of_nat i) = Some (g i)"
    and it: "it = \<lparr>it_buffer = buf, it_current = [], it_start = of_nat s, it_end = of_nat e\<rparr>"
  obtains l where "0 < l" "s + l \<le> e"
    and "slow_next it (range_len (of_nat s) (of_nat e)) =
      Some (Some (g s), it\<lparr>it_start := of_nat (s + l), it_current := map g [Suc s..<s + l]\<rparr>)"
proof -
  let ?c = "chunk_of s" let ?b = "chunk_base ?c" let ?j = "s - ?b" let ?k = "chunk_cap ?c"
  have s: "s < 2 ^ 32" using r by simp
  have c: "?c < 24" using s by (rule chunk_of_less)
  have b: "?b \<le> s" "s < ?b + ?k" using chunk_of_bounds [of s] by auto
  have "?k \<le> 2 ^ (23 + 8)" unfolding chunk_cap_def using c by (intro power_increasing) auto
  then have k: "?k \<le> 2 ^ 31" by simp
  define l where "l = min (?k - ?j) (e - s)"
  have l: "0 < l" "s + l \<le> e" using b r by (auto simp: l_def)
  have u: "unat (of_nat ?j :: u32) = ?j" "unat (of_nat ?k :: u32) = ?k" "unat (of_nat ?c :: u32) = ?c"
    "unat (of_nat s :: u32) = s" "unat (of_nat e :: u32) = e" using s r k b c by (simp_all del: of_nat_diff)
  have "(of_nat ?j :: u32) \<le> of_nat ?k" "(of_nat s :: u32) < of_nat e"
    using b r u by (simp_all add: word_le_nat_alt word_less_nat_alt)
  then have d: "unat (of_nat ?k - of_nat ?j :: u32) = ?k - ?j"
      "unat (range_len (of_nat s) (of_nat e)) = e - s"
    using u by (simp_all only: unat_minus_le range_len_def if_True less_imp_le)
  have len: "unat (min (of_nat ?k - of_nat ?j) (range_len (of_nat s) (of_nat e))) = l"
    using d by (simp add: l_def min_def word_le_nat_alt del: of_nat_diff unat_of_nat_32)
  obtain head where hd: "buf ! ?c = Some head" "length head = ?k"
    using f [of s] r FreeBuffer_get_wf [OF wf s] wf c by (auto simp: buf_wf_def)
  have "?j + l \<le> length head" using hd b by (auto simp: l_def)
  then have slice: "Chunk_get_slice (buf ! ?c) (of_nat ?j) (range_len (of_nat s) (of_nat e)) (of_nat ?k)
      = Some (take l (drop ?j head))"
    by (simp add: Chunk_get_slice_def Let_def len hd(1) u del: of_nat_diff unat_of_nat_32)
  have "take l (drop ?j head) = map g [s..<s + l]"
  proof (rule nth_equalityI)
    show "length (take l (drop ?j head)) = length (map g [s..<s + l])"
      using \<open>?j + l \<le> length head\<close> by simp
    fix i assume "i < length (take l (drop ?j head))"
    then have i: "i < l" by simp
    have "chunk_of (s + i) = ?c" using b i by (intro chunk_of_unique) (auto simp: l_def)
    moreover have "s + i < 2 ^ 32" using i l r by linarith
    moreover have "s + i - ?b = ?j + i" using b by simp
    ultimately have "head ! (?j + i) = g (s + i)"
      using f [of "s + i"] FreeBuffer_get_wf [OF wf, of "s + i"] hd i l by simp
    then show "take l (drop ?j head) ! i = map g [s..<s + l] ! i"
      using i \<open>?j + l \<le> length head\<close> by simp
  qed
  also have "\<dots> = g s # map g [Suc s..<s + l]" using l by (simp add: upt_conv_Cons)
  finally have xs: "take l (drop ?j head) = g s # map g [Suc s..<s + l]" .
  have "slow_next it (range_len (of_nat s) (of_nat e)) =
      Some (Some (g s), it\<lparr>it_start := of_nat s + of_nat (length (g s # map g [Suc s..<s + l])),
        it_current := map g [Suc s..<s + l]\<rparr>)"
    using slice xs c by (simp add: slow_next_def it chunk_with_index_eq [OF s] u(3) Let_def del: of_nat_diff unat_of_nat_32)
  moreover have "length (g s # map g [Suc s..<s + l]) = l" using l by simp
  ultimately show thesis using l by (intro that [of l]) (simp_all only: of_nat_add)
qed

lemma FreeBufferIter_collect_filled:
  assumes "buf_wf buf" "s \<le> e" "e < 2 ^ 32"
    and "\<And>i. s \<le> i \<Longrightarrow> i < e \<Longrightarrow> FreeBuffer_get buf (of_nat i) = Some (g i)"
  shows "FreeBufferIter_collect \<lparr>it_buffer = buf, it_current = cur, it_start = of_nat s, it_end = of_nat e\<rparr>
    = Some (cur @ map g [s..<e])"
  using assms(2-)
proof (induction "length cur + (e - s)" arbitrary: cur s rule: less_induct)
  case less
  let ?it = "\<lparr>it_buffer = buf, it_current = cur, it_start = of_nat s, it_end = of_nat e\<rparr>"
  show ?case
  proof (cases cur)
    case (Cons x xs)
    then show ?thesis
      using less.hyps [of xs s] less.prems
      by (subst FreeBufferIter_collect.simps) (simp add: FreeBufferIter_next_def)
  next
    case Nil
    have se: "(of_nat s :: u32) < of_nat e \<longleftrightarrow> s < e"
      using less.prems by (simp add: word_less_nat_alt)
    show ?thesis
    proof (cases "s < e")
      case False
      then show ?thesis using less.prems Nil
        by (subst FreeBufferIter_collect.simps) (simp add: FreeBufferIter_next_def range_len_def)
    next
      case True
      obtain l where l: "0 < l" "s + l \<le> e" "slow_next ?it (range_len (of_nat s) (of_nat e)) =
        Some (Some (g s), ?it\<lparr>it_start := of_nat (s + l), it_current := map g [Suc s..<s + l]\<rparr>)"
        using slow_next_filled [OF assms(1) True less.prems(2,3), of ?it] Nil by metis
      have "range_len (of_nat s) (of_nat e) \<noteq> 0"
        using True se by (simp add: range_len_def)
      then have "FreeBufferIter_next ?it =
        Some (Some (g s), ?it\<lparr>it_start := of_nat (s + l), it_current := map g [Suc s..<s + l]\<rparr>)"
        using l(3) Nil by (simp add: FreeBufferIter_next_def Let_def)
      moreover have "map g [s..<e] = g s # map g [Suc s..<s + l] @ map g [s + l..<e]"
        using l(1,2) upt_add_eq_append [of "Suc s" "s + l" "e - (s + l)"] True
        by (simp add: upt_conv_Cons flip: map_append)
      ultimately show ?thesis
        using less.hyps [of "map g [Suc s..<s + l]" "s + l"] l(1,2) less.prems Nil
        by (subst FreeBufferIter_collect.simps) simp
    qed
  qed
qed
section \<open>Properties\<close>

text \<open>
  C7. The bit-trick addressing of the chunked table is a layout: every 32-bit index lands in one of
  the 24 chunks, inside that chunk's capacity, and no two indices share a slot.
\<close>

theorem chunk_with_index_layout:
  assumes "chunk_with_index w = (c, j, cap)"
  shows "c < NUM_CHUNKS \<and> cap = chunck_capacity c \<and> j < cap \<and>
    (\<forall>w' cap'. chunk_with_index w' = (c, j, cap') \<longrightarrow> w' = w)"
proof -
  obtain d i k where d: "chunk_with_index w = (of_nat d, of_nat i, of_nat k)" "d < 24" "i < k"
      "unat w = chunk_base d + i" "unat (of_nat i :: u32) = i" "unat (of_nat k :: u32) = k"
      "unat (of_nat d :: u32) = d"
    by (rule chunk_word_cases [of w])
  then have w: "c = of_nat d" "j = of_nat i" "cap = of_nat k" "unat c = d" "unat j = i" "unat cap = k"
    using assms by auto
  have "w' = w" if w': "chunk_with_index w' = (c, j, cap')" for w' cap'
  proof -
    obtain d' i' k' where "chunk_with_index w' = (of_nat d', of_nat i', of_nat k')"
        "unat w' = chunk_base d' + i'" "unat (of_nat i' :: u32) = i'" "unat (of_nat d' :: u32) = d'"
      by (rule chunk_word_cases [of w'])
    with w' w(4,5) have "unat w' = chunk_base d + i" by auto
    with d(4) show ?thesis by (simp add: word_unat_eq_iff)
  qed
  moreover have "cap = chunck_capacity c"
    using assms by (auto simp: chunk_with_index_def Let_def)
  ultimately show ?thesis
    using d(2,3) w(4-6) by (simp add: word_less_nat_alt NUM_CHUNKS_def)
qed

theorem chunk_with_index_layout_witness:
  "chunk_with_index 1500 = (2, 476, 1024) \<and> (2 :: u32) < NUM_CHUNKS \<and> chunck_capacity 2 = 1024"
proof -
  have "bit_width 1500 = 11" by (simp add: bit_width.simps)
  then have "chunk_with_index 1500 = (2, 476, 1024)"
    using chunk_with_index_eq [of 1500] by (simp add: chunk_of_def chunk_base_def chunk_cap_def)
  with chunk_with_index_layout [OF this] show ?thesis by simp
qed

text \<open>
  C6. The chunked table stores what is written: after \<open>set_slice\<close> at any position, across any
  number of chunk borders, iterating over the written range terminates and yields exactly the slice, and every
  entity stored outside the range is still there.
\<close>

theorem set_slice_iter_roundtrip:
  assumes "buf_wf buf" "n + length es < 2 ^ 32"
  shows "FreeBufferIter_collect
      (FreeBuffer_iter (FreeBuffer_set_slice buf (of_nat n) es) (of_nat n) (of_nat (n + length es))) = Some es \<and>
    (\<forall>m < 2 ^ 32. \<forall>e. (m < n \<or> n + length es \<le> m) \<and> FreeBuffer_get buf (of_nat m) = Some e \<longrightarrow>
       FreeBuffer_get (FreeBuffer_set_slice buf (of_nat n) es) (of_nat m) = Some e)"
proof -
  let ?b = "FreeBuffer_set_slice buf (of_nat n) es"
  have spec: "buf_wf ?b"
    "\<And>m. m < 2 ^ 32 \<Longrightarrow> n \<le> m \<Longrightarrow> m < n + length es \<Longrightarrow> FreeBuffer_get ?b (of_nat m) = Some (es ! (m - n))"
    "\<And>m e. m < 2 ^ 32 \<Longrightarrow> \<not> (n \<le> m \<and> m < n + length es) \<Longrightarrow> FreeBuffer_get buf (of_nat m) = Some e \<Longrightarrow>
      FreeBuffer_get ?b (of_nat m) = Some e"
    using FreeBuffer_set_slice_spec [of buf n es] assms by auto
  have "FreeBufferIter_collect (FreeBuffer_iter ?b (of_nat n) (of_nat (n + length es))) =
      Some ([] @ map (\<lambda>i. es ! (i - n)) [n..<n + length es])"
    unfolding FreeBuffer_iter_def using assms(2) by (intro FreeBufferIter_collect_filled spec) auto
  moreover have "map (\<lambda>i. es ! (i - n)) [n..<n + length es] = es"
    by (rule nth_equalityI) auto
  ultimately show ?thesis using spec(3) by (auto simp: not_le)
qed

theorem set_slice_iter_roundtrip_witness:
  "FreeBufferIter_collect (FreeBuffer_iter
     (FreeBuffer_set_slice FreeBuffer_new 510 [Entity (EntityId 1) (EntityTag 0), Entity (EntityId 2) (EntityTag 0),
        Entity (EntityId 3) (EntityTag 0)]) 510 513) =
     Some [Entity (EntityId 1) (EntityTag 0), Entity (EntityId 2) (EntityTag 0), Entity (EntityId 3) (EntityTag 0)]"
  using set_slice_iter_roundtrip [OF buf_wf_new, of 510 "[Entity (EntityId 1) (EntityTag 0),
      Entity (EntityId 2) (EntityTag 0), Entity (EntityId 3) (EntityTag 0)]"] by simp
end
