(* ===== verification/EntityAlloc.thy ===== *)
theory EntityAlloc
  imports FreeBuffer
begin

text \<open>
  The entity allocator (\<open>crates/voker-ecs/src/entity/allocator.rs\<close>): the packed counter
  \<open>FreeCountState\<close>, the free list over the chunked table, the fresh-id counter, and the allocator of a
  world with its two local buffers. Atomic read-modify-write operations return the old value and
  the new one.
\<close>

section \<open>FreeCountState and FreeCount\<close>

datatype FreeCountState = FreeCountState (fc_raw: u64)

definition DISABLING_BIT :: u64 where
  "DISABLING_BIT = push_bit 33 1"

definition LENGTH_MASK :: u64 where
  "LENGTH_MASK = push_bit 32 1 OR ucast (- 1 :: u32)"

definition LENGTH_0 :: u64 where
  "LENGTH_0 = push_bit 32 1"

definition GENERATION_LEAST_BIT :: u64 where
  "GENERATION_LEAST_BIT = push_bit 34 1"

definition FreeCountState_zero :: FreeCountState where
  "FreeCountState_zero = FreeCountState LENGTH_0"

definition FreeCountState_length :: "FreeCountState \<Rightarrow> u32" where
  "FreeCountState_length s =
     (let unsigned_length = fc_raw s AND LENGTH_MASK
      in ucast (if unsigned_length \<ge> LENGTH_0 then unsigned_length - LENGTH_0 else 0))"

definition FreeCountState_is_disabled :: "FreeCountState \<Rightarrow> bool" where
  "FreeCountState_is_disabled s \<longleftrightarrow> (fc_raw s AND DISABLING_BIT) > 0"

definition FreeCountState_with_length :: "FreeCountState \<Rightarrow> u32 \<Rightarrow> FreeCountState" where
  "FreeCountState_with_length s len =
     (let length = ucast len OR LENGTH_0
      in FreeCountState ((fc_raw s AND NOT LENGTH_MASK) OR length))"

definition FreeCountState_encode_generation :: "u32 \<Rightarrow> u64" where
  "FreeCountState_encode_generation num = ucast num OR GENERATION_LEAST_BIT"

definition FreeCountState_pop :: "FreeCountState \<Rightarrow> u32 \<Rightarrow> FreeCountState" where
  "FreeCountState_pop s num = FreeCountState (fc_raw s - FreeCountState_encode_generation num)"

text \<open>The atomic operations on the counter: each returns (previous state, new state).\<close>

definition FreeCount_pop_for_state :: "FreeCountState \<Rightarrow> u32 \<Rightarrow> FreeCountState \<times> FreeCountState" where
  "FreeCount_pop_for_state s num =
     (s, FreeCountState (fc_raw s - FreeCountState_encode_generation num))"

definition FreeCount_disable_for_state :: "FreeCountState \<Rightarrow> FreeCountState \<times> FreeCountState" where
  "FreeCount_disable_for_state s = (s, FreeCountState (fc_raw s OR DISABLING_BIT))"

definition FreeCount_set_state_risky :: "FreeCountState \<Rightarrow> FreeCountState \<Rightarrow> FreeCountState" where
  "FreeCount_set_state_risky s state = state"

definition FreeCount_try_set_state ::
  "FreeCountState \<Rightarrow> FreeCountState \<Rightarrow> FreeCountState \<Rightarrow> (FreeCountState + unit) \<times> FreeCountState" where
  "FreeCount_try_set_state s expected target =
     (if s = expected then (Inr (), target) else (Inl s, s))"

section \<open>FreeList\<close>

record FreeList =
  fl_buffer :: FreeBuffer
  fl_len :: FreeCountState

definition FreeList_new :: FreeList where
  "FreeList_new = \<lparr>fl_buffer = FreeBuffer_new, fl_len = FreeCountState_zero\<rparr>"

definition FreeList_count :: "FreeList \<Rightarrow> u32" where
  "FreeList_count fl = FreeCountState_length (fl_len fl)"

definition FreeList_free :: "FreeList \<Rightarrow> Entity list \<Rightarrow> FreeList" where
  "FreeList_free fl entities =
     (case FreeCount_disable_for_state (fl_len fl) of (state, disabled) \<Rightarrow>
        let full_index = FreeCountState_length state;
            buffer = FreeBuffer_set_slice (fl_buffer fl) full_index entities;
            new_state = FreeCountState_with_length state (full_index + of_nat (length entities))
        in \<lparr>fl_buffer = buffer, fl_len = FreeCount_set_state_risky disabled new_state\<rparr>)"

definition FreeList_alloc :: "FreeList \<Rightarrow> Entity option outcome \<times> FreeList" where
  "FreeList_alloc fl =
     (case FreeCount_pop_for_state (fl_len fl) 1 of (state, len') \<Rightarrow>
        let len = FreeCountState_length state; fl' = fl\<lparr>fl_len := len'\<rparr>
        in if len = 0 then (Done None, fl')
           else (of_read (map_option Some (FreeBuffer_get (fl_buffer fl) (len - 1))), fl'))"

definition FreeList_alloc_many :: "FreeList \<Rightarrow> u32 \<Rightarrow> FreeBufferIter \<times> FreeList" where
  "FreeList_alloc_many fl num =
     (case FreeCount_pop_for_state (fl_len fl) num of (state, len') \<Rightarrow>
        let len = FreeCountState_length state;
            index = saturating_sub len num
        in (FreeBuffer_iter (fl_buffer fl) index len, fl\<lparr>fl_len := len'\<rparr>))"

text \<open>
  One round of the retry loop of \<open>remote_alloc\<close> on the thread's copy of the counter: \<open>Inl\<close> leaves the
  loop, \<open>Inr\<close> is the copy of the next round. The loop itself runs with a bound on its rounds.
\<close>

definition remote_alloc_round ::
  "FreeList \<Rightarrow> FreeCountState \<Rightarrow> (Entity option outcome + FreeCountState) \<times> FreeList" where
  "remote_alloc_round fl state =
     (if FreeCountState_is_disabled state then (Inr (fl_len fl), fl)
      else let len = FreeCountState_length state
           in if len = 0 then (Inl (Done None), fl)
              else case FreeBuffer_get (fl_buffer fl) (len - 1) of
                     None \<Rightarrow> (Inl Undef, fl)
                   | Some entity \<Rightarrow>
                       (case FreeCount_try_set_state (fl_len fl) state (FreeCountState_pop state 1) of
                          (Inr _, len') \<Rightarrow> (Inl (Done (Some entity)), fl\<lparr>fl_len := len'\<rparr>)
                        | (Inl actual, len') \<Rightarrow> (Inr actual, fl\<lparr>fl_len := len'\<rparr>)))"

fun remote_alloc_loop :: "nat \<Rightarrow> FreeList \<Rightarrow> FreeCountState \<Rightarrow> (Entity option outcome \<times> FreeList) option" where
  "remote_alloc_loop 0 fl state = None"
| "remote_alloc_loop (Suc rounds) fl state =
     (case remote_alloc_round fl state of
        (Inl r, fl') \<Rightarrow> Some (r, fl')
      | (Inr state', fl') \<Rightarrow> remote_alloc_loop rounds fl' state')"

definition FreeList_remote_alloc :: "nat \<Rightarrow> FreeList \<Rightarrow> (Entity option outcome \<times> FreeList) option" where
  "FreeList_remote_alloc rounds fl = remote_alloc_loop rounds fl (fl_len fl)"

section \<open>FreshAllocator\<close>

definition entity_from_u32 :: "u32 \<Rightarrow> Entity" where
  "entity_from_u32 i = Entity (EntityId i) EntityTag_FIRST"

datatype FreshAllocator = FreshAllocator (fresh_next_id: u32)

definition MAX_ENTITIES :: u32 where
  "MAX_ENTITIES = - 1"

definition FreshAllocator_new :: FreshAllocator where
  "FreshAllocator_new = FreshAllocator 1"

definition FreshAllocator_count :: "FreshAllocator \<Rightarrow> u32" where
  "FreshAllocator_count f = fresh_next_id f - 1"

definition FreshAllocator_alloc :: "FreshAllocator \<Rightarrow> Entity outcome \<times> FreshAllocator" where
  "FreshAllocator_alloc f =
     (let index = fresh_next_id f; f' = FreshAllocator (index + 1)
      in if index = MAX_ENTITIES then (Panic, f') else (Done (entity_from_u32 index), f'))"

datatype FreshEntityIter = FreshEntityIter (fei_start: u32) (fei_end: u32)

definition FreshEntityIter_next :: "FreshEntityIter \<Rightarrow> Entity option \<times> FreshEntityIter" where
  "FreshEntityIter_next it =
     (if fei_start it < fei_end it
      then (Some (entity_from_u32 (fei_start it)), FreshEntityIter (fei_start it + 1) (fei_end it))
      else (None, it))"

definition FreshEntityIter_len :: "FreshEntityIter \<Rightarrow> nat" where
  "FreshEntityIter_len it = unat (range_len (fei_start it) (fei_end it))"

lemma FreshEntityIter_next_len:
  "FreshEntityIter_next it = (Some e, it') \<Longrightarrow> FreshEntityIter_len it' < FreshEntityIter_len it"
proof -
  assume n: "FreshEntityIter_next it = (Some e, it')"
  then have lt: "fei_start it < fei_end it" and it': "it' = FreshEntityIter (fei_start it + 1) (fei_end it)"
    by (auto simp: FreshEntityIter_next_def split: if_splits)
  then have "range_len (fei_start it) (fei_end it) \<noteq> 0" by (simp add: range_len_def)
  then have "0 < unat (range_len (fei_start it) (fei_end it))" unfolding unat_gt_0 .
  then show ?thesis
    using range_len_step [of 1 "fei_start it" "fei_end it"] by (simp add: FreshEntityIter_len_def it')
qed

function FreshEntityIter_collect :: "FreshEntityIter \<Rightarrow> Entity list" where
  "FreshEntityIter_collect it =
     (case FreshEntityIter_next it of
        (None, _) \<Rightarrow> []
      | (Some e, it') \<Rightarrow> e # FreshEntityIter_collect it')"
  by pat_completeness auto

termination
  by (relation "measure FreshEntityIter_len") (auto intro: FreshEntityIter_next_len [OF sym])

declare FreshEntityIter_collect.simps [simp del]

definition FreshAllocator_alloc_many :: "FreshAllocator \<Rightarrow> u32 \<Rightarrow> FreshEntityIter outcome \<times> FreshAllocator" where
  "FreshAllocator_alloc_many f num =
     (if num = 0 then (Done (FreshEntityIter 0 0), f)
      else let start = fresh_next_id f; f' = FreshAllocator (start + num)
           in if start > MAX_ENTITIES - num then (Panic, f')
              else (Done (FreshEntityIter start (start + num)), f'))"

section \<open>AllocEntitiesIter\<close>

record AllocEntitiesIter =
  aei_fresh :: FreshEntityIter
  aei_reused :: FreeBufferIter

definition AllocEntitiesIter_next :: "AllocEntitiesIter \<Rightarrow> (Entity option \<times> AllocEntitiesIter) option" where
  "AllocEntitiesIter_next it =
     (case FreeBufferIter_next (aei_reused it) of
        None \<Rightarrow> None
      | Some (Some e, reused') \<Rightarrow> Some (Some e, it\<lparr>aei_reused := reused'\<rparr>)
      | Some (None, reused') \<Rightarrow>
          (case FreshEntityIter_next (aei_fresh it) of
             (e, fresh') \<Rightarrow> Some (e, it\<lparr>aei_reused := reused', aei_fresh := fresh'\<rparr>)))"

definition AllocEntitiesIter_len :: "AllocEntitiesIter \<Rightarrow> nat" where
  "AllocEntitiesIter_len it = FreeBufferIter_len (aei_reused it) + FreshEntityIter_len (aei_fresh it)"

section \<open>EntityAllocator and RemoteAllocator\<close>

definition LOCAL_CAP :: nat where
  "LOCAL_CAP = 127"

text \<open>The shared part behind the \<open>Arc\<close> and the two local buffers, bounded arrays of \<open>LOCAL_CAP\<close>.\<close>

record EntityAllocator =
  ea_free :: FreeList
  ea_fresh :: FreshAllocator
  ea_is_closed :: bool
  ea_local_free :: "Entity list"
  ea_local_alloc :: "Entity list"

definition EntityAllocator_new :: EntityAllocator where
  "EntityAllocator_new =
     \<lparr>ea_free = FreeList_new, ea_fresh = FreshAllocator_new, ea_is_closed = False,
      ea_local_free = [], ea_local_alloc = []\<rparr>"

definition EntityAllocator_drop :: "EntityAllocator \<Rightarrow> EntityAllocator" where
  "EntityAllocator_drop this = this\<lparr>ea_is_closed := True\<rparr>"

definition flush_freed :: "EntityAllocator \<Rightarrow> EntityAllocator" where
  "flush_freed this =
     this\<lparr>ea_free := FreeList_free (ea_free this) (ea_local_free this), ea_local_free := []\<rparr>"

definition EntityAllocator_free :: "EntityAllocator \<Rightarrow> Entity \<Rightarrow> EntityAllocator" where
  "EntityAllocator_free this entity =
     (let this = (if length (ea_local_free this) = LOCAL_CAP then flush_freed this else this)
      in this\<lparr>ea_local_free := ea_local_free this @ [entity]\<rparr>)"

definition EntityAllocator_free_many :: "EntityAllocator \<Rightarrow> Entity list \<Rightarrow> EntityAllocator" where
  "EntityAllocator_free_many this entities =
     (if LOCAL_CAP - length (ea_local_free this) \<ge> length entities
      then this\<lparr>ea_local_free := ea_local_free this @ entities\<rparr>
      else this\<lparr>ea_free := FreeList_free (ea_free this) entities\<rparr>)"

definition alloc_slow :: "EntityAllocator \<Rightarrow> Entity outcome \<times> EntityAllocator" where
  "alloc_slow this =
     (let num = of_nat LOCAL_CAP + 1
      in case FreeList_alloc_many (ea_free this) num of (reused, free') \<Rightarrow>
         let still_need = num - of_nat (FreeBufferIter_len reused)
         in case FreshAllocator_alloc_many (ea_fresh this) still_need of (fresh, fresh') \<Rightarrow>
            let this = this\<lparr>ea_free := free', ea_fresh := fresh'\<rparr>
            in case fresh of
                 Undef \<Rightarrow> (Undef, this)
               | Panic \<Rightarrow> (Panic, this)
               | Done fresh \<Rightarrow>
                   (case FreeBufferIter_next reused of
                      None \<Rightarrow> (Undef, this)
                    | Some (ret, reused) \<Rightarrow>
                        (case FreeBufferIter_collect reused of
                           None \<Rightarrow> (Undef, this)
                         | Some rs \<Rightarrow>
                             (case (if ret = None then FreshEntityIter_next fresh else (ret, fresh)) of
                                (ret, fresh) \<Rightarrow>
                                  let this = this\<lparr>ea_local_alloc :=
                                        ea_local_alloc this @ rs @ FreshEntityIter_collect fresh\<rparr>
                                  in if length (ea_local_alloc this) \<le> LOCAL_CAP
                                     then (of_read ret, this) else (Undef, this)))))"

definition EntityAllocator_alloc_mut :: "EntityAllocator \<Rightarrow> Entity outcome \<times> EntityAllocator" where
  "EntityAllocator_alloc_mut this =
     (if ea_local_alloc this \<noteq> []
      then (Done (last (ea_local_alloc this)), this\<lparr>ea_local_alloc := butlast (ea_local_alloc this)\<rparr>)
      else alloc_slow this)"

definition EntityAllocator_alloc :: "EntityAllocator \<Rightarrow> Entity outcome \<times> EntityAllocator" where
  "EntityAllocator_alloc this =
     (case FreeList_alloc (ea_free this) of (r, free') \<Rightarrow>
        case r of
          Done (Some e) \<Rightarrow> (Done e, this\<lparr>ea_free := free'\<rparr>)
        | Done None \<Rightarrow>
            (case FreshAllocator_alloc (ea_fresh this) of
               (e, fresh') \<Rightarrow> (e, this\<lparr>ea_free := free', ea_fresh := fresh'\<rparr>))
        | Panic \<Rightarrow> (Panic, this\<lparr>ea_free := free'\<rparr>)
        | Undef \<Rightarrow> (Undef, this\<lparr>ea_free := free'\<rparr>))"

definition EntityAllocator_alloc_many :: "EntityAllocator \<Rightarrow> u32 \<Rightarrow> AllocEntitiesIter outcome \<times> EntityAllocator" where
  "EntityAllocator_alloc_many this num =
     (case FreeList_alloc_many (ea_free this) num of (reused, free') \<Rightarrow>
        let still_need = num - of_nat (FreeBufferIter_len reused)
        in case FreshAllocator_alloc_many (ea_fresh this) still_need of (fresh, fresh') \<Rightarrow>
           let this = this\<lparr>ea_free := free', ea_fresh := fresh'\<rparr>
           in case fresh of
                Done fresh \<Rightarrow> (Done \<lparr>aei_fresh = fresh, aei_reused = reused\<rparr>, this)
              | Panic \<Rightarrow> (Panic, this)
              | Undef \<Rightarrow> (Undef, this))"

text \<open>
  A remote allocator shares everything but the local buffers. \<open>None\<close>: the retry loop did not end
  within the given number of rounds.
\<close>

definition RemoteAllocator_alloc :: "nat \<Rightarrow> EntityAllocator \<Rightarrow> (Entity outcome \<times> EntityAllocator) option" where
  "RemoteAllocator_alloc rounds this =
     (case FreeList_remote_alloc rounds (ea_free this) of
        None \<Rightarrow> None
      | Some (r, free') \<Rightarrow>
          Some (case r of
                  Done (Some e) \<Rightarrow> (Done e, this\<lparr>ea_free := free'\<rparr>)
                | Done None \<Rightarrow>
                    (case FreshAllocator_alloc (ea_fresh this) of
                       (e, fresh') \<Rightarrow> (e, this\<lparr>ea_free := free', ea_fresh := fresh'\<rparr>))
                | Panic \<Rightarrow> (Panic, this\<lparr>ea_free := free'\<rparr>)
                | Undef \<Rightarrow> (Undef, this\<lparr>ea_free := free'\<rparr>)))"

definition RemoteAllocator_is_closed :: "EntityAllocator \<Rightarrow> bool" where
  "RemoteAllocator_is_closed this = ea_is_closed this"

section \<open>The packed counter\<close>

text \<open>A counter in generation \<open>G\<close> that is not disabled, its 33-bit length field holding \<open>p\<close>.\<close>

definition FC :: "nat \<Rightarrow> nat \<Rightarrow> FreeCountState" where
  "FC G p = FreeCountState (of_nat (G * 2 ^ 34 + p))"

lemma bit_exp_int: "bit (2 ^ k :: int) n \<longleftrightarrow> n = k"
  by (auto simp: bit_exp_iff)

lemma bit_flag_bits:
  "bit (4294967296 :: int) n \<longleftrightarrow> n = 32" "bit (8589934592 :: int) n \<longleftrightarrow> n = 33"
  "bit (17179869184 :: int) n \<longleftrightarrow> n = 34"
  using bit_exp_int [of 32 n] bit_exp_int [of 33 n] bit_exp_int [of 34 n] by simp_all

lemma LENGTH_MASK_eq: "LENGTH_MASK = mask 33"
  unfolding LENGTH_MASK_def by (rule bit_eqI) (auto simp: bit_simps bit_flag_bits)

lemma LENGTH_0_eq: "LENGTH_0 = 4294967296"
  by (simp add: LENGTH_0_def push_bit_eq_mult)

lemma unat_FC: "G < 2 ^ 30 \<Longrightarrow> p < 2 ^ 33 \<Longrightarrow> unat (fc_raw (FC G p)) = G * 2 ^ 34 + p"
  by (simp add: FC_def del: of_nat_add of_nat_mult)

lemma FC_zero: "FreeCountState_zero = FC 0 (2 ^ 32)"
  by (simp add: FreeCountState_zero_def FC_def LENGTH_0_eq)

lemma FC_inject:
  assumes "G < 2 ^ 30" "p < 2 ^ 33" "G' < 2 ^ 30" "p' < 2 ^ 33"
  shows "FC G p = FC G' p' \<longleftrightarrow> G = G' \<and> p = p'"
proof
  assume "FC G p = FC G' p'"
  then have "G * 2 ^ 34 + p = G' * 2 ^ 34 + p'" using assms unat_FC by metis
  moreover have "(G * 2 ^ 34 + p) div 2 ^ 34 = G" "(G' * 2 ^ 34 + p') div 2 ^ 34 = G'" using assms by simp_all
  ultimately show "G = G' \<and> p = p'" by auto
qed simp

lemma FC_mask: "G < 2 ^ 30 \<Longrightarrow> p < 2 ^ 33 \<Longrightarrow> unat (fc_raw (FC G p) AND LENGTH_MASK) = p"
proof -
  assume a: "G < 2 ^ 30" "p < 2 ^ 33"
  have "(G * 2 ^ 34 + p) mod 2 ^ 33 = p"
    using a(2) mod_mult_self3 [of "2 * G" "2 ^ 33" p] by (simp add: mult.commute)
  then show ?thesis
    using unat_FC [OF a] by (simp add: LENGTH_MASK_eq take_bit_eq_mod unat_mod_distrib flip: take_bit_eq_mask)
qed

lemma FC_length:
  assumes "G < 2 ^ 30" "p < 2 ^ 33"
  shows "FreeCountState_length (FC G p) = of_nat (p - 2 ^ 32)"
proof -
  let ?u = "fc_raw (FC G p) AND LENGTH_MASK"
  have u: "?u = of_nat p" using FC_mask [OF assms] assms by (simp add: word_unat_eq_iff)
  have "?u \<ge> LENGTH_0 \<longleftrightarrow> 2 ^ 32 \<le> p"
    using FC_mask [OF assms] by (simp add: LENGTH_0_eq word_le_nat_alt)
  moreover have "(ucast (of_nat p - 4294967296 :: u64) :: u32) = of_nat (p - 2 ^ 32)" if "2 ^ 32 \<le> p"
  proof -
    have "of_nat p - 4294967296 = (of_nat (p - 2 ^ 32) :: u64)" using that by (simp add: of_nat_diff)
    moreover have "(ucast (of_nat (p - 2 ^ 32) :: u64) :: u32) = of_nat (p - 2 ^ 32)"
      using assms(2)
      by (subst unsigned_of_nat) (simp add: take_bit_nat_eq_self del: of_nat_diff)
    ultimately show ?thesis by simp
  qed
  ultimately show ?thesis unfolding FreeCountState_length_def Let_def u LENGTH_0_eq
    by (auto simp del: of_nat_diff)
qed

lemma FC_not_disabled:
  assumes "G < 2 ^ 30" "p < 2 ^ 33"
  shows "\<not> FreeCountState_is_disabled (FC G p)"
proof -
  have "(G * 2 ^ 34 + p) div 2 ^ 33 = 2 * G"
    using assms(2) div_mult_self3 [of "2 ^ 33" "2 * G" p] by (simp add: mult.commute)
  then have "\<not> bit (G * 2 ^ 34 + p) 33" by (simp add: bit_nat_def)
  then have "\<not> bit (fc_raw (FC G p)) 33" by (simp add: FC_def bit_of_nat_iff del: of_nat_add of_nat_mult)
  then have "fc_raw (FC G p) AND DISABLING_BIT = 0"
    unfolding DISABLING_BIT_def by (intro bit_eqI) (auto simp: bit_simps bit_flag_bits)
  then show ?thesis by (simp add: FreeCountState_is_disabled_def)
qed

lemma FC_disabled: "FreeCountState_is_disabled (snd (FreeCount_disable_for_state s))"
proof -
  have "bit ((fc_raw s OR DISABLING_BIT) AND DISABLING_BIT) 33"
    by (simp add: DISABLING_BIT_def bit_simps)
  then have "(fc_raw s OR DISABLING_BIT) AND DISABLING_BIT \<noteq> 0" by (metis bit_0_eq bot_apply bot_bool_def)
  then show ?thesis by (simp add: FreeCountState_is_disabled_def FreeCount_disable_for_state_def word_gt_0)
qed

lemma FC_with_length:
  assumes "G < 2 ^ 30" "p < 2 ^ 33"
  shows "FreeCountState_with_length (FC G p) l = FC G (2 ^ 32 + unat l)"
proof -
  let ?r = "fc_raw (FC G p)"
  have u: "unat (?r AND LENGTH_MASK) = p" using assms by (rule FC_mask)
  have "?r = (?r AND NOT LENGTH_MASK) + (?r AND LENGTH_MASK)"
    by (subst disjunctive_add) (auto simp: bit_simps intro: bit_eqI)
  then have "?r AND NOT LENGTH_MASK = ?r - (?r AND LENGTH_MASK)" by (metis add_diff_cancel)
  also have "\<dots> = of_nat (G * 2 ^ 34)"
  proof -
    have "?r AND LENGTH_MASK = of_nat p" using u assms by (simp add: word_unat_eq_iff)
    then show ?thesis by (simp add: FC_def)
  qed
  finally have hi: "?r AND NOT LENGTH_MASK = of_nat (G * 2 ^ 34)" .
  have lo: "ucast l OR LENGTH_0 = (of_nat (2 ^ 32 + unat l) :: u64)"
  proof -
    have "ucast l OR LENGTH_0 = ucast l + LENGTH_0"
      unfolding LENGTH_0_def by (rule disjunctive_add [symmetric]) (auto simp: bit_simps bit_flag_bits dest: bit_32_lt)
    then show ?thesis by (simp add: LENGTH_0_eq)
  qed
  have "(?r AND NOT LENGTH_MASK) OR (ucast l OR LENGTH_0) = (?r AND NOT LENGTH_MASK) + (ucast l OR LENGTH_0)"
    unfolding LENGTH_MASK_eq LENGTH_0_def
    by (rule disjunctive_add [symmetric]) (auto simp: bit_simps bit_flag_bits dest: bit_32_lt)
  then show ?thesis
    unfolding FreeCountState_with_length_def Let_def hi lo by (simp only: FC_def of_nat_add)
qed

lemma FC_pop:
  assumes "unat n \<le> p"
  shows "FreeCountState_pop (FC G p) n = FC (if G = 0 then 2 ^ 30 - 1 else G - 1) (p - unat n)"
proof -
  have "ucast n OR GENERATION_LEAST_BIT = ucast n + GENERATION_LEAST_BIT"
    unfolding GENERATION_LEAST_BIT_def by (rule disjunctive_add [symmetric]) (auto simp: bit_simps bit_flag_bits dest: bit_32_lt)
  moreover have "GENERATION_LEAST_BIT = 2 ^ 34" by (simp add: GENERATION_LEAST_BIT_def push_bit_eq_mult)
  ultimately have e: "FreeCountState_encode_generation n = of_nat (unat n) + 2 ^ 34"
    by (simp add: FreeCountState_encode_generation_def)
  show ?thesis
  proof (cases "G = 0")
    case True
    have "(of_nat p - (of_nat (unat n) + 2 ^ 34) :: u64) = of_nat ((2 ^ 30 - 1) * 2 ^ 34 + (p - unat n))"
      using assms by (simp add: of_nat_diff)
    then show ?thesis using True by (simp add: FreeCountState_pop_def FC_def e del: of_nat_add of_nat_mult of_nat_diff)
  next
    case False
    then have "(of_nat (G * 2 ^ 34 + p) - (of_nat (unat n) + 2 ^ 34) :: u64) = of_nat ((G - 1) * 2 ^ 34 + (p - unat n))"
      using assms by (cases G) (simp_all add: of_nat_diff algebra_simps)
    then show ?thesis using False by (simp add: FreeCountState_pop_def FC_def e del: of_nat_add of_nat_mult of_nat_diff)
  qed
qed
section \<open>The free list as a stack\<close>

abbreviation buf_get :: "FreeList \<Rightarrow> nat \<Rightarrow> Entity option" where
  "buf_get fl n \<equiv> FreeBuffer_get (fl_buffer fl) (of_nat n)"

definition FreeList_abs :: "FreeList \<Rightarrow> Entity list" where
  "FreeList_abs fl = contents (buf_get fl) (unat (FreeList_count fl))"

text \<open>
  The free list is not disabled, every slot below its length holds an entity, and the length field
  is at most \<open>D\<close> below its zero: allocating from an empty list counts below zero.
\<close>

definition FreeList_inv :: "nat \<Rightarrow> FreeList \<Rightarrow> bool" where
  "FreeList_inv D fl \<longleftrightarrow> (\<exists>G p. G < 2 ^ 30 \<and> p < 2 ^ 33 \<and> 2 ^ 32 \<le> p + D \<and> fl_len fl = FC G p \<and>
     buf_wf (fl_buffer fl) \<and> filled (buf_get fl) (p - 2 ^ 32))"

lemma FreeList_invE:
  assumes "FreeList_inv D fl"
  obtains G p where "G < 2 ^ 30" "p < 2 ^ 33" "2 ^ 32 \<le> p + D" "fl_len fl = FC G p"
    "buf_wf (fl_buffer fl)" "filled (buf_get fl) (p - 2 ^ 32)"
    "unat (FreeList_count fl) = p - 2 ^ 32" "FreeList_abs fl = contents (buf_get fl) (p - 2 ^ 32)"
    "length (FreeList_abs fl) = p - 2 ^ 32"
proof -
  from assms obtain G p where *: "G < 2 ^ 30" "p < 2 ^ 33" "2 ^ 32 \<le> p + D" "fl_len fl = FC G p"
    "buf_wf (fl_buffer fl)" "filled (buf_get fl) (p - 2 ^ 32)" by (auto simp: FreeList_inv_def)
  then have "unat (FreeList_count fl) = p - 2 ^ 32"
    using FC_length [OF *(1,2)] by (simp add: FreeList_count_def del: of_nat_diff)
  then show thesis using that [OF *] by (simp add: FreeList_abs_def)
qed

lemma FreeList_new_inv: "FreeList_inv 0 FreeList_new" "FreeList_abs FreeList_new = []"
proof -
  show *: "FreeList_inv 0 FreeList_new"
    unfolding FreeList_inv_def
    by (intro exI [of _ 0] exI [of _ "2 ^ 32"]) (simp add: FreeList_new_def FC_zero buf_wf_new filled_def)
  have "FreeList_count FreeList_new = 0"
    using FC_length [of 0 "2 ^ 32"] by (simp add: FreeList_count_def FreeList_new_def FC_zero)
  then show "FreeList_abs FreeList_new = []" by (simp add: FreeList_abs_def contents_def)
qed

lemma FreeList_free_spec:
  assumes inv: "FreeList_inv D fl" and room: "length (FreeList_abs fl) + length es < 2 ^ 32"
  shows "FreeList_inv D' (FreeList_free fl es)"
    and "FreeList_abs (FreeList_free fl es) = FreeList_abs fl @ es"
proof -
  from inv obtain G p where g: "G < 2 ^ 30" "p < 2 ^ 33" "fl_len fl = FC G p"
    "buf_wf (fl_buffer fl)" "filled (buf_get fl) (p - 2 ^ 32)"
    "FreeList_abs fl = contents (buf_get fl) (p - 2 ^ 32)" "length (FreeList_abs fl) = p - 2 ^ 32"
    by (rule FreeList_invE)
  let ?L = "p - 2 ^ 32" let ?n = "length es"
  have len: "FreeCountState_length (FC G p) = of_nat ?L" using g(1,2) by (rule FC_length)
  have room': "?L + ?n \<le> 2 ^ 32" "?L + ?n < 2 ^ 32" using room g(7) by auto
  have u: "unat (of_nat ?L + of_nat ?n :: u32) = ?L + ?n"
    using room' unfolding of_nat_add [symmetric] by (simp del: of_nat_add of_nat_diff)
  have fl': "FreeList_free fl es =
    \<lparr>fl_buffer = FreeBuffer_set_slice (fl_buffer fl) (of_nat ?L) es, fl_len = FC G (2 ^ 32 + (?L + ?n))\<rparr>"
    using FC_with_length [OF g(1,2)] u
    by (simp add: FreeList_free_def FreeCount_disable_for_state_def FreeCount_set_state_risky_def g(3) len Let_def
        del: of_nat_add of_nat_diff)
  note put = fb.filled_put [OF g(4) room'(1) g(5)] fb.contents_put [OF g(4) room'(1) g(5)]
    fb.ok_put [OF g(4) room'(1)]
  show inv': "FreeList_inv D' (FreeList_free fl es)"
    unfolding FreeList_inv_def using room' g(1) put
    by (intro exI [of _ G] exI [of _ "2 ^ 32 + (?L + ?n)"]) (simp add: fl' del: of_nat_diff)
  have "unat (FreeList_count (FreeList_free fl es)) = ?L + ?n"
    using FC_length [of G "2 ^ 32 + (?L + ?n)"] g(1) room'
    by (simp add: FreeList_count_def fl' del: of_nat_diff of_nat_add)
  then show "FreeList_abs (FreeList_free fl es) = FreeList_abs fl @ es"
    using put(2) unfolding g(6) by (simp add: FreeList_abs_def fl' del: of_nat_diff)
qed

lemma pop_inv:
  assumes inv: "FreeList_inv D fl" and d: "D + (unat n - length (FreeList_abs fl)) \<le> 2 ^ 32"
    and s: "FreeCount_pop_for_state (fl_len fl) n = (state, len')"
  shows "state = fl_len fl"
    and "FreeList_inv (D + (unat n - length (FreeList_abs fl))) (fl\<lparr>fl_len := len'\<rparr>)"
    and "FreeList_abs (fl\<lparr>fl_len := len'\<rparr>) = take (length (FreeList_abs fl) - unat n) (FreeList_abs fl)"
proof -
  from inv obtain G p where g: "G < 2 ^ 30" "p < 2 ^ 33" "2 ^ 32 \<le> p + D" "fl_len fl = FC G p"
    "buf_wf (fl_buffer fl)" "filled (buf_get fl) (p - 2 ^ 32)"
    "FreeList_abs fl = contents (buf_get fl) (p - 2 ^ 32)" "length (FreeList_abs fl) = p - 2 ^ 32"
    by (rule FreeList_invE)
  let ?G = "if G = 0 then 2 ^ 30 - 1 else G - 1" let ?p = "p - unat n"
  have "unat n \<le> p" using d g(3,8) unat_lt_32 [of n] by simp
  then have pop: "FreeCountState_pop (FC G p) n = FC ?G ?p" by (rule FC_pop)
  then have fc: "len' = FC ?G ?p" and st: "state = fl_len fl"
    using s by (auto simp: FreeCount_pop_for_state_def FreeCountState_pop_def g(4))
  have G: "?G < 2 ^ 30" "?p < 2 ^ 33" using g(1,2) by auto
  show "state = fl_len fl" by (fact st)
  show "FreeList_inv (D + (unat n - length (FreeList_abs fl))) (fl\<lparr>fl_len := len'\<rparr>)"
    unfolding FreeList_inv_def
  proof (rule exI [of _ ?G], rule exI [of _ ?p], intro conjI)
    show "2 ^ 32 \<le> ?p + (D + (unat n - length (FreeList_abs fl)))" using g(3,8) d by simp
    show "filled (buf_get (fl\<lparr>fl_len := len'\<rparr>)) (?p - 2 ^ 32)"
      using filled_mono [OF g(6), of "?p - 2 ^ 32"] by simp
  qed (use G fc g(5) in auto)
  have "unat (FreeList_count (fl\<lparr>fl_len := len'\<rparr>)) = ?p - 2 ^ 32"
    using FC_length [OF G] G by (simp add: FreeList_count_def fc del: of_nat_diff)
  moreover have "?p - 2 ^ 32 = (p - 2 ^ 32) - unat n" by simp
  ultimately show "FreeList_abs (fl\<lparr>fl_len := len'\<rparr>) = take (length (FreeList_abs fl) - unat n) (FreeList_abs fl)"
    using take_contents [of "(p - 2 ^ 32) - unat n" "p - 2 ^ 32"]
    unfolding g(7) by (simp add: FreeList_abs_def)
qed

lemma FreeList_alloc_spec:
  assumes inv: "FreeList_inv D fl" and d: "D < 2 ^ 32"
    and r: "FreeList_alloc fl = (r, fl')"
  shows "FreeList_abs fl = [] \<Longrightarrow> r = Done None \<and> FreeList_abs fl' = [] \<and> FreeList_inv (Suc D) fl'"
    and "FreeList_abs fl \<noteq> [] \<Longrightarrow>
      r = Done (Some (last (FreeList_abs fl))) \<and> FreeList_abs fl' = butlast (FreeList_abs fl) \<and> FreeList_inv D fl'"
proof -
  from inv obtain G p where g: "G < 2 ^ 30" "p < 2 ^ 33" "fl_len fl = FC G p"
    "buf_wf (fl_buffer fl)" "filled (buf_get fl) (p - 2 ^ 32)"
    "FreeList_abs fl = contents (buf_get fl) (p - 2 ^ 32)" "length (FreeList_abs fl) = p - 2 ^ 32"
    by (rule FreeList_invE)
  let ?L = "p - 2 ^ 32"
  obtain state len' where s: "FreeCount_pop_for_state (fl_len fl) 1 = (state, len')"
    by (cases "FreeCount_pop_for_state (fl_len fl) 1")
  have "D + (unat (1 :: u32) - length (FreeList_abs fl)) \<le> 2 ^ 32" using d by simp
  note pop = pop_inv [OF inv this s]
  have len: "FreeCountState_length state = of_nat ?L" using FC_length [OF g(1,2)] pop(1) g(3) by simp
  have zero: "(of_nat ?L :: u32) = 0 \<longleftrightarrow> FreeList_abs fl = []"
    using g(2,7) of_nat_eq_iff_32 [of ?L 0] by auto
  have fl': "fl' = fl\<lparr>fl_len := len'\<rparr>"
    using r s by (auto simp: FreeList_alloc_def Let_def split: if_splits)
  show "r = Done None \<and> FreeList_abs fl' = [] \<and> FreeList_inv (Suc D) fl'" if "FreeList_abs fl = []"
    using r s len zero that pop(2,3) by (simp add: FreeList_alloc_def fl' Let_def)
  show "r = Done (Some (last (FreeList_abs fl))) \<and> FreeList_abs fl' = butlast (FreeList_abs fl) \<and> FreeList_inv D fl'"
    if ne: "FreeList_abs fl \<noteq> []"
  proof -
    have L: "0 < ?L" using ne g(7) length_greater_0_conv by metis
    then have "(of_nat ?L - 1 :: u32) = of_nat (?L - 1)" by (subst of_nat_diff) auto
    moreover obtain e where e: "buf_get fl (?L - 1) = Some e"
      using g(5) L unfolding filled_def by (metis diff_less option.exhaust zero_less_one)
    moreover have "e = last (FreeList_abs fl)"
      using e ne L nth_contents [of "?L - 1" ?L "buf_get fl"] g(7) by (simp add: last_conv_nth g(6))
    ultimately have "r = Done (Some (last (FreeList_abs fl)))"
      using r s len zero ne by (auto simp: FreeList_alloc_def Let_def simp del: of_nat_diff)
    then show ?thesis using pop(2,3) ne L g(7) by (simp add: fl' butlast_conv_take)
  qed
qed

lemma FreeList_alloc_many_spec:
  assumes inv: "FreeList_inv D fl" and d: "D + (unat n - length (FreeList_abs fl)) \<le> 2 ^ 32"
    and r: "FreeList_alloc_many fl n = (it, fl')"
  shows "FreeList_inv (D + (unat n - length (FreeList_abs fl))) fl'"
    and "FreeList_abs fl' = take (length (FreeList_abs fl) - unat n) (FreeList_abs fl)"
    and "FreeBufferIter_collect it = Some (drop (length (FreeList_abs fl) - unat n) (FreeList_abs fl))"
    and "FreeBufferIter_len it = min (unat n) (length (FreeList_abs fl))"
proof -
  from inv obtain G p where g: "G < 2 ^ 30" "p < 2 ^ 33" "fl_len fl = FC G p"
    "buf_wf (fl_buffer fl)" "filled (buf_get fl) (p - 2 ^ 32)"
    "FreeList_abs fl = contents (buf_get fl) (p - 2 ^ 32)" "length (FreeList_abs fl) = p - 2 ^ 32"
    by (rule FreeList_invE)
  let ?L = "p - 2 ^ 32" let ?a = "p - 2 ^ 32 - unat n"
  obtain state len' where s: "FreeCount_pop_for_state (fl_len fl) n = (state, len')"
    by (cases "FreeCount_pop_for_state (fl_len fl) n")
  note pop = pop_inv [OF inv d s]
  have len: "FreeCountState_length state = of_nat ?L" using FC_length [OF g(1,2)] pop(1) g(3) by simp
  have uL: "unat (of_nat ?L :: u32) = ?L" "unat (of_nat ?a :: u32) = ?a" using g(2) by (simp_all del: of_nat_diff)
  have a: "saturating_sub (of_nat ?L) n = of_nat ?a"
    using uL by (auto simp: saturating_sub_def word_le_nat_alt word_unat_eq_iff unat_minus_le simp del: of_nat_diff unat_of_nat_32)
  have it: "it = FreeBuffer_iter (fl_buffer fl) (of_nat ?a) (of_nat ?L)" and fl': "fl' = fl\<lparr>fl_len := len'\<rparr>"
    using r s len a by (auto simp: FreeList_alloc_many_def Let_def simp del: of_nat_diff)
  show "FreeList_inv (D + (unat n - length (FreeList_abs fl))) fl'"
    "FreeList_abs fl' = take (length (FreeList_abs fl) - unat n) (FreeList_abs fl)"
    using pop(2,3) fl' by auto
  have "FreeBufferIter_collect it = Some ([] @ map (\<lambda>i. the (buf_get fl i)) [?a..<?L])"
    unfolding it FreeBuffer_iter_def
    by (rule FreeBufferIter_collect_filled) (use g(2,4,5) in \<open>auto simp: filled_def simp del: of_nat_diff\<close>)
  then show "FreeBufferIter_collect it = Some (drop (length (FreeList_abs fl) - unat n) (FreeList_abs fl))"
    unfolding g(7) unfolding g(6) drop_contents by simp
  show "FreeBufferIter_len it = min (unat n) (length (FreeList_abs fl))"
    using uL unfolding g(7)
    by (auto simp: FreeBufferIter_len_def it FreeBuffer_iter_def range_len_def word_less_nat_alt unat_minus_le
        word_le_nat_alt min_def simp del: of_nat_diff unat_of_nat_32)
qed
section \<open>Fresh ids and the combined iterator\<close>

lemma FreshEntityIter_collect_eq:
  assumes "a \<le> b" "b < 2 ^ 32"
  shows "FreshEntityIter_collect (FreshEntityIter (of_nat a) (of_nat b)) = map (\<lambda>i. entity_from_u32 (of_nat i)) [a..<b]"
  using assms(1)
proof (induction "b - a" arbitrary: a)
  case 0
  then show ?case using assms(2)
    by (subst FreshEntityIter_collect.simps) (simp add: FreshEntityIter_next_def)
next
  case (Suc n)
  then have ab: "a < b" by simp
  then have "(of_nat a :: u32) < of_nat b" using assms(2) by (simp add: word_less_nat_alt)
  moreover have "(of_nat a + 1 :: u32) = of_nat (Suc a)" by simp
  ultimately show ?case
    using Suc.hyps(1) [of "Suc a"] Suc.hyps(2) ab
    by (subst FreshEntityIter_collect.simps) (simp add: FreshEntityIter_next_def upt_conv_Cons add.commute)
qed

lemma FreshAllocator_alloc_cases:
  assumes "FreshAllocator_alloc f = (r, f')"
  shows "(unat (fresh_next_id f) = 2 ^ 32 - 1 \<and> r = Panic) \<or>
    (unat (fresh_next_id f) < 2 ^ 32 - 1 \<and> r = Done (entity_from_u32 (fresh_next_id f)) \<and>
     unat (fresh_next_id f') = Suc (unat (fresh_next_id f)))"
proof -
  have m: "fresh_next_id f = MAX_ENTITIES \<longleftrightarrow> unat (fresh_next_id f) = 2 ^ 32 - 1"
    by (simp add: MAX_ENTITIES_def word_unat_eq_iff)
  show ?thesis using assms unat_lt_32 [of "fresh_next_id f"]
    by (auto simp: FreshAllocator_alloc_def Let_def m unat_word_ariths split: if_splits)
qed

lemma FreshAllocator_alloc_many_cases:
  assumes "FreshAllocator_alloc_many f n = (r, f')"
  shows "(r = Panic \<and> unat (fresh_next_id f) + unat n > 2 ^ 32 - 1) \<or>
    (\<exists>it. r = Done it \<and> (n = 0 \<or> unat (fresh_next_id f) + unat n \<le> 2 ^ 32 - 1) \<and>
     FreshEntityIter_collect it = map (\<lambda>i. entity_from_u32 (of_nat i))
       [unat (fresh_next_id f)..<unat (fresh_next_id f) + unat n] \<and>
     unat (fresh_next_id f') = unat (fresh_next_id f) + unat n)"
proof (cases "n = 0")
  case True
  then show ?thesis using assms FreshEntityIter_collect_eq [of 0 0] by (auto simp: FreshAllocator_alloc_many_def)
next
  case False
  let ?k = "fresh_next_id f"
  have "n \<le> MAX_ENTITIES" by (simp add: MAX_ENTITIES_def word_order.extremum)
  then have "unat (MAX_ENTITIES - n) = unat MAX_ENTITIES - unat n" by (rule unat_minus_le)
  then have m: "?k > MAX_ENTITIES - n \<longleftrightarrow> unat ?k + unat n > 2 ^ 32 - 1"
    using unat_lt_32 [of n] by (auto simp: word_less_nat_alt MAX_ENTITIES_def)
  show ?thesis
  proof (cases "unat ?k + unat n > 2 ^ 32 - 1")
    case True
    then show ?thesis using assms False m by (auto simp: FreshAllocator_alloc_many_def Let_def)
  next
    case no: False
    then have u: "unat (?k + n) = unat ?k + unat n" by (simp add: unat_word_ariths)
    have "FreshEntityIter_collect (FreshEntityIter ?k (?k + n)) = map (\<lambda>i. entity_from_u32 (of_nat i))
       [unat ?k..<unat ?k + unat n]"
      using FreshEntityIter_collect_eq [of "unat ?k" "unat ?k + unat n"] no by simp
    then show ?thesis using assms False m no u by (auto simp: FreshAllocator_alloc_many_def Let_def)
  qed
qed

text \<open>Sequences of requests to the fresh allocator: \<open>None\<close> for \<open>alloc\<close>, \<open>Some n\<close> for \<open>alloc_many\<close>.\<close>

fun fresh_step :: "u32 option \<Rightarrow> FreshAllocator \<Rightarrow> Entity list outcome \<times> FreshAllocator" where
  "fresh_step None f = (case FreshAllocator_alloc f of (x, f') \<Rightarrow> (map_outcome (\<lambda>e. [e]) x, f'))"
| "fresh_step (Some n) f = (case FreshAllocator_alloc_many f n of (x, f') \<Rightarrow> (map_outcome FreshEntityIter_collect x, f'))"

fun fresh_run :: "u32 option list \<Rightarrow> FreshAllocator \<Rightarrow> Entity list outcome list \<times> FreshAllocator" where
  "fresh_run [] f = ([], f)"
| "fresh_run (r # rs) f = (let (x, f) = fresh_step r f; (xs, f) = fresh_run rs f in (x # xs, f))"

fun fresh_size :: "u32 option \<Rightarrow> nat" where
  "fresh_size None = 1"
| "fresh_size (Some n) = unat n"

fun fresh_ids :: "'a list outcome \<Rightarrow> 'a list" where
  "fresh_ids (Done xs) = xs"
| "fresh_ids _ = []"

lemma fresh_step_spec:
  shows "fst (fresh_step r (FreshAllocator k)) = (if unat k + fresh_size r > 2 ^ 32 - 1 then Panic
      else Done (map (\<lambda>i. entity_from_u32 (of_nat i)) [unat k..<unat k + fresh_size r]))"
    and "snd (fresh_step r (FreshAllocator k)) = FreshAllocator (k + of_nat (fresh_size r))"
proof -
  have snd: "snd (FreshAllocator_alloc (FreshAllocator k)) = FreshAllocator (k + 1)"
    "snd (FreshAllocator_alloc_many (FreshAllocator k) n) = FreshAllocator (k + n)" for n
    by (simp_all add: FreshAllocator_alloc_def FreshAllocator_alloc_many_def Let_def)
  then show "snd (fresh_step r (FreshAllocator k)) = FreshAllocator (k + of_nat (fresh_size r))"
    by (cases r) (simp_all add: split_def)
  show "fst (fresh_step r (FreshAllocator k)) = (if unat k + fresh_size r > 2 ^ 32 - 1 then Panic
      else Done (map (\<lambda>i. entity_from_u32 (of_nat i)) [unat k..<unat k + fresh_size r]))"
  proof (cases r)
    case None
    obtain x f' where x: "FreshAllocator_alloc (FreshAllocator k) = (x, f')" by fastforce
    then show ?thesis using FreshAllocator_alloc_cases [OF x] None by auto
  next
    case (Some n)
    obtain x f' where x: "FreshAllocator_alloc_many (FreshAllocator k) n = (x, f')" by fastforce
    then show ?thesis using FreshAllocator_alloc_many_cases [OF x] unat_lt_32 [of k] Some by auto
  qed
qed

lemma fresh_run_spec:
  "fresh_run rs (FreshAllocator (of_nat c)) = (outs, f) \<Longrightarrow>
     f = FreshAllocator (of_nat (c + sum_list (map fresh_size rs))) \<and>
     (c + sum_list (map fresh_size rs) \<le> 2 ^ 32 - 1 \<longrightarrow> Panic \<notin> set outs \<and>
        concat (map fresh_ids outs) = map (\<lambda>i. entity_from_u32 (of_nat i)) [c..<c + sum_list (map fresh_size rs)]) \<and>
     (c \<le> 2 ^ 32 - 1 \<longrightarrow> c + sum_list (map fresh_size rs) > 2 ^ 32 - 1 \<longrightarrow> Panic \<in> set outs)"
proof (induction rs arbitrary: c outs)
  case (Cons r rs)
  let ?n = "fresh_size r" and ?t = "sum_list (map fresh_size rs)"
  let ?ids = "\<lambda>a b. map (\<lambda>i. entity_from_u32 (of_nat i)) [a..<b]"
  note step = fresh_step_spec [of r "of_nat c"]
  obtain x xs where xs: "outs = x # xs" "x = fst (fresh_step r (FreshAllocator (of_nat c)))"
    "fresh_run rs (FreshAllocator (of_nat (c + ?n))) = (xs, f)"
    using Cons.prems step(2) by (auto split: prod.splits)
  note IH = Cons.IH [OF xs(3)]
  have c: "unat (of_nat c :: u32) = c" if "c \<le> 2 ^ 32 - 1" using that by (simp add: unat_of_nat)
  have x: "x = (if c + ?n > 2 ^ 32 - 1 then Panic else Done (?ids c (c + ?n)))" if "c \<le> 2 ^ 32 - 1"
    using step(1) c [OF that] xs(2) by simp
  have ids: "?ids c (c + ?n) @ ?ids (c + ?n) (c + ?n + ?t) = ?ids c (c + ?n + ?t)"
    using upt_add_eq_append [of c "c + ?n" ?t] by (simp flip: map_append)
  show ?case
  proof (cases "c + ?n \<le> 2 ^ 32 - 1")
    case True
    then show ?thesis using IH x ids xs(1) by (simp add: add.assoc)
  next
    case False
    then show ?thesis using IH x xs(1) by (auto simp: add.assoc)
  qed
qed simp

lemma AllocEntitiesIter_next_len:
  assumes "AllocEntitiesIter_next it = Some (Some e, it')"
  shows "AllocEntitiesIter_len it' < AllocEntitiesIter_len it"
proof -
  have idle: "reused' = aei_reused it" if "FreeBufferIter_next (aei_reused it) = Some (None, reused')" for reused'
    using that by (auto simp: FreeBufferIter_next_def slow_next_def Let_def split: list.splits if_splits option.splits prod.splits)
  show ?thesis
    using assms FreeBufferIter_next_len [of "aei_reused it" e] FreshEntityIter_next_len [of "aei_fresh it" e] idle
    by (fastforce simp: AllocEntitiesIter_next_def AllocEntitiesIter_len_def split: option.splits prod.splits)
qed

function AllocEntitiesIter_collect :: "AllocEntitiesIter \<Rightarrow> Entity list option" where
  "AllocEntitiesIter_collect it =
     (case AllocEntitiesIter_next it of
        None \<Rightarrow> None
      | Some (None, _) \<Rightarrow> Some []
      | Some (Some e, it') \<Rightarrow> map_option (Cons e) (AllocEntitiesIter_collect it'))"
  by pat_completeness auto

termination
  by (relation "measure AllocEntitiesIter_len") (auto intro: AllocEntitiesIter_next_len)

declare AllocEntitiesIter_collect.simps [simp del]

lemma FreeBufferIter_next_None:
  "FreeBufferIter_next it = Some (None, it') \<Longrightarrow> it' = it"
  by (auto simp: FreeBufferIter_next_def slow_next_def Let_def split: list.splits if_splits option.splits prod.splits)

lemma AllocEntitiesIter_collect_eq:
  "FreeBufferIter_collect (aei_reused it) = Some rs \<Longrightarrow>
   AllocEntitiesIter_collect it = Some (rs @ FreshEntityIter_collect (aei_fresh it))"
proof (induction it arbitrary: rs rule: AllocEntitiesIter_collect.induct)
  case (1 it)
  note col = FreeBufferIter_collect.simps [of "aei_reused it"]
  show ?case
  proof (cases "FreeBufferIter_next (aei_reused it)")
    case None
    then show ?thesis using 1(2) col by simp
  next
    case (Some a)
    obtain e reused where a: "a = (e, reused)" by (cases a)
    show ?thesis
    proof (cases e)
      case (Some x)
      with \<open>FreeBufferIter_next (aei_reused it) = Some a\<close> a have n: "AllocEntitiesIter_next it = Some (Some x, it\<lparr>aei_reused := reused\<rparr>)"
        and n': "FreeBufferIter_next (aei_reused it) = Some (Some x, reused)"
        by (simp_all add: AllocEntitiesIter_next_def)
      with 1(2) col obtain rs' where "FreeBufferIter_collect reused = Some rs'" "rs = x # rs'" by auto
      with 1(1) [OF n refl refl, of rs'] n show ?thesis by (subst AllocEntitiesIter_collect.simps) simp
    next
      case None
      with Some a have n': "FreeBufferIter_next (aei_reused it) = Some (None, aei_reused it)"
        using FreeBufferIter_next_None by auto
      with 1(2) col have rs: "rs = []" by simp
      obtain y fresh where f: "FreshEntityIter_next (aei_fresh it) = (y, fresh)" by fastforce
      with n' have n: "AllocEntitiesIter_next it = Some (y, it\<lparr>aei_fresh := fresh\<rparr>)"
        by (simp add: AllocEntitiesIter_next_def)
      show ?thesis
      proof (cases y)
        case None
        with n f rs show ?thesis
          by (subst AllocEntitiesIter_collect.simps) (simp add: FreshEntityIter_collect.simps [of "aei_fresh it"])
      next
        case (Some x)
        with n have "AllocEntitiesIter_collect (it\<lparr>aei_fresh := fresh\<rparr>) = Some (rs @ FreshEntityIter_collect fresh)"
          using 1(1) [OF n [unfolded Some] refl refl, of rs] 1(2) by simp
        with n f rs Some show ?thesis
          by (subst AllocEntitiesIter_collect.simps) (simp add: FreshEntityIter_collect.simps [of "aei_fresh it"])
      qed
    qed
  qed
qed
section \<open>The allocator's invariant\<close>

definition ids :: "Entity list \<Rightarrow> nat multiset" where
  "ids es = mset (map Entity_index es)"

definition stored :: "EntityAllocator \<Rightarrow> nat multiset" where
  "stored ea = ids (FreeList_abs (ea_free ea)) + ids (ea_local_free ea) + ids (ea_local_alloc ea)"

text \<open>
  With \<open>M\<close> the indices of the entities that are outside of the allocator: together with what it
  stores these are the ids handed out so far, each exactly once.
\<close>

definition alloc_inv :: "EntityAllocator \<Rightarrow> nat multiset \<Rightarrow> bool" where
  "alloc_inv ea M \<longleftrightarrow>
     1 \<le> unat (fresh_next_id (ea_fresh ea)) \<and>
     FreeList_inv (unat (fresh_next_id (ea_fresh ea)) - 1) (ea_free ea) \<and>
     length (ea_local_free ea) \<le> LOCAL_CAP \<and> length (ea_local_alloc ea) \<le> LOCAL_CAP \<and>
     stored ea + M = mset [1..<unat (fresh_next_id (ea_fresh ea))]"

lemma ids_append [simp]: "ids (xs @ ys) = ids xs + ids ys"
  by (simp add: ids_def)

lemma ids_Cons [simp]: "ids (x # xs) = add_mset (Entity_index x) (ids xs)"
  by (simp add: ids_def)

lemma ids_Nil [simp]: "ids [] = {#}"
  by (simp add: ids_def)

lemma size_ids [simp]: "size (ids xs) = length xs"
  by (simp add: ids_def)

lemma ids_fresh: "b \<le> 2 ^ 32 \<Longrightarrow> ids (map (\<lambda>i. entity_from_u32 (of_nat i)) [a..<b]) = mset [a..<b]"
proof -
  assume "b \<le> 2 ^ 32"
  then have "map (Entity_index \<circ> (\<lambda>i. entity_from_u32 (of_nat i))) [a..<b] = [a..<b]"
    by (intro map_idI) (auto simp: Entity_index_def EntityId_index_def entity_from_u32_def)
  then show ?thesis unfolding ids_def map_map by simp
qed

lemma ids_split_last: "xs \<noteq> [] \<Longrightarrow> ids xs = add_mset (Entity_index (last xs)) (ids (butlast xs))"
  by (metis add_mset_add_single append_butlast_last_id ids_Cons ids_Nil ids_append)

lemma ids_take_drop: "ids (take n xs) + ids (drop n xs) = ids xs"
  by (metis append_take_drop_id ids_append)

lemma mset_upt_split: "a \<le> b \<Longrightarrow> b \<le> c \<Longrightarrow> mset [a..<c] = mset [a..<b] + mset [b..<c]"
  by (metis mset_append upt_add_eq_append le_add_diff_inverse)

lemma alloc_inv_room:
  assumes "alloc_inv ea M"
  shows "length (FreeList_abs (ea_free ea)) + length (ea_local_free ea) + length (ea_local_alloc ea) + size M
    = unat (fresh_next_id (ea_fresh ea)) - 1" "unat (fresh_next_id (ea_fresh ea)) < 2 ^ 32"
proof -
  have "size (stored ea + M) = size (mset [1..<unat (fresh_next_id (ea_fresh ea))])"
    using assms by (simp add: alloc_inv_def)
  then show "length (FreeList_abs (ea_free ea)) + length (ea_local_free ea) + length (ea_local_alloc ea) + size M
    = unat (fresh_next_id (ea_fresh ea)) - 1" by (simp add: stored_def)
  show "unat (fresh_next_id (ea_fresh ea)) < 2 ^ 32" using unat_lt_32 by simp
qed

lemma alloc_inv_new: "alloc_inv EntityAllocator_new {#}"
  using FreeList_new_inv by (simp add: alloc_inv_def EntityAllocator_new_def FreshAllocator_new_def stored_def)

lemma FreeList_inv_mono: "FreeList_inv D fl \<Longrightarrow> D \<le> D' \<Longrightarrow> FreeList_inv D' fl"
  by (fastforce simp: FreeList_inv_def)

lemma alloc_inv_alloc:
  assumes inv: "alloc_inv ea M" and r: "EntityAllocator_alloc ea = (r, ea')"
  shows "(\<exists>e. r = Done e \<and> alloc_inv ea' (add_mset (Entity_index e) M)) \<or>
    (r = Panic \<and> FreeList_abs (ea_free ea) = [] \<and> fresh_next_id (ea_fresh ea) = MAX_ENTITIES)"
proof -
  let ?k = "unat (fresh_next_id (ea_fresh ea))"
  obtain fr fl where f: "FreeList_alloc (ea_free ea) = (fr, fl)" by fastforce
  from inv have i: "FreeList_inv (?k - 1) (ea_free ea)" "1 \<le> ?k" by (auto simp: alloc_inv_def)
  have "?k - 1 < 2 ^ 32" using unat_lt_32 [of "fresh_next_id (ea_fresh ea)"] by simp
  note spec = FreeList_alloc_spec [OF i(1) this f]
  show ?thesis
  proof (cases "FreeList_abs (ea_free ea) = []")
    case False
    then show ?thesis using r f spec(2) inv ids_split_last [OF False]
      by (auto simp: EntityAllocator_alloc_def alloc_inv_def stored_def)
  next
    case True
    obtain x fresh where x: "FreshAllocator_alloc (ea_fresh ea) = (x, fresh)" by fastforce
    have ea': "r = x" "ea' = ea\<lparr>ea_free := fl, ea_fresh := fresh\<rparr>"
      using r f x spec(1) [OF True] by (auto simp: EntityAllocator_alloc_def)
    from FreshAllocator_alloc_cases [OF x] show ?thesis
    proof (elim disjE conjE)
      assume "?k = 2 ^ 32 - 1" "x = Panic"
      then show ?thesis using True ea' by (simp add: MAX_ENTITIES_def word_unat_eq_iff)
    next
      assume a: "?k < 2 ^ 32 - 1" "x = Done (entity_from_u32 (fresh_next_id (ea_fresh ea)))"
        "unat (fresh_next_id fresh) = Suc ?k"
      have "Entity_index (entity_from_u32 (fresh_next_id (ea_fresh ea))) = ?k"
        by (simp add: Entity_index_def EntityId_index_def entity_from_u32_def)
      moreover have "mset [1..<Suc ?k] = add_mset ?k (mset [1..<?k])" using i(2) by simp
      ultimately show ?thesis
        using a ea' spec(1) [OF True] inv True i(2) by (auto simp: alloc_inv_def stored_def)
    qed
  qed
qed

lemma FreeList_alloc_many_len:
  assumes "FreeList_inv D fl" "FreeList_alloc_many fl n = (it, fl')"
  shows "FreeBufferIter_len it = min (unat n) (length (FreeList_abs fl))"
proof -
  from assms(1) obtain G p where g: "G < 2 ^ 30" "p < 2 ^ 33" "fl_len fl = FC G p"
    "length (FreeList_abs fl) = p - 2 ^ 32"
    by (rule FreeList_invE)
  let ?L = "of_nat (p - 2 ^ 32) :: u32"
  have L: "unat ?L = p - 2 ^ 32" using g(2) by (simp del: of_nat_diff)
  have "it = FreeBuffer_iter (fl_buffer fl) (saturating_sub ?L n) ?L"
    using assms(2) FC_length [OF g(1,2)]
    by (auto simp: FreeList_alloc_many_def FreeCount_pop_for_state_def g(3) Let_def simp del: of_nat_diff)
  then show ?thesis using L g(4)
    by (auto simp: FreeBufferIter_len_def FreeBuffer_iter_def range_len_def saturating_sub_def word_less_nat_alt
        unat_minus_le word_le_nat_alt simp del: of_nat_diff unat_of_nat_32)
qed

text \<open>The common part of \<open>alloc_many\<close> and of the slow path of \<open>alloc_mut\<close>.\<close>

lemma take_batch:
  assumes inv: "alloc_inv ea M"
    and f: "FreeList_alloc_many (ea_free ea) n = (reused, fl)"
    and x: "FreshAllocator_alloc_many (ea_fresh ea) (n - of_nat (FreeBufferIter_len reused)) = (x, fresh)"
  shows "(x = Panic \<and> unat (fresh_next_id (ea_fresh ea)) + (unat n - length (FreeList_abs (ea_free ea))) > 2 ^ 32 - 1) \<or>
    (\<exists>it rs. x = Done it \<and> FreeBufferIter_collect reused = Some rs \<and>
      length rs + length (FreshEntityIter_collect it) = unat n \<and>
      alloc_inv (ea\<lparr>ea_free := fl, ea_fresh := fresh\<rparr>) (M + ids rs + ids (FreshEntityIter_collect it)))"
proof -
  let ?k = "unat (fresh_next_id (ea_fresh ea))" let ?A = "FreeList_abs (ea_free ea)"
  from inv have i: "FreeList_inv (?k - 1) (ea_free ea)" "1 \<le> ?k" by (auto simp: alloc_inv_def)
  note len = FreeList_alloc_many_len [OF i(1) f]
  let ?need = "n - of_nat (FreeBufferIter_len reused)"
  have "(of_nat (FreeBufferIter_len reused) :: u32) \<le> n"
    using len unat_lt_32 [of n] by (simp add: word_le_nat_alt)
  then have need: "unat ?need = unat n - length ?A"
    using len unat_lt_32 [of n] by (simp add: unat_minus_le)
  from FreshAllocator_alloc_many_cases [OF x]
  consider "x = Panic" "2 ^ 32 - 1 < ?k + unat ?need"
    | it where "x = Done it" "?need = 0 \<or> ?k + unat ?need \<le> 2 ^ 32 - 1"
      "FreshEntityIter_collect it = map (\<lambda>i. entity_from_u32 (of_nat i)) [?k..<?k + unat ?need]"
      "unat (fresh_next_id fresh) = ?k + unat ?need" by blast
  then show ?thesis
  proof cases
    case 1
    then show ?thesis using need by simp
  next
    case a: 2
    have top: "?k + unat ?need \<le> 2 ^ 32" using a(2) unat_lt_32 [of "fresh_next_id (ea_fresh ea)"] by auto
    then have "?k - 1 + (unat n - length ?A) \<le> 2 ^ 32" using need by linarith
    note spec = FreeList_alloc_many_spec [OF i(1) this f]
    let ?rs = "drop (length ?A - unat n) ?A"
    have "?k + unat ?need - 1 = ?k - 1 + (unat n - length ?A)" using need i(2) by simp
    then have fl: "FreeList_inv (unat (fresh_next_id fresh) - 1) fl" using spec(1) a(4) by simp
    have "ids (take (length ?A - unat n) ?A) + ids ?rs = ids ?A" by (rule ids_take_drop)
    moreover have "mset [1..<?k + unat ?need] = mset [1..<?k] + mset [?k..<?k + unat ?need]"
      using i(2) by (intro mset_upt_split) auto
    ultimately have "alloc_inv (ea\<lparr>ea_free := fl, ea_fresh := fresh\<rparr>) (M + ids ?rs + ids (FreshEntityIter_collect it))"
      using inv fl spec(2) a ids_fresh [OF top] i(2)
      by (auto simp: alloc_inv_def stored_def ac_simps)
    moreover have "length ?rs + length (FreshEntityIter_collect it) = unat n"
      using a(3) need by simp
    ultimately show ?thesis using a(1) spec(3) by auto
  qed
qed

lemma alloc_inv_alloc_many:
  assumes inv: "alloc_inv ea M" and r: "EntityAllocator_alloc_many ea n = (r, ea')"
  shows "(\<exists>it es. r = Done it \<and> AllocEntitiesIter_collect it = Some es \<and> length es = unat n \<and>
      alloc_inv ea' (M + ids es)) \<or>
    (r = Panic \<and> unat (fresh_next_id (ea_fresh ea)) + (unat n - length (FreeList_abs (ea_free ea))) > 2 ^ 32 - 1)"
proof -
  obtain reused fl where f: "FreeList_alloc_many (ea_free ea) n = (reused, fl)" by fastforce
  obtain x fresh where x: "FreshAllocator_alloc_many (ea_fresh ea) (n - of_nat (FreeBufferIter_len reused)) = (x, fresh)"
    by fastforce
  note batch = take_batch [OF inv f x]
  then show ?thesis
    using r f x AllocEntitiesIter_collect_eq [of "\<lparr>aei_fresh = _, aei_reused = reused\<rparr>"]
    by (fastforce simp: EntityAllocator_alloc_many_def Let_def ac_simps)
qed

lemma FreeBufferIter_first:
  assumes "FreeBufferIter_collect it = Some rs"
  shows "\<exists>it'. FreeBufferIter_next it = Some (if rs = [] then None else Some (hd rs), it') \<and>
    FreeBufferIter_collect it' = Some (tl rs)"
  using assms FreeBufferIter_next_None [of it]
  by (subst (asm) FreeBufferIter_collect.simps) (auto simp: FreeBufferIter_collect.simps [of it] split: option.splits)

lemma FreshEntityIter_first:
  "\<exists>it'. FreshEntityIter_next it = (if FreshEntityIter_collect it = [] then None else Some (hd (FreshEntityIter_collect it)), it') \<and>
    FreshEntityIter_collect it' = tl (FreshEntityIter_collect it)"
  by (cases "FreshEntityIter_next it"; cases "fst (FreshEntityIter_next it)")
     (auto simp: FreshEntityIter_collect.simps [of it] FreshEntityIter_next_def split: if_splits)

lemma alloc_inv_local:
  assumes "alloc_inv ea (M + ids es)" "ea_local_alloc ea = []" "length es \<le> LOCAL_CAP"
  shows "alloc_inv (ea\<lparr>ea_local_alloc := es\<rparr>) M"
  using assms by (auto simp: alloc_inv_def stored_def ac_simps)

lemma alloc_inv_alloc_slow:
  assumes inv: "alloc_inv ea M" and e: "ea_local_alloc ea = []" and r: "alloc_slow ea = (r, ea')"
  shows "(\<exists>e. r = Done e \<and> alloc_inv ea' (add_mset (Entity_index e) M)) \<or>
    (r = Panic \<and> unat (fresh_next_id (ea_fresh ea)) + (Suc LOCAL_CAP - length (FreeList_abs (ea_free ea))) > 2 ^ 32 - 1)"
proof -
  let ?n = "of_nat LOCAL_CAP + 1 :: u32"
  have n: "unat ?n = Suc LOCAL_CAP" by (simp add: LOCAL_CAP_def)
  obtain reused fl where f: "FreeList_alloc_many (ea_free ea) ?n = (reused, fl)" by fastforce
  obtain x fresh where x: "FreshAllocator_alloc_many (ea_fresh ea) (?n - of_nat (FreeBufferIter_len reused)) = (x, fresh)"
    by fastforce
  let ?ea = "ea\<lparr>ea_free := fl, ea_fresh := fresh\<rparr>"
  from take_batch [OF inv f x]
  consider "x = Panic" "unat (fresh_next_id (ea_fresh ea)) + (Suc LOCAL_CAP - length (FreeList_abs (ea_free ea))) > 2 ^ 32 - 1"
    | it rs where "x = Done it" "FreeBufferIter_collect reused = Some rs"
      "length rs + length (FreshEntityIter_collect it) = Suc LOCAL_CAP"
      "alloc_inv ?ea (M + ids rs + ids (FreshEntityIter_collect it))"
    unfolding n by blast
  then show ?thesis
  proof cases
    case 1
    then show ?thesis using r f x by (simp add: alloc_slow_def Let_def)
  next
    case a: 2
    let ?fs = "FreshEntityIter_collect it"
    obtain reused' where n': "FreeBufferIter_next reused = Some (if rs = [] then None else Some (hd rs), reused')"
      "FreeBufferIter_collect reused' = Some (tl rs)"
      using FreeBufferIter_first [OF a(2)] by auto
    obtain it' where f': "FreshEntityIter_next it = (if ?fs = [] then None else Some (hd ?fs), it')"
      "FreshEntityIter_collect it' = tl ?fs"
      using FreshEntityIter_first by blast
    show ?thesis
    proof (cases rs)
      case Nil
      then obtain y ys where fs: "?fs = y # ys" using a(3) by (cases ?fs) auto
      have "r = Done y" "ea' = ?ea\<lparr>ea_local_alloc := ys\<rparr>" "length ys \<le> LOCAL_CAP"
        using r f x n' f' a(1,3) Nil fs e by (simp_all add: alloc_slow_def Let_def)
      then show ?thesis
        using alloc_inv_local [of ?ea "add_mset (Entity_index y) M" ys] a(4) Nil fs e by simp
    next
      case (Cons y ys)
      have "r = Done y" "ea' = ?ea\<lparr>ea_local_alloc := ys @ ?fs\<rparr>" "length (ys @ ?fs) \<le> LOCAL_CAP"
        using r f x n' f' a(1,3) Cons e by (simp_all add: alloc_slow_def Let_def)
      then show ?thesis
        using alloc_inv_local [of ?ea "add_mset (Entity_index y) M" "ys @ ?fs"] a(4) Cons e by (simp add: ac_simps)
    qed
  qed
qed
lemma alloc_inv_alloc_mut:
  assumes inv: "alloc_inv ea M" and r: "EntityAllocator_alloc_mut ea = (r, ea')"
  shows "(\<exists>e. r = Done e \<and> alloc_inv ea' (add_mset (Entity_index e) M)) \<or>
    (r = Panic \<and> unat (fresh_next_id (ea_fresh ea)) + (Suc LOCAL_CAP - length (FreeList_abs (ea_free ea))) > 2 ^ 32 - 1)"
proof (cases "ea_local_alloc ea = []")
  case True
  then show ?thesis using alloc_inv_alloc_slow [OF inv True] r by (simp add: EntityAllocator_alloc_mut_def)
next
  case False
  then show ?thesis using r inv ids_split_last [OF False]
    by (auto simp: EntityAllocator_alloc_mut_def alloc_inv_def stored_def)
qed

lemma alloc_inv_flush:
  assumes "alloc_inv ea M"
  shows "alloc_inv (flush_freed ea) M"
proof -
  let ?k = "unat (fresh_next_id (ea_fresh ea))"
  have i: "FreeList_inv (?k - 1) (ea_free ea)" using assms by (simp add: alloc_inv_def)
  have "length (FreeList_abs (ea_free ea)) + length (ea_local_free ea) < 2 ^ 32"
    using alloc_inv_room [OF assms] by linarith
  note spec = FreeList_free_spec [OF i this]
  show ?thesis using assms spec by (auto simp: alloc_inv_def stored_def flush_freed_def ac_simps)
qed

lemma alloc_inv_free:
  assumes "alloc_inv ea (add_mset (Entity_index e) M)"
  shows "alloc_inv (EntityAllocator_free ea e) M"
proof -
  have push: "alloc_inv (a\<lparr>ea_local_free := ea_local_free a @ [e]\<rparr>) M"
    if "alloc_inv a (add_mset (Entity_index e) M)" "length (ea_local_free a) < LOCAL_CAP" for a
    using that by (auto simp: alloc_inv_def stored_def ac_simps)
  show ?thesis
  proof (cases "length (ea_local_free ea) = LOCAL_CAP")
    case True
    then show ?thesis using push [OF alloc_inv_flush [OF assms]]
      by (simp add: EntityAllocator_free_def flush_freed_def LOCAL_CAP_def)
  next
    case False
    then have "length (ea_local_free ea) < LOCAL_CAP" using assms by (auto simp: alloc_inv_def)
    then show ?thesis using push [OF assms] False by (simp add: EntityAllocator_free_def)
  qed
qed

lemma alloc_inv_free_many:
  assumes "alloc_inv ea (ids es + M)"
  shows "alloc_inv (EntityAllocator_free_many ea es) M"
proof (cases "LOCAL_CAP - length (ea_local_free ea) \<ge> length es")
  case True
  then show ?thesis using assms by (auto simp: EntityAllocator_free_many_def alloc_inv_def stored_def ac_simps)
next
  case False
  let ?k = "unat (fresh_next_id (ea_fresh ea))"
  have i: "FreeList_inv (?k - 1) (ea_free ea)" using assms by (simp add: alloc_inv_def)
  have "length (FreeList_abs (ea_free ea)) + length es < 2 ^ 32"
    using alloc_inv_room [OF assms] by simp
  note spec = FreeList_free_spec [OF i this]
  show ?thesis using False assms spec
    by (auto simp: EntityAllocator_free_many_def alloc_inv_def stored_def ac_simps)
qed

text \<open>Without interference the retry loop ends in its first round.\<close>

lemma remote_alloc_first_round:
  assumes "FreeList_inv D fl" "D < 2 ^ 32"
  shows "FreeList_remote_alloc (Suc k) fl =
    Some (if FreeList_abs fl = [] then (Done None, fl) else FreeList_alloc fl)"
proof -
  from assms(1) obtain G p where g: "G < 2 ^ 30" "p < 2 ^ 33" "fl_len fl = FC G p"
    "filled (buf_get fl) (p - 2 ^ 32)" "length (FreeList_abs fl) = p - 2 ^ 32"
    by (rule FreeList_invE)
  let ?L = "p - 2 ^ 32"
  have len: "FreeCountState_length (FC G p) = of_nat ?L" using g(1,2) by (rule FC_length)
  have zero: "(of_nat ?L :: u32) = 0 \<longleftrightarrow> FreeList_abs fl = []"
    using g(2,5) of_nat_eq_iff_32 [of ?L 0] by auto
  show ?thesis
  proof (cases "FreeList_abs fl = []")
    case True
    then show ?thesis
      using zero len FC_not_disabled [OF g(1,2)]
      by (simp add: FreeList_remote_alloc_def remote_alloc_round_def g(3))
  next
    case False
    then have L: "0 < ?L" using g(5) length_greater_0_conv by metis
    then have m: "(of_nat ?L - 1 :: u32) = of_nat (?L - 1)" by (subst of_nat_diff) auto
    obtain e where e: "buf_get fl (?L - 1) = Some e"
      using g(4) L unfolding filled_def by (metis diff_less option.exhaust zero_less_one)
    show ?thesis
      using False zero len FC_not_disabled [OF g(1,2)] m e
      by (simp add: FreeList_remote_alloc_def remote_alloc_round_def g(3) FreeList_alloc_def Let_def
          FreeCount_try_set_state_def FreeCount_pop_for_state_def FreeCountState_pop_def del: of_nat_diff)
  qed
qed

lemma alloc_inv_remote_alloc:
  assumes inv: "alloc_inv ea M" and r: "RemoteAllocator_alloc (Suc k) ea = Some (r, ea')"
  shows "(\<exists>e. r = Done e \<and> alloc_inv ea' (add_mset (Entity_index e) M)) \<or>
    (r = Panic \<and> FreeList_abs (ea_free ea) = [] \<and> fresh_next_id (ea_fresh ea) = MAX_ENTITIES)"
proof -
  let ?k = "unat (fresh_next_id (ea_fresh ea))"
  from inv have i: "FreeList_inv (?k - 1) (ea_free ea)" "1 \<le> ?k" by (auto simp: alloc_inv_def)
  have d: "?k - 1 < 2 ^ 32" using unat_lt_32 [of "fresh_next_id (ea_fresh ea)"] by simp
  note round = remote_alloc_first_round [OF i(1) d, of k]
  show ?thesis
  proof (cases "FreeList_abs (ea_free ea) = []")
    case False
    obtain fr fl where f: "FreeList_alloc (ea_free ea) = (fr, fl)" by fastforce
    note spec = FreeList_alloc_spec(2) [OF i(1) d f False]
    then have "EntityAllocator_alloc ea = (r, ea')"
      using r round False f by (simp add: RemoteAllocator_alloc_def EntityAllocator_alloc_def)
    from alloc_inv_alloc [OF inv this] show ?thesis .
  next
    case True
    obtain x fresh where x: "FreshAllocator_alloc (ea_fresh ea) = (x, fresh)" by fastforce
    have ea': "r = x" "ea' = ea\<lparr>ea_fresh := fresh\<rparr>"
      using r x round True by (auto simp: RemoteAllocator_alloc_def)
    from FreshAllocator_alloc_cases [OF x] show ?thesis
    proof (elim disjE conjE)
      assume "?k = 2 ^ 32 - 1" "x = Panic"
      then show ?thesis using True ea' by (simp add: MAX_ENTITIES_def word_unat_eq_iff)
    next
      assume a: "x = Done (entity_from_u32 (fresh_next_id (ea_fresh ea)))"
        "unat (fresh_next_id fresh) = Suc ?k"
      have "Entity_index (entity_from_u32 (fresh_next_id (ea_fresh ea))) = ?k"
        by (simp add: Entity_index_def EntityId_index_def entity_from_u32_def)
      moreover have "mset [1..<Suc ?k] = add_mset ?k (mset [1..<?k])" using i(2) by simp
      moreover have "FreeList_inv ?k (ea_free ea)" using FreeList_inv_mono [OF i(1)] by simp
      ultimately show ?thesis
        using a ea' inv i(2) by (auto simp: alloc_inv_def stored_def)
    qed
  qed
qed

section \<open>Histories of an allocator\<close>

text \<open>
  \<open>alloc_reach ea held lost\<close>: after some sequence of calls the allocator is \<open>ea\<close>, its clients hold the
  entities \<open>held\<close>, and \<open>lost\<close> are the ids of entities dropped with unfinished iterators. A client gives back an
  entity it holds under any tag, since recycling changes the tag. No call of the history panicked.
\<close>

inductive alloc_reach :: "EntityAllocator \<Rightarrow> Entity multiset \<Rightarrow> nat multiset \<Rightarrow> bool" where
  new: "alloc_reach EntityAllocator_new {#} {#}"
| alloc: "alloc_reach ea held lost \<Longrightarrow> EntityAllocator_alloc ea = (Done e, ea') \<Longrightarrow>
    alloc_reach ea' (add_mset e held) lost"
| alloc_mut: "alloc_reach ea held lost \<Longrightarrow> EntityAllocator_alloc_mut ea = (Done e, ea') \<Longrightarrow>
    alloc_reach ea' (add_mset e held) lost"
| alloc_many: "alloc_reach ea held lost \<Longrightarrow> EntityAllocator_alloc_many ea n = (Done it, ea') \<Longrightarrow>
    AllocEntitiesIter_collect it = Some es \<Longrightarrow>
    alloc_reach ea' (held + mset (take k es)) (lost + ids (drop k es))"
| remote_alloc: "alloc_reach ea held lost \<Longrightarrow> RemoteAllocator_alloc (Suc rounds) ea = Some (Done e, ea') \<Longrightarrow>
    alloc_reach ea' (add_mset e held) lost"
| free: "alloc_reach ea (add_mset e held) lost \<Longrightarrow> Entity_id e' = Entity_id e \<Longrightarrow>
    alloc_reach (EntityAllocator_free ea e') held lost"
| free_many: "alloc_reach ea (mset es + held) lost \<Longrightarrow> map Entity_id es' = map Entity_id es \<Longrightarrow>
    alloc_reach (EntityAllocator_free_many ea es') held lost"

lemma ids_cong: "map Entity_id es' = map Entity_id es \<Longrightarrow> ids es' = ids es"
proof -
  assume "map Entity_id es' = map Entity_id es"
  then have "map EntityId_index (map Entity_id es') = map EntityId_index (map Entity_id es)" by simp
  moreover have "map Entity_index xs = map EntityId_index (map Entity_id xs)" for xs
    by (simp add: Entity_index_def)
  ultimately have "map Entity_index es' = map Entity_index es" by metis
  then show ?thesis unfolding ids_def by (rule arg_cong)
qed

lemma alloc_reach_inv:
  "alloc_reach ea held lost \<Longrightarrow> alloc_inv ea (image_mset Entity_index held + lost)"
proof (induction rule: alloc_reach.induct)
  case new
  then show ?case using alloc_inv_new by simp
next
  case (alloc ea held lost e ea')
  then show ?case using alloc_inv_alloc [OF alloc(3,2)] by simp
next
  case (alloc_mut ea held lost e ea')
  then show ?case using alloc_inv_alloc_mut [OF alloc_mut(3,2)] by simp
next
  case (alloc_many ea held lost n it ea' es k)
  then have "alloc_inv ea' (image_mset Entity_index held + lost + ids es)"
    using alloc_inv_alloc_many [OF alloc_many(4,2)] by auto
  moreover have "image_mset Entity_index (mset (take k es)) = ids (take k es)" by (simp add: ids_def)
  ultimately show ?case using ids_take_drop [of k es] by (simp add: ac_simps)
next
  case (remote_alloc ea held lost rounds e ea')
  then show ?case using alloc_inv_remote_alloc [OF remote_alloc(3,2)] by simp
next
  case (free ea e held lost e')
  then show ?case using alloc_inv_free [of ea e'] by (simp add: Entity_index_def)
next
  case (free_many ea es held lost es')
  have "image_mset Entity_index (mset es) = ids es'" using ids_cong [OF free_many(2)] by (simp add: ids_def)
  with free_many(3) show ?case using alloc_inv_free_many [of ea es'] by (simp add: ac_simps)
qed
section \<open>Properties\<close>

text \<open>
  C3. No entity id is handed out twice: along every history of single, batched and remote
  allocations and of frees through either local buffer, the entities the clients hold have pairwise different
  indices, all in the documented range from 1 to \<open>u32::MAX - 1\<close>.
\<close>

theorem allocated_ids_unique:
  assumes "alloc_reach ea held lost"
  shows "(\<forall>i. Multiset.count (image_mset Entity_index held) i \<le> 1) \<and>
    (\<forall>e \<in># held. 1 \<le> Entity_index e \<and> Entity_index e < 2 ^ 32 - 1)"
proof -
  let ?k = "unat (fresh_next_id (ea_fresh ea))"
  have sub: "image_mset Entity_index held \<subseteq># mset [1..<?k]"
    using alloc_reach_inv [OF assms] unfolding alloc_inv_def
    by (metis mset_subset_eq_add_right mset_subset_eq_add_left subset_mset.order_trans)
  have "Multiset.count (image_mset Entity_index held) i \<le> 1" for i
    using mset_subset_eq_count [OF sub, of i] distinct_upt [of 1 ?k]
    unfolding distinct_count_atmost_1 by (metis (full_types) le_trans le_refl zero_le)
  moreover have "1 \<le> Entity_index e \<and> Entity_index e < 2 ^ 32 - 1" if "e \<in># held" for e
  proof -
    have "Entity_index e \<in># image_mset Entity_index held" using that by simp
    then have "Entity_index e \<in># mset [1..<?k]" using sub by (rule mset_subset_eqD [rotated])
    then show ?thesis using unat_lt_32 [of "fresh_next_id (ea_fresh ea)"] by auto
  qed
  ultimately show ?thesis by blast
qed

lemma alloc_reach_example:
  "alloc_reach (snd (EntityAllocator_alloc EntityAllocator_new)) {#Entity (EntityId 1) (EntityTag 0)#} {#}"
proof -
  obtain r fl where f: "FreeList_alloc FreeList_new = (r, fl)" by fastforce
  have "r = Done None" using FreeList_alloc_spec(1) [OF FreeList_new_inv(1) _ f FreeList_new_inv(2)] by simp
  then have "fst (EntityAllocator_alloc EntityAllocator_new) = Done (Entity (EntityId 1) (EntityTag 0))"
    using f by (simp add: EntityAllocator_alloc_def EntityAllocator_new_def FreshAllocator_new_def
        FreshAllocator_alloc_def MAX_ENTITIES_def entity_from_u32_def EntityTag_FIRST_def Let_def)
  then have "EntityAllocator_alloc EntityAllocator_new =
      (Done (Entity (EntityId 1) (EntityTag 0)), snd (EntityAllocator_alloc EntityAllocator_new))"
    by (metis prod.collapse)
  from alloc_reach.alloc [OF alloc_reach.new this] show ?thesis by simp
qed

theorem allocated_ids_unique_witness:
  "Multiset.count (image_mset Entity_index {#Entity (EntityId 1) (EntityTag 0)#}) 1 \<le> 1 \<and>
   1 \<le> Entity_index (Entity (EntityId 1) (EntityTag 0))"
  using allocated_ids_unique [OF alloc_reach_example] by simp

text \<open>
  C4. Every allocation on a reachable allocator is defined: no read of an unwritten slot, no
  overfull local buffer, the remote retry loop ends in its first round when nothing interferes, a batch of \<open>n\<close>
  yields exactly \<open>n\<close> entities, and as long as fewer than \<open>u32::MAX - n - 128\<close> ids have been created no call panics.
\<close>

theorem allocation_defined:
  assumes "alloc_reach ea held lost"
    and "unat (fresh_next_id (ea_fresh ea)) + unat n + Suc LOCAL_CAP < 2 ^ 32 - 1"
  shows "(\<exists>e. fst (EntityAllocator_alloc ea) = Done e) \<and> (\<exists>e. fst (EntityAllocator_alloc_mut ea) = Done e) \<and>
    (\<exists>e ea'. RemoteAllocator_alloc 1 ea = Some (Done e, ea')) \<and>
    (\<exists>it es. fst (EntityAllocator_alloc_many ea n) = Done it \<and> AllocEntitiesIter_collect it = Some es \<and>
       length es = unat n)"
proof -
  let ?k = "unat (fresh_next_id (ea_fresh ea))" let ?M = "image_mset Entity_index held + lost"
  note inv = alloc_reach_inv [OF assms(1)]
  have k: "fresh_next_id (ea_fresh ea) \<noteq> MAX_ENTITIES"
    using assms(2) by (auto simp: MAX_ENTITIES_def)
  have i: "FreeList_inv (?k - 1) (ea_free ea)" "?k - 1 < 2 ^ 32"
    using inv unat_lt_32 [of "fresh_next_id (ea_fresh ea)"] by (auto simp: alloc_inv_def)
  have "RemoteAllocator_alloc (Suc 0) ea \<noteq> None"
    using remote_alloc_first_round [OF i, of 0] by (simp add: RemoteAllocator_alloc_def split: prod.splits)
  then obtain r ea' where r: "RemoteAllocator_alloc (Suc 0) ea = Some (r, ea')" by auto
  obtain r1 ea1 where r1: "EntityAllocator_alloc ea = (r1, ea1)" by fastforce
  obtain r2 ea2 where r2: "EntityAllocator_alloc_mut ea = (r2, ea2)" by fastforce
  obtain r3 ea3 where r3: "EntityAllocator_alloc_many ea n = (r3, ea3)" by fastforce
  show ?thesis
    using alloc_inv_alloc [OF inv r1] alloc_inv_alloc_mut [OF inv r2] alloc_inv_alloc_many [OF inv r3]
      alloc_inv_remote_alloc [OF inv r] r r1 r2 r3 k assms(2)
    by auto
qed

theorem allocation_defined_witness:
  "\<exists>e. fst (EntityAllocator_alloc_mut EntityAllocator_new) = Done e"
  using allocation_defined [OF alloc_reach.new, of 5]
  by (simp add: EntityAllocator_new_def FreshAllocator_new_def LOCAL_CAP_def)

text \<open>
  C5. The free list is a stack over the chunked table: what \<open>free\<close> pushes, a batch allocation of that
  size pops again in the same order, and the list below is untouched, even when earlier allocations have
  driven the packed length below zero.
\<close>

theorem free_list_stack:
  assumes "FreeList_inv D fl" "length (FreeList_abs fl) + length es < 2 ^ 32"
    and "FreeList_alloc_many (FreeList_free fl es) (of_nat (length es)) = (it, fl')"
  shows "FreeBufferIter_collect it = Some es \<and> FreeList_abs fl' = FreeList_abs fl \<and>
    FreeList_count fl' = FreeList_count fl"
proof -
  note free = FreeList_free_spec(1) [OF assms(1,2), of 0] FreeList_free_spec(2) [OF assms(1,2)]
  have n: "unat (of_nat (length es) :: u32) = length es" using assms(2) by simp
  have "0 + (unat (of_nat (length es) :: u32) - length (FreeList_abs (FreeList_free fl es))) \<le> 2 ^ 32"
    using free(2) n by simp
  note many = FreeList_alloc_many_spec [OF free(1) this assms(3)]
  have "FreeList_abs fl' = FreeList_abs fl" "FreeBufferIter_collect it = Some es"
    using many(2,3) free(2) n by simp_all
  moreover from this have "unat (FreeList_count fl') = unat (FreeList_count fl)"
    by (metis FreeList_abs_def length_contents)
  ultimately show ?thesis by (simp add: word_unat_eq_iff)
qed

theorem free_list_stack_witness:
  "FreeBufferIter_collect (fst (FreeList_alloc_many
     (FreeList_free FreeList_new [Entity (EntityId 7) (EntityTag 1), Entity (EntityId 9) (EntityTag 0)]) 2)) =
   Some [Entity (EntityId 7) (EntityTag 1), Entity (EntityId 9) (EntityTag 0)]"
proof -
  let ?es = "[Entity (EntityId 7) (EntityTag 1), Entity (EntityId 9) (EntityTag 0)]"
  obtain it fl' where "FreeList_alloc_many (FreeList_free FreeList_new ?es) (of_nat (length ?es)) = (it, fl')"
    by fastforce
  moreover have "length (FreeList_abs FreeList_new) + length ?es < 2 ^ 32" by (simp add: FreeList_new_inv(2))
  ultimately show ?thesis
    using free_list_stack [OF FreeList_new_inv(1), of ?es it fl'] by simp
qed



end
