(* ===== verification/Messages.thy ===== *)
theory Messages
  imports Prelude
begin

text \<open>
  Double-buffered message queues and their cursors
  (\<open>crates/voker-ecs/src/message/queue.rs\<close>, \<open>iterators.rs\<close>). Message keys, the counter and
  cursor positions are \<open>usize\<close> values that wrap around, so they are 64-bit words; the vectors are lists.
\<close>

section \<open>MessageQueue\<close>

type_synonym MessageKey = usize

record 'm MessageSequence =
  seq_messages :: "(MessageKey \<times> 'm) list"
  seq_start_id :: usize

record 'm MessageQueue =
  mq_messages_a :: "'m MessageSequence"
  mq_messages_b :: "'m MessageSequence"
  mq_counter :: usize

definition MessageSequence_default :: "'m MessageSequence" where
  "MessageSequence_default = \<lparr>seq_messages = [], seq_start_id = 0\<rparr>"

definition MessageQueue_default :: "'m MessageQueue" where
  "MessageQueue_default =
     \<lparr>mq_messages_a = MessageSequence_default, mq_messages_b = MessageSequence_default, mq_counter = 0\<rparr>"

text \<open>The keys that \<open>extend\<close> gives to the messages, and the counter after them.\<close>

fun number_messages :: "usize \<Rightarrow> 'm list \<Rightarrow> (MessageKey \<times> 'm) list \<times> usize" where
  "number_messages msg_count [] = ([], msg_count)"
| "number_messages msg_count (m # ms) =
     (let (numbered, end_count) = number_messages (msg_count + 1) ms in ((msg_count, m) # numbered, end_count))"

definition MessageQueue_extend :: "'m MessageQueue \<Rightarrow> 'm list \<Rightarrow> 'm MessageQueue" where
  "MessageQueue_extend q ms =
     (let (numbered, msg_count) = number_messages (mq_counter q) ms;
          b = mq_messages_b q
      in q\<lparr>mq_messages_b := b\<lparr>seq_messages := seq_messages b @ numbered\<rparr>, mq_counter := msg_count\<rparr>)"

definition MessageQueue_len :: "'m MessageQueue \<Rightarrow> nat" where
  "MessageQueue_len q = length (seq_messages (mq_messages_a q)) + length (seq_messages (mq_messages_b q))"

definition MessageQueue_is_empty :: "'m MessageQueue \<Rightarrow> bool" where
  "MessageQueue_is_empty q \<longleftrightarrow>
     0 = (of_nat (length (seq_messages (mq_messages_a q))) OR of_nat (length (seq_messages (mq_messages_b q))) :: usize)"

definition MessageQueue_oldest_message_index :: "'m MessageQueue \<Rightarrow> usize" where
  "MessageQueue_oldest_message_index q = seq_start_id (mq_messages_a q)"

definition MessageQueue_get :: "'m MessageQueue \<Rightarrow> usize \<Rightarrow> (MessageKey \<times> 'm) option" where
  "MessageQueue_get q i =
     (if i < seq_start_id (mq_messages_a q) then None
      else let s = (if i < seq_start_id (mq_messages_b q) then mq_messages_a q else mq_messages_b q);
               index = unat (i - seq_start_id s)
           in if index < length (seq_messages s) then Some (seq_messages s ! index) else None)"

definition MessageQueue_write :: "'m MessageQueue \<Rightarrow> 'm \<Rightarrow> MessageKey \<times> 'm MessageQueue" where
  "MessageQueue_write q m =
     (let i = mq_counter q; b = mq_messages_b q
      in (i, q\<lparr>mq_messages_b := b\<lparr>seq_messages := seq_messages b @ [(i, m)]\<rparr>, mq_counter := mq_counter q + 1\<rparr>))"

record MessageKeyIter =
  mki_last :: usize
  mki_end :: usize

definition MessageQueue_write_batch :: "'m MessageQueue \<Rightarrow> 'm list \<Rightarrow> MessageKeyIter \<times> 'm MessageQueue" where
  "MessageQueue_write_batch q ms =
     (let last = mq_counter q; q = MessageQueue_extend q ms
      in (\<lparr>mki_last = last, mki_end = mq_counter q\<rparr>, q))"

definition MessageQueue_clear :: "'m MessageQueue \<Rightarrow> 'm MessageQueue" where
  "MessageQueue_clear q =
     q\<lparr>mq_messages_a := \<lparr>seq_messages = [], seq_start_id = mq_counter q\<rparr>,
       mq_messages_b := \<lparr>seq_messages = [], seq_start_id = mq_counter q\<rparr>\<rparr>"

definition MessageQueue_update :: "'m MessageQueue \<Rightarrow> 'm MessageQueue" where
  "MessageQueue_update q =
     q\<lparr>mq_messages_a := mq_messages_b q, mq_messages_b := \<lparr>seq_messages = [], seq_start_id = mq_counter q\<rparr>\<rparr>"

text \<open>
  The operations are those of a release build. A debug build checks, at the end of \<open>update\<close> and when an iterator is
  made, the conditions below; the first always holds on a queue, the second does not.
\<close>

definition MessageQueue_update_assert :: "'m MessageQueue \<Rightarrow> bool" where
  "MessageQueue_update_assert q \<longleftrightarrow>
     seq_start_id (mq_messages_a q) + of_nat (length (seq_messages (mq_messages_a q))) = seq_start_id (mq_messages_b q)"

text \<open>Draining iterators empty their source whether or not they are consumed.\<close>

definition MessageQueue_drain :: "'m MessageQueue \<Rightarrow> 'm list \<times> 'm MessageQueue" where
  "MessageQueue_drain q =
     (map snd (seq_messages (mq_messages_a q) @ seq_messages (mq_messages_b q)), MessageQueue_clear q)"

definition MessageQueue_update_drain :: "'m MessageQueue \<Rightarrow> 'm list \<times> 'm MessageQueue" where
  "MessageQueue_update_drain q =
     (map snd (seq_messages (mq_messages_a q)),
      q\<lparr>mq_messages_a := mq_messages_b q, mq_messages_b := \<lparr>seq_messages = [], seq_start_id = mq_counter q\<rparr>\<rparr>)"

section \<open>MessageKeyIter\<close>

definition MessageKeyIter_next :: "MessageKeyIter \<Rightarrow> MessageKey option \<times> MessageKeyIter" where
  "MessageKeyIter_next it =
     (if mki_last it = mki_end it then (None, it)
      else (Some (mki_last it), it\<lparr>mki_last := mki_last it + 1\<rparr>))"

definition MessageKeyIter_count :: "MessageKeyIter \<Rightarrow> nat" where
  "MessageKeyIter_count it = unat (mki_end it - mki_last it)"

section \<open>MessageCursor and its iterators\<close>

datatype MessageCursor = MessageCursor (cur_last_index: usize)

definition MessageCursor_new :: "'m MessageQueue \<Rightarrow> MessageCursor" where
  "MessageCursor_new q = MessageCursor (MessageQueue_oldest_message_index q)"

definition MessageCursor_len :: "MessageCursor \<Rightarrow> 'm MessageQueue \<Rightarrow> usize" where
  "MessageCursor_len c q =
     (let upper = mq_counter q - cur_last_index c in min upper (of_nat (MessageQueue_len q)))"

definition MessageCursor_is_empty :: "MessageCursor \<Rightarrow> 'm MessageQueue \<Rightarrow> bool" where
  "MessageCursor_is_empty c q \<longleftrightarrow> MessageQueue_is_empty q \<or> mq_counter q = cur_last_index c"

definition MessageCursor_clear :: "MessageCursor \<Rightarrow> 'm MessageQueue \<Rightarrow> MessageCursor" where
  "MessageCursor_clear c q = MessageCursor (mq_counter q)"

text \<open>An iterator over a queue: the cursor it advances, the messages left, and its count of unread messages.\<close>

record 'm MessageWithKeyIter =
  mi_cursor :: MessageCursor
  mi_chain :: "(MessageKey \<times> 'm) list"
  mi_unread :: usize

text \<open>\<open>slice.get(i..)\<close>, with an empty slice when out of range.\<close>

definition slice_from :: "'a list \<Rightarrow> usize \<Rightarrow> 'a list" where
  "slice_from xs i = (if unat i \<le> length xs then drop (unat i) xs else [])"

definition MessageWithKeyIter_new :: "MessageCursor \<Rightarrow> 'm MessageQueue \<Rightarrow> 'm MessageWithKeyIter" where
  "MessageWithKeyIter_new cursor q =
     (let unread = MessageCursor_len cursor q;
          last_index = mq_counter q - unread;
          a_index = last_index - seq_start_id (mq_messages_a q);
          b_index = last_index - seq_start_id (mq_messages_b q);
          a = slice_from (seq_messages (mq_messages_a q)) a_index;
          b = slice_from (seq_messages (mq_messages_b q)) b_index
      in \<lparr>mi_cursor = MessageCursor last_index, mi_chain = a @ b, mi_unread = unread\<rparr>)"

definition MessageWithKeyIter_new_assert :: "'m MessageWithKeyIter \<Rightarrow> bool" where
  "MessageWithKeyIter_new_assert it \<longleftrightarrow> mi_unread it = of_nat (length (mi_chain it))"

definition saturating_sub_usize :: "usize \<Rightarrow> usize \<Rightarrow> usize" where
  "saturating_sub_usize a b = (if a \<ge> b then a - b else 0)"

definition MessageWithKeyIter_next :: "'m MessageWithKeyIter \<Rightarrow> (MessageKey \<times> 'm) option \<times> 'm MessageWithKeyIter" where
  "MessageWithKeyIter_next it =
     (case mi_chain it of
        item # chain \<Rightarrow>
          (Some item, \<lparr>mi_cursor = MessageCursor (cur_last_index (mi_cursor it) + 1), mi_chain = chain,
                       mi_unread = saturating_sub_usize (mi_unread it) 1\<rparr>)
      | [] \<Rightarrow> (None, it))"

definition MessageWithKeyIter_count :: "'m MessageWithKeyIter \<Rightarrow> usize \<times> MessageCursor" where
  "MessageWithKeyIter_count it = (mi_unread it, MessageCursor (cur_last_index (mi_cursor it) + mi_unread it))"

text \<open>On an empty chain \<open>last\<close> returns before the cursor moves.\<close>

definition MessageWithKeyIter_last :: "'m MessageWithKeyIter \<Rightarrow> (MessageKey \<times> 'm) option \<times> MessageCursor" where
  "MessageWithKeyIter_last it =
     (if mi_chain it = [] then (None, mi_cursor it)
      else (Some (last (mi_chain it)), MessageCursor (cur_last_index (mi_cursor it) + mi_unread it)))"

definition MessageWithKeyIter_nth :: "'m MessageWithKeyIter \<Rightarrow> nat \<Rightarrow> (MessageKey \<times> 'm) option \<times> 'm MessageWithKeyIter" where
  "MessageWithKeyIter_nth it n =
     (if n < length (mi_chain it)
      then let advanced = of_nat (n + 1)
           in (Some (mi_chain it ! n),
               \<lparr>mi_cursor = MessageCursor (cur_last_index (mi_cursor it) + advanced), mi_chain = drop (n + 1) (mi_chain it),
                mi_unread = saturating_sub_usize (mi_unread it) advanced\<rparr>)
      else (None, \<lparr>mi_cursor = MessageCursor (cur_last_index (mi_cursor it) + mi_unread it), mi_chain = [], mi_unread = 0\<rparr>))"

text \<open>Running an iterator to its end, as a \<open>for\<close> loop over \<open>read\<close> does.\<close>

function MessageWithKeyIter_collect :: "'m MessageWithKeyIter \<Rightarrow> (MessageKey \<times> 'm) list \<times> MessageCursor" where
  "MessageWithKeyIter_collect it =
     (case MessageWithKeyIter_next it of
        (None, it) \<Rightarrow> ([], mi_cursor it)
      | (Some item, it) \<Rightarrow> (let (items, c) = MessageWithKeyIter_collect it in (item # items, c)))"
  by pat_completeness auto
termination
  by (relation "measure (\<lambda>it. length (mi_chain it))")
     (auto simp: MessageWithKeyIter_next_def split: list.splits)

declare MessageWithKeyIter_collect.simps [simp del]

definition MessageCursor_read_all :: "MessageCursor \<Rightarrow> 'm MessageQueue \<Rightarrow> (MessageKey \<times> 'm) list \<times> MessageCursor" where
  "MessageCursor_read_all c q = MessageWithKeyIter_collect (MessageWithKeyIter_new c q)"

section \<open>The queue as a window on the history of messages\<close>

text \<open>
  \<open>window W i j\<close>: messages number \<open>i\<close> to \<open>j - 1\<close> of the history \<open>W\<close>, with their keys.
\<close>

definition window :: "'m list \<Rightarrow> nat \<Rightarrow> nat \<Rightarrow> (MessageKey \<times> 'm) list" where
  "window W i j = map (\<lambda>n. (of_nat n, W ! n)) [i..<j]"

text \<open>
  \<open>mq_repr W d k q\<close>: \<open>W\<close> is everything ever written to \<open>q\<close>; messages before \<open>d\<close> are gone, those from \<open>d\<close> to \<open>k\<close>
  are in the older buffer and the rest in the newer one.
\<close>

definition mq_repr :: "'m list \<Rightarrow> nat \<Rightarrow> nat \<Rightarrow> 'm MessageQueue \<Rightarrow> bool" where
  "mq_repr W d k q \<longleftrightarrow> d \<le> k \<and> k \<le> length W \<and>
     q = \<lparr>mq_messages_a = \<lparr>seq_messages = window W d k, seq_start_id = of_nat d\<rparr>,
          mq_messages_b = \<lparr>seq_messages = window W k (length W), seq_start_id = of_nat k\<rparr>,
          mq_counter = of_nat (length W)\<rparr>"

lemma length_window [simp]: "length (window W i j) = j - i"
  by (simp add: window_def)

lemma window_empty [simp]: "j \<le> i \<Longrightarrow> window W i j = []"
  by (simp add: window_def)

lemma window_snd: "j \<le> length W \<Longrightarrow> map snd (window W i j) = drop i (take j W)"
  by (rule nth_equalityI) (auto simp: window_def)

lemma window_join: "i \<le> j \<Longrightarrow> j \<le> k \<Longrightarrow> window W i j @ window W j k = window W i k"
  using upt_add_eq_append [of i j "k - j"] by (simp add: window_def flip: map_append)

lemma drop_window: "drop n (window W i j) = window W (i + n) j"
  by (simp add: window_def drop_map)

lemma window_append: "j \<le> length W \<Longrightarrow> window (W @ ms) i j = window W i j"
  by (simp add: window_def nth_append)

lemma window_snoc: "i \<le> length W \<Longrightarrow> window (W @ [m]) i (Suc (length W)) = window W i (length W) @ [(of_nat (length W), m)]"
  by (simp add: window_def nth_append)

lemma number_messages_eq: "number_messages (of_nat n) ms = (map (\<lambda>i. (of_nat (n + i), ms ! i)) [0..<length ms], of_nat (n + length ms))"
proof (induction ms arbitrary: n)
  case (Cons m ms)
  have "[0..<length (m # ms)] = 0 # map Suc [0..<length ms]" by (simp add: upt_conv_Cons map_Suc_upt del: upt_Suc)
  moreover have "number_messages (of_nat n + 1) ms = (map (\<lambda>i. (of_nat (n + Suc i), ms ! i)) [0..<length ms], of_nat (n + length (m # ms)))"
    using Cons [of "Suc n"] by (simp add: add.commute)
  ultimately show ?case by (simp add: Let_def comp_def del: upt_Suc)
qed simp

lemma mq_repr_default: "mq_repr [] 0 0 MessageQueue_default"
  by (simp add: mq_repr_def MessageQueue_default_def MessageSequence_default_def)

lemma mq_repr_write: "mq_repr W d k q \<Longrightarrow> mq_repr (W @ [m]) d k (snd (MessageQueue_write q m))"
  by (simp add: mq_repr_def MessageQueue_write_def Let_def window_append window_snoc add.commute)

lemma mq_repr_extend:
  assumes "mq_repr W d k q" shows "mq_repr (W @ ms) d k (MessageQueue_extend q ms)"
proof -
  have "map (\<lambda>i. (of_nat (length W + i), ms ! i)) [0..<length ms] = window (W @ ms) (length W) (length W + length ms)"
    unfolding window_def by (rule nth_equalityI) (auto simp: nth_append)
  then show ?thesis using assms window_join [of k "length W" "length W + length ms" "W @ ms"]
    by (auto simp: mq_repr_def MessageQueue_extend_def Let_def number_messages_eq window_append)
qed

lemma mq_repr_update: "mq_repr W d k q \<Longrightarrow> mq_repr W k (length W) (MessageQueue_update q)"
  by (simp add: mq_repr_def MessageQueue_update_def)

lemma update_assert_holds: "mq_repr W d k q \<Longrightarrow> MessageQueue_update_assert (MessageQueue_update q)"
  by (simp add: mq_repr_def MessageQueue_update_def MessageQueue_update_assert_def of_nat_diff)

lemma mq_repr_clear: "mq_repr W d k q \<Longrightarrow> mq_repr W (length W) (length W) (MessageQueue_clear q)"
  by (simp add: mq_repr_def MessageQueue_clear_def)

lemma mq_repr_len: "mq_repr W d k q \<Longrightarrow> MessageQueue_len q = length W - d"
  by (auto simp: mq_repr_def MessageQueue_len_def)

section \<open>Reading\<close>

lemma collect_eq:
  "MessageWithKeyIter_collect it = (mi_chain it, MessageCursor (cur_last_index (mi_cursor it) + of_nat (length (mi_chain it))))"
proof (induction "mi_chain it" arbitrary: it)
  case Nil
  then show ?case by (subst MessageWithKeyIter_collect.simps) (simp add: MessageWithKeyIter_next_def flip: Nil)
next
  case (Cons x xs)
  let ?it = "\<lparr>mi_cursor = MessageCursor (cur_last_index (mi_cursor it) + 1), mi_chain = xs, mi_unread = saturating_sub_usize (mi_unread it) 1\<rparr>"
  have "MessageWithKeyIter_next it = (Some x, ?it)" by (simp add: MessageWithKeyIter_next_def flip: Cons(2))
  moreover have "MessageWithKeyIter_collect ?it = (xs, MessageCursor (cur_last_index (mi_cursor it) + 1 + of_nat (length xs)))"
    using Cons(1) [of ?it] by simp
  ultimately show ?case by (subst MessageWithKeyIter_collect.simps) (simp add: ac_simps flip: Cons(2))
qed

lemma of_nat_diff_64: "b \<le> a \<Longrightarrow> (of_nat a - of_nat b :: 64 word) = of_nat (a - b)"
  by (simp add: of_nat_diff)

lemma unat_diff_64: "b \<le> a \<Longrightarrow> a - b < 2 ^ 64 \<Longrightarrow> unat (of_nat a - of_nat b :: 64 word) = a - b"
  by (simp add: of_nat_diff_64 del: of_nat_diff)

lemma unat_uminus_64: "(k :: u64) \<noteq> 0 \<Longrightarrow> unat (- k) = 2 ^ 64 - unat k"
proof -
  assume "k \<noteq> 0"
  then have "0 < unat k" by (simp add: unat_gt_0)
  moreover have "(unat (- k) + unat k) mod 2 ^ 64 = 0"
    using unat_word_ariths(1) [of "- k" k] by simp
  then obtain q where "unat (- k) + unat k = 2 ^ 64 * q" by (auto simp: mod_eq_0_iff_dvd elim: dvdE)
  ultimately have "q = 1" "unat (- k) + unat k = 2 ^ 64 * q"
    using unat_lt_64 [of k] unat_lt_64 [of "- k"] by simp_all
  then show ?thesis by simp
qed

lemma wrapped_index:
  assumes "a < b" "b - a < 2 ^ 64"
  shows "unat (of_nat a - of_nat b :: 64 word) = 2 ^ 64 - (b - a)"
proof -
  have eq: "(of_nat a - of_nat b :: 64 word) = - of_nat (b - a)"
    using assms(1) of_nat_diff_64 [of a b] by (metis less_imp_le minus_diff_eq)
  have u: "unat (of_nat (b - a) :: 64 word) = b - a" using assms(2) by simp
  have "(of_nat (b - a) :: 64 word) \<noteq> 0"
  proof
    assume "(of_nat (b - a) :: 64 word) = 0"
    then show False using u assms(1) by simp
  qed
  from unat_uminus_64 [OF this] show ?thesis unfolding eq u .
qed

lemma cursor_len_eq:
  assumes "mq_repr W d k q" "p \<le> length W" "length W - p < 2 ^ 64" "length W - d < 2 ^ 64"
  shows "MessageCursor_len (MessageCursor (of_nat p)) q = of_nat (length W - max p d)"
proof -
  have "MessageCursor_len (MessageCursor (of_nat p)) q = min (of_nat (length W - p)) (of_nat (length W - d))"
    using assms(1,2) mq_repr_len [OF assms(1)] by (simp add: MessageCursor_len_def mq_repr_def of_nat_diff_64 del: of_nat_diff)
  moreover have "(of_nat (length W - p) :: usize) \<le> of_nat (length W - d) \<longleftrightarrow> length W - p \<le> length W - d"
    using assms(3,4) by (simp add: word_le_nat_alt del: of_nat_diff)
  moreover have "length W - p \<le> length W - d \<longleftrightarrow> d \<le> p"
    using assms(1,2) by (auto simp: mq_repr_def)
  ultimately show ?thesis by (simp add: min_def max_def del: of_nat_diff)
qed

lemma read_iter_eq:
  assumes r: "mq_repr W d k q" and p: "p \<le> length W" "length W - p < 2 ^ 64" "length W - d < 2 ^ 64"
  shows "MessageWithKeyIter_new (MessageCursor (of_nat p)) q =
    \<lparr>mi_cursor = MessageCursor (of_nat (max p d)),
     mi_chain = (if max p d < k then window W (max p d) k else window W (max p d) (length W)),
     mi_unread = of_nat (length W - max p d)\<rparr>"
proof -
  let ?s = "max p d"
  have dk: "d \<le> k" "k \<le> length W" "?s \<le> length W" "d \<le> ?s" using r p(1) by (auto simp: mq_repr_def)
  have last: "mq_counter q - of_nat (length W - ?s) = of_nat ?s"
    using r dk(3) by (simp add: mq_repr_def of_nat_diff)
  have a: "slice_from (window W d k) (of_nat ?s - of_nat d) = (if ?s < k then window W ?s k else [])"
  proof -
    have "unat (of_nat ?s - of_nat d :: usize) = ?s - d"
      using dk p(3) by (intro unat_diff_64) auto
    then show ?thesis using dk by (auto simp: slice_from_def drop_window)
  qed
  have b: "slice_from (window W k (length W)) (of_nat ?s - of_nat k) = (if ?s < k then [] else window W ?s (length W))"
  proof (cases "?s < k")
    case True
    then have "unat (of_nat ?s - of_nat k :: usize) = 2 ^ 64 - (k - ?s)" using dk p(3) by (intro wrapped_index) auto
    moreover have "length W - k < 2 ^ 64 - (k - ?s)" using True dk p(3) by auto
    ultimately show ?thesis using True by (simp add: slice_from_def)
  next
    case False
    then have "unat (of_nat ?s - of_nat k :: usize) = ?s - k"
      using dk p(3) by (intro unat_diff_64) auto
    then show ?thesis using dk False by (auto simp: slice_from_def drop_window)
  qed
  show ?thesis
    using r a b cursor_len_eq [OF assms] last by (simp add: MessageWithKeyIter_new_def Let_def mq_repr_def)
qed

text \<open>The assertion on a new iterator fails when it starts in the older buffer and the newer one holds messages.\<close>

lemma read_assert_iff:
  assumes r: "mq_repr W d k q" and p: "p \<le> length W" "length W - p < 2 ^ 64" "length W - d < 2 ^ 64"
  shows "MessageWithKeyIter_new_assert (MessageWithKeyIter_new (MessageCursor (of_nat p)) q) \<longleftrightarrow>
    k \<le> max p d \<or> k = length W"
proof -
  let ?s = "max p d"
  have dk: "k \<le> length W" "?s \<le> length W" "length W - ?s < 2 ^ 64" using r p by (auto simp: mq_repr_def)
  have "(of_nat (length W - ?s) :: usize) = of_nat (k - ?s) \<longleftrightarrow> length W - ?s = k - ?s" if "?s < k"
    using dk that by (simp add: word_unat_eq_iff del: of_nat_diff)
  then show ?thesis
    using dk unfolding read_iter_eq [OF assms] MessageWithKeyIter_new_assert_def by (auto simp del: of_nat_diff)
qed

lemma read_all_eq:
  assumes "mq_repr W d k q" "p \<le> length W" "length W - p < 2 ^ 64" "length W - d < 2 ^ 64"
  shows "MessageCursor_read_all (MessageCursor (of_nat p)) q =
    (if max p d < k then (window W (max p d) k, MessageCursor (of_nat k))
     else (window W (max p d) (length W), MessageCursor (of_nat (length W))))"
proof -
  have "d \<le> k" "k \<le> length W" "max p d \<le> length W" using assms(1,2) by (auto simp: mq_repr_def)
  then show ?thesis
    unfolding MessageCursor_read_all_def read_iter_eq [OF assms] collect_eq by (auto simp: add.commute simp flip: of_nat_add simp del: of_nat_diff of_nat_add)
qed

lemma read_all_from:
  assumes "mq_repr W d k q" "d \<le> p" "p \<le> length W" "length W - d < 2 ^ 64"
  shows "MessageCursor_read_all (MessageCursor (of_nat p)) q =
    (if p < k then (window W p k, MessageCursor (of_nat k)) else (window W p (length W), MessageCursor (of_nat (length W))))"
proof -
  have "max p d = p" "length W - p < 2 ^ 64" using assms(2,4) by auto
  then show ?thesis using read_all_eq [OF assms(1,3) _ assms(4)] by simp
qed

text \<open>A reader that drains what it is given each time it runs, while the queue is written and updated.\<close>

inductive reader_session :: "'m MessageQueue \<Rightarrow> MessageCursor \<Rightarrow> bool \<Rightarrow> 'm list \<Rightarrow> 'm list \<Rightarrow> bool" where
  session_start: "reader_session MessageQueue_default (MessageCursor_new (MessageQueue_default :: 'm MessageQueue)) True [] []"
| session_write: "reader_session q c r W D \<Longrightarrow> reader_session (snd (MessageQueue_write q m)) c r (W @ [m]) D"
| session_batch: "reader_session q c r W D \<Longrightarrow> reader_session (snd (MessageQueue_write_batch q ms)) c r (W @ ms) D"
| session_read: "reader_session q c r W D \<Longrightarrow> MessageQueue_len q < 2 ^ 64 \<Longrightarrow> MessageCursor_read_all c q = (items, c') \<Longrightarrow>
    reader_session q c' True W (D @ map snd items)"
| session_update: "reader_session q c True W D \<Longrightarrow> reader_session (MessageQueue_update q) c False W D"

lemma reader_session_inv:
  "reader_session q c r W D \<Longrightarrow>
   \<exists>d k p. mq_repr W d k q \<and> c = MessageCursor (of_nat p) \<and> d \<le> p \<and> p \<le> length W \<and> D = take p W \<and> (r \<longrightarrow> k \<le> p)"
proof (induction rule: reader_session.induct)
  case session_start
  show ?case
    using mq_repr_default
    by (intro exI [of _ 0]) (simp add: MessageCursor_new_def MessageQueue_oldest_message_index_def
        MessageQueue_default_def MessageSequence_default_def)
next
  case (session_write q c r W D m)
  then show ?case using mq_repr_write [of W _ _ q m] by fastforce
next
  case (session_batch q c r W D ms)
  then show ?case using mq_repr_extend [of W _ _ q ms] by (fastforce simp: MessageQueue_write_batch_def Let_def)
next
  case (session_read q c r W D items c')
  then obtain d k p where i: "mq_repr W d k q" "c = MessageCursor (of_nat p)" "d \<le> p" "p \<le> length W" "D = take p W" by blast
  have dk: "d \<le> k" "k \<le> length W" using i(1) by (auto simp: mq_repr_def)
  have len: "length W - d < 2 ^ 64" using session_read(2) mq_repr_len [OF i(1)] by simp
  have read: "(items, c') = (if p < k then (window W p k, MessageCursor (of_nat k)) else (window W p (length W), MessageCursor (of_nat (length W))))"
    using read_all_from [OF i(1,3,4) len] i(2) session_read(3) by simp
  have join: "take p W @ drop p (take e W) = take e W" if "p \<le> e" for e
    using that by (metis append_take_drop_id min.absorb1 take_take)
  show ?case
  proof (cases "p < k")
    case True
    then show ?thesis using read i dk join [of k]
      by - (rule exI [of _ d], rule exI [of _ k], rule exI [of _ k], simp add: window_snd)
  next
    case False
    then show ?thesis using read i dk join [of "length W"]
      by - (rule exI [of _ d], rule exI [of _ k], rule exI [of _ "length W"], simp add: window_snd)
  qed
next
  case (session_update q c W D)
  then obtain d k p where "mq_repr W d k q" "c = MessageCursor (of_nat p)" "p \<le> length W" "D = take p W" "k \<le> p" by blast
  then show ?case using mq_repr_update [of W d k q] by blast
qed

section \<open>Properties\<close>

text \<open>
  C21. No message is lost or delivered twice: whatever was written, and however often the queue was updated, a reader
  that reads at least once between two updates has received a prefix of everything written, in order; and two more
  reads without a write in between give it the rest.
\<close>

theorem reader_receives_every_message:
  assumes "reader_session q c r W D" "MessageQueue_len q < 2 ^ 64"
    and "MessageCursor_read_all c q = (items1, c1)" "MessageCursor_read_all c1 q = (items2, c2)"
  shows "D = take (length D) W \<and> D @ map snd items1 @ map snd items2 = W"
proof -
  have s: "reader_session q c2 True W (D @ map snd items1 @ map snd items2)"
    using session_read [OF session_read [OF assms(1-3)] assms(2,4)] by simp
  obtain d k p where i: "mq_repr W d k q" "c = MessageCursor (of_nat p)" "d \<le> p" "p \<le> length W" "D = take p W"
    using reader_session_inv [OF assms(1)] by blast
  have dk: "d \<le> k" "k \<le> length W" using i(1) by (auto simp: mq_repr_def)
  have len: "length W - d < 2 ^ 64" using assms(2) mq_repr_len [OF i(1)] by simp
  have items: "(items1, c1) = (if p < k then (window W p k, MessageCursor (of_nat k)) else (window W p (length W), MessageCursor (of_nat (length W))))"
    using read_all_from [OF i(1,3,4) len] i(2) assms(3) by simp
  let ?e = "if p < k then k else length W"
  have e: "c1 = MessageCursor (of_nat ?e)" "items1 = window W p ?e" "k \<le> ?e" "?e \<le> length W" "p \<le> ?e"
    using items dk i(4) by (auto split: if_splits)
  have "items2 = window W ?e (length W)"
    using read_all_from [OF i(1) le_trans [OF i(3) e(5)] e(4) len] e(1,3) assms(4) by (auto split: if_splits)
  then have "map snd items1 @ map snd items2 = drop p W"
    using window_join [OF e(5,4), of W] e(2) window_snd [of "length W" W p] by (simp flip: map_append)
  then show ?thesis using i(4,5) by simp
qed

theorem reader_receives_every_message_witness:
  "\<exists>q c items1 c1 items2 c2. reader_session q c False ''abc'' ''a'' \<and>
     MessageCursor_read_all c q = (items1, c1) \<and> MessageCursor_read_all c1 q = (items2, c2) \<and>
     ''a'' @ map snd items1 @ map snd items2 = ''abc''"
proof -
  let ?q0 = "MessageQueue_default :: char MessageQueue"
  define q1 where "q1 = snd (MessageQueue_write ?q0 (CHR ''a''))"
  define q2 where "q2 = snd (MessageQueue_write_batch q1 ''b'')"
  define q where "q = snd (MessageQueue_write (MessageQueue_update q2) (CHR ''c''))"
  have s1: "reader_session q1 (MessageCursor_new ?q0) True ''a'' []"
    using session_write [OF session_start, of "CHR ''a''"] by (simp add: q1_def)
  have "MessageQueue_len q1 < 2 ^ 64" "MessageCursor_read_all (MessageCursor_new ?q0) q1 = ([(0, CHR ''a'')], MessageCursor 1)"
    by (simp_all add: q1_def MessageQueue_write_def MessageQueue_default_def MessageSequence_default_def Let_def
        MessageQueue_len_def MessageCursor_read_all_def collect_eq MessageWithKeyIter_new_def MessageCursor_new_def
        MessageQueue_oldest_message_index_def MessageCursor_len_def slice_from_def)
  from session_read [OF s1 this] have "reader_session q2 (MessageCursor 1) True ''ab'' ''a''"
    using session_batch [of q1 "MessageCursor 1" True "''a''" "''a''" "''b''"] by (simp add: q2_def)
  from session_write [OF session_update [OF this], of "CHR ''c''"]
  have s: "reader_session q (MessageCursor 1) False ''abc'' ''a''" by (simp add: q_def)
  obtain items1 c1 items2 c2 where r: "MessageCursor_read_all (MessageCursor 1) q = (items1, c1)" "MessageCursor_read_all c1 q = (items2, c2)"
    by fastforce
  have "MessageQueue_len q < 2 ^ 64"
    by (simp add: q_def q2_def q1_def MessageQueue_write_def MessageQueue_update_def MessageQueue_write_batch_def MessageQueue_extend_def
        MessageQueue_default_def MessageSequence_default_def Let_def MessageQueue_len_def)
  from reader_receives_every_message [OF s this r] s r show ?thesis by blast
qed

text \<open>
  C22. A read that starts in the older buffer stops at its end: when a reader's position lies before the newer
  buffer, the iterator yields the unread messages of the older buffer only, although its length counts those of both.
\<close>

theorem read_stops_at_older_buffer:
  assumes "mq_repr W d k q" "d \<le> p" "p < k" "length W - d < 2 ^ 64"
  shows "mi_unread (MessageWithKeyIter_new (MessageCursor (of_nat p)) q) = of_nat (length W - p) \<and>
    MessageCursor_read_all (MessageCursor (of_nat p)) q = (window W p k, MessageCursor (of_nat k))"
proof -
  have p: "p \<le> length W" "length W - p < 2 ^ 64" "max p d = p" using assms by (auto simp: mq_repr_def)
  show ?thesis
    using read_iter_eq [OF assms(1) p(1,2) assms(4)] read_all_from [OF assms(1,2) p(1) assms(4)] assms(3) p(3)
    by (simp del: of_nat_diff)
qed


theorem read_stops_at_older_buffer_witness:
  "\<exists>q. mq_repr ''ab'' 0 1 q \<and> mi_unread (MessageWithKeyIter_new (MessageCursor 0) q) = 2 \<and>
     MessageCursor_read_all (MessageCursor 0) q = ([(0, CHR ''a'')], MessageCursor 1)"
proof -
  define q where "q = snd (MessageQueue_write (MessageQueue_update (snd (MessageQueue_write MessageQueue_default (CHR ''a'')))) (CHR ''b''))"
  have "mq_repr ''ab'' 0 1 q"
    using mq_repr_write [OF mq_repr_update [OF mq_repr_write [OF mq_repr_default, of "CHR ''a''"]], of "CHR ''b''"] by (simp add: q_def)
  from read_stops_at_older_buffer [OF this, of 0] this show ?thesis by (auto simp: window_def)
qed

text \<open>
  C23. Looking a message up by number: while fewer than \<open>2 ^ 64\<close> messages were written, \<open>get\<close> returns exactly the
  messages that are still in one of the two buffers, under their own keys.
\<close>

theorem message_get_by_key:
  assumes "mq_repr W d k q" "length W < 2 ^ 64"
  shows "MessageQueue_get q i = (if d \<le> unat i \<and> unat i < length W then Some (i, W ! unat i) else None)"
proof -
  have dk: "d \<le> k" "k \<le> length W" using assms(1) by (auto simp: mq_repr_def)
  have less: "i < of_nat n \<longleftrightarrow> unat i < n" if "n \<le> length W" for n
    using that assms(2) by (simp add: word_less_nat_alt)
  have sub: "unat (i - of_nat n) = unat i - n" if "n \<le> unat i" "n \<le> length W" for n
    using that assms(2) by (subst unat_minus_le) (simp_all add: word_le_nat_alt)
  have nth: "window W x y ! (unat i - x) = (i, W ! unat i)" if "x \<le> unat i" "unat i < y" for x y
  proof -
    have "[x..<y] ! (unat i - x) = unat i" using that by (subst nth_upt) auto
    then show ?thesis using that by (simp add: window_def)
  qed
  show ?thesis
    using assms(1) less [of d] less [of k] sub [of d] sub [of k] nth [of d k] nth [of k "length W"] dk
    by (auto simp: MessageQueue_get_def mq_repr_def Let_def not_less)
qed

theorem message_get_by_key_witness:
  "\<exists>q. mq_repr ''ab'' 0 0 q \<and> MessageQueue_get q 1 = Some (1, CHR ''b'') \<and> MessageQueue_get q 2 = None"
proof -
  have "mq_repr ''ab'' 0 0 (snd (MessageQueue_write_batch MessageQueue_default ''ab''))"
    using mq_repr_extend [OF mq_repr_default, of "''ab''"] by (simp add: MessageQueue_write_batch_def Let_def)
  from message_get_by_key [OF this, of 1] message_get_by_key [OF this, of 2] this show ?thesis by auto
qed

end
