(* ===== verification/Access.thy ===== *)
theory Access
  imports Prelude "HOL-Library.AList"
begin

text \<open>
  Declared data access of queries and systems (\<open>crates/voker-ecs/src/system/access/\<close>): which
  components, resources or whole worlds a system reads and writes, and the tests by which the scheduler decides
  whether two systems may run at the same time. Sets of ids are sets; the hash map from filters to accesses is an
  association list. A filter's precomputed hash is a function of its ids and not part of the model.
\<close>

section \<open>AccessParam\<close>

record AccessParam =
  ap_entity_mut :: bool
  ap_entity_ref :: bool
  ap_reading :: "ComponentId set"
  ap_writing :: "ComponentId set"

definition AccessParam_new :: AccessParam where
  "AccessParam_new = \<lparr>ap_entity_mut = False, ap_entity_ref = False, ap_reading = {}, ap_writing = {}\<rparr>"

definition AccessParam_can_entity_ref :: "AccessParam \<Rightarrow> bool" where
  "AccessParam_can_entity_ref p \<longleftrightarrow> \<not> ap_entity_mut p \<and> ap_writing p = {}"

definition AccessParam_can_entity_mut :: "AccessParam \<Rightarrow> bool" where
  "AccessParam_can_entity_mut p \<longleftrightarrow> \<not> ap_entity_mut p \<and> \<not> ap_entity_ref p \<and> ap_reading p = {} \<and> ap_writing p = {}"

definition AccessParam_can_reading :: "AccessParam \<Rightarrow> ComponentId \<Rightarrow> bool" where
  "AccessParam_can_reading p i \<longleftrightarrow> \<not> ap_entity_mut p \<and> i \<notin> ap_writing p"

definition AccessParam_can_writing :: "AccessParam \<Rightarrow> ComponentId \<Rightarrow> bool" where
  "AccessParam_can_writing p i \<longleftrightarrow> \<not> ap_entity_mut p \<and> \<not> ap_entity_ref p \<and> i \<notin> ap_reading p"

definition AccessParam_set_entity_ref :: "AccessParam \<Rightarrow> bool \<times> AccessParam" where
  "AccessParam_set_entity_ref p =
     (if AccessParam_can_entity_ref p then (True, p\<lparr>ap_entity_ref := True, ap_reading := {}\<rparr>)
      else (False, p\<lparr>ap_entity_ref := True\<rparr>))"

definition AccessParam_set_entity_mut :: "AccessParam \<Rightarrow> bool \<times> AccessParam" where
  "AccessParam_set_entity_mut p =
     (if AccessParam_can_entity_mut p then (True, p\<lparr>ap_entity_mut := True, ap_reading := {}, ap_writing := {}\<rparr>)
      else (False, p\<lparr>ap_entity_mut := True\<rparr>))"

definition AccessParam_set_reading :: "AccessParam \<Rightarrow> ComponentId \<Rightarrow> bool \<times> AccessParam" where
  "AccessParam_set_reading p i =
     (if AccessParam_can_reading p i
      then (True, if ap_entity_ref p then p else p\<lparr>ap_reading := insert i (ap_reading p)\<rparr>)
      else (False, p\<lparr>ap_reading := insert i (ap_reading p)\<rparr>))"

definition AccessParam_set_writing :: "AccessParam \<Rightarrow> ComponentId \<Rightarrow> bool \<times> AccessParam" where
  "AccessParam_set_writing p i =
     (if AccessParam_can_writing p i
      then (True, p\<lparr>ap_reading := insert i (ap_reading p), ap_writing := insert i (ap_writing p)\<rparr>)
      else (False, p\<lparr>ap_reading := insert i (ap_reading p), ap_writing := insert i (ap_writing p)\<rparr>))"

definition AccessParam_is_read_only :: "AccessParam \<Rightarrow> bool" where
  "AccessParam_is_read_only p \<longleftrightarrow> \<not> ap_entity_mut p \<and> ap_writing p = {}"

definition AccessParam_parallelizable :: "AccessParam \<Rightarrow> AccessParam \<Rightarrow> bool" where
  "AccessParam_parallelizable p q =
     (if ap_entity_mut p \<or> ap_entity_mut q then False
      else if ap_entity_ref p then ap_writing q = {}
      else if ap_entity_ref q then ap_writing p = {}
      else ap_writing p \<inter> ap_reading q = {} \<and> ap_writing q \<inter> ap_reading p = {})"

definition AccessParam_force_reading :: "AccessParam \<Rightarrow> ComponentId \<Rightarrow> AccessParam" where
  "AccessParam_force_reading p i =
     (if \<not> ap_entity_mut p \<and> \<not> ap_entity_ref p then p\<lparr>ap_reading := insert i (ap_reading p)\<rparr> else p)"

definition AccessParam_merge_with :: "AccessParam \<Rightarrow> AccessParam \<Rightarrow> AccessParam" where
  "AccessParam_merge_with p q =
     (let p = p\<lparr>ap_entity_mut := ap_entity_mut p \<or> ap_entity_mut q, ap_entity_ref := ap_entity_ref p \<and> ap_entity_ref q\<rparr>
      in if ap_entity_mut p \<or> ap_entity_ref p then p\<lparr>ap_writing := {}, ap_reading := {}\<rparr>
         else p\<lparr>ap_reading := ap_reading p \<union> ap_reading q, ap_writing := ap_writing p \<union> ap_writing q\<rparr>)"

section \<open>Filters\<close>

record FilterParamBuilder =
  fb_with :: "ComponentId set"
  fb_without :: "ComponentId set"

definition FilterParamBuilder_new :: FilterParamBuilder where
  "FilterParamBuilder_new = \<lparr>fb_with = {}, fb_without = {}\<rparr>"

definition FilterParamBuilder_with :: "FilterParamBuilder \<Rightarrow> ComponentId \<Rightarrow> FilterParamBuilder" where
  "FilterParamBuilder_with b i = b\<lparr>fb_with := insert i (fb_with b)\<rparr>"

definition FilterParamBuilder_without :: "FilterParamBuilder \<Rightarrow> ComponentId \<Rightarrow> FilterParamBuilder" where
  "FilterParamBuilder_without b i = b\<lparr>fb_without := insert i (fb_without b)\<rparr>"

definition FilterParamBuilder_merge :: "FilterParamBuilder \<Rightarrow> FilterParamBuilder \<Rightarrow> FilterParamBuilder option" where
  "FilterParamBuilder_merge a b =
     (if fb_with a \<inter> fb_without b = {} \<and> fb_with b \<inter> fb_without a = {}
      then Some \<lparr>fb_with = fb_with a \<union> fb_with b, fb_without = fb_without a \<union> fb_without b\<rparr>
      else None)"

record FilterParam =
  fp_with_len :: nat
  fp_params :: "ComponentId list"

definition FilterParamBuilder_build :: "FilterParamBuilder \<Rightarrow> FilterParam option" where
  "FilterParamBuilder_build b =
     (if fb_with b \<inter> fb_without b = {}
      then let with_len = card (fb_with b)
           in Some \<lparr>fp_with_len = with_len,
                    fp_params = sorted_list_of_set (fb_with b) @ sorted_list_of_set (fb_without b)\<rparr>
      else None)"

definition FilterParam_with :: "FilterParam \<Rightarrow> ComponentId list" where
  "FilterParam_with f = take (fp_with_len f) (fp_params f)"

definition FilterParam_without :: "FilterParam \<Rightarrow> ComponentId list" where
  "FilterParam_without f = drop (fp_with_len f) (fp_params f)"

definition contains_component :: "ComponentId \<Rightarrow> ComponentId list \<Rightarrow> bool" where
  "contains_component i xs \<longleftrightarrow> i \<in> set xs"

definition FilterParam_is_disjoint :: "FilterParam \<Rightarrow> FilterParam \<Rightarrow> bool" where
  "FilterParam_is_disjoint x y \<longleftrightarrow>
     list_ex (\<lambda>i. contains_component i (FilterParam_with y)) (FilterParam_without x) \<or>
     list_ex (\<lambda>i. contains_component i (FilterParam_with x)) (FilterParam_without y)"

section \<open>AccessTable\<close>

record AccessTable =
  at_world_mut :: bool
  at_world_ref :: bool
  at_res_reading :: "ResourceId set"
  at_res_writing :: "ResourceId set"
  at_filter :: "(FilterParam \<times> AccessParam) list"

definition AccessTable_new :: AccessTable where
  "AccessTable_new = \<lparr>at_world_mut = False, at_world_ref = False, at_res_reading = {}, at_res_writing = {}, at_filter = []\<rparr>"

definition AccessTable_can_world_mut :: "AccessTable \<Rightarrow> bool" where
  "AccessTable_can_world_mut t \<longleftrightarrow> \<not> at_world_mut t \<and> \<not> at_world_ref t \<and>
     at_res_reading t = {} \<and> at_res_writing t = {} \<and> at_filter t = []"

definition AccessTable_can_world_ref :: "AccessTable \<Rightarrow> bool" where
  "AccessTable_can_world_ref t \<longleftrightarrow> \<not> at_world_mut t \<and> at_res_writing t = {} \<and>
     list_all (\<lambda>(_, p). AccessParam_is_read_only p) (at_filter t)"

definition AccessTable_set_world_mut :: "AccessTable \<Rightarrow> bool \<times> AccessTable" where
  "AccessTable_set_world_mut t =
     (if AccessTable_can_world_mut t then (True, AccessTable_new\<lparr>at_world_mut := True\<rparr>)
      else (False, t\<lparr>at_world_mut := True\<rparr>))"

definition AccessTable_set_world_ref :: "AccessTable \<Rightarrow> bool \<times> AccessTable" where
  "AccessTable_set_world_ref t =
     (if AccessTable_can_world_ref t
      then (True, if at_world_ref t then t else AccessTable_new\<lparr>at_world_ref := True\<rparr>)
      else (False, t\<lparr>at_world_ref := True\<rparr>))"

definition AccessTable_can_reading_res :: "AccessTable \<Rightarrow> ResourceId \<Rightarrow> bool" where
  "AccessTable_can_reading_res t i \<longleftrightarrow> at_world_ref t \<or> (\<not> at_world_mut t \<and> i \<notin> at_res_writing t)"

definition AccessTable_can_writing_res :: "AccessTable \<Rightarrow> ResourceId \<Rightarrow> bool" where
  "AccessTable_can_writing_res t i \<longleftrightarrow> \<not> at_world_ref t \<and> \<not> at_world_mut t \<and> i \<notin> at_res_reading t"

definition AccessTable_set_reading_res :: "AccessTable \<Rightarrow> ResourceId \<Rightarrow> bool \<times> AccessTable" where
  "AccessTable_set_reading_res t i =
     (if AccessTable_can_reading_res t i
      then (True, if at_world_ref t then t else t\<lparr>at_res_reading := insert i (at_res_reading t)\<rparr>)
      else (False, t\<lparr>at_res_reading := insert i (at_res_reading t)\<rparr>))"

definition AccessTable_set_writing_res :: "AccessTable \<Rightarrow> ResourceId \<Rightarrow> bool \<times> AccessTable" where
  "AccessTable_set_writing_res t i =
     (if AccessTable_can_writing_res t i
      then (True, t\<lparr>at_res_reading := insert i (at_res_reading t), at_res_writing := insert i (at_res_writing t)\<rparr>)
      else (False, t\<lparr>at_res_reading := insert i (at_res_reading t), at_res_writing := insert i (at_res_writing t)\<rparr>))"

definition AccessTable_can_query :: "AccessTable \<Rightarrow> AccessParam \<Rightarrow> FilterParam list \<Rightarrow> bool" where
  "AccessTable_can_query t data params =
     (if at_world_mut t then False
      else if at_world_ref t then AccessParam_is_read_only data
      else list_all (\<lambda>param. list_all (\<lambda>(k, v).
             if FilterParam_is_disjoint k param then True else AccessParam_parallelizable data v) (at_filter t)) params)"

text \<open>Adding an access under a filter: merged with the entry of an equal filter, or a new entry.\<close>

definition filter_add :: "FilterParam \<Rightarrow> AccessParam \<Rightarrow> (FilterParam \<times> AccessParam) list \<Rightarrow> (FilterParam \<times> AccessParam) list" where
  "filter_add param data m =
     (case map_of m param of
        Some item \<Rightarrow> AList.update param (AccessParam_merge_with item data) m
      | None \<Rightarrow> AList.update param data m)"

definition AccessTable_set_query :: "AccessTable \<Rightarrow> AccessParam \<Rightarrow> FilterParam list \<Rightarrow> bool \<times> AccessTable" where
  "AccessTable_set_query t data params =
     (if AccessTable_can_query t data params
      then (True, if at_world_ref t then t
                  else t\<lparr>at_filter := fold (\<lambda>param. filter_add param data) params (at_filter t)\<rparr>)
      else (False, t\<lparr>at_filter := fold (\<lambda>param. filter_add param data) params (at_filter t)\<rparr>))"

definition AccessTable_parallelizable :: "AccessTable \<Rightarrow> AccessTable \<Rightarrow> bool" where
  "AccessTable_parallelizable s t =
     (if at_world_mut s \<or> at_world_mut t then False
      else if at_res_writing s \<inter> at_res_reading t \<noteq> {} \<or> at_res_writing t \<inter> at_res_reading s \<noteq> {} then False
      else list_all (\<lambda>(k, v). list_all (\<lambda>(x, y).
             if FilterParam_is_disjoint k x then True else AccessParam_parallelizable v y) (at_filter t)) (at_filter s))"

definition AccessTable_merge :: "AccessTable \<Rightarrow> AccessTable \<Rightarrow> AccessTable" where
  "AccessTable_merge s t =
     (let s = s\<lparr>at_world_mut := at_world_mut s \<or> at_world_mut t, at_world_ref := at_world_ref s \<or> at_world_ref t\<rparr>
      in if at_world_mut s then s\<lparr>at_res_reading := {}, at_res_writing := {}, at_filter := []\<rparr>
         else s\<lparr>at_res_reading := at_res_reading s \<union> at_res_reading t,
                at_res_writing := at_res_writing s \<union> at_res_writing t,
                at_filter := fold (\<lambda>(param, data). filter_add param data) (at_filter t) (at_filter s)\<rparr>)"

section \<open>Component requests\<close>

datatype comp_request = Read_comp ComponentId | Write_comp ComponentId | Entity_ref | Entity_mut

fun request :: "comp_request \<Rightarrow> AccessParam \<Rightarrow> bool \<times> AccessParam" where
  "request (Read_comp i) p = AccessParam_set_reading p i"
| "request (Write_comp i) p = AccessParam_set_writing p i"
| "request Entity_ref p = AccessParam_set_entity_ref p"
| "request Entity_mut p = AccessParam_set_entity_mut p"

fun request_all :: "comp_request list \<Rightarrow> AccessParam \<Rightarrow> bool \<times> AccessParam" where
  "request_all [] p = (True, p)"
| "request_all (r # rs) p = (let (ok, p) = request r p; (oks, p) = request_all rs p in (ok \<and> oks, p))"

text \<open>Two references that Rust's aliasing rules do not allow at the same time.\<close>

fun conflicting :: "comp_request \<Rightarrow> comp_request \<Rightarrow> bool" where
  "conflicting Entity_mut _ = True"
| "conflicting _ Entity_mut = True"
| "conflicting Entity_ref (Write_comp _) = True"
| "conflicting (Write_comp _) Entity_ref = True"
| "conflicting (Write_comp i) (Write_comp j) = (i = j)"
| "conflicting (Write_comp i) (Read_comp j) = (i = j)"
| "conflicting (Read_comp i) (Write_comp j) = (i = j)"
| "conflicting _ _ = False"

definition records :: "comp_request list \<Rightarrow> AccessParam \<Rightarrow> bool" where
  "records rs p \<longleftrightarrow> ap_entity_mut p = (Entity_mut \<in> set rs) \<and> ap_entity_ref p = (Entity_ref \<in> set rs) \<and>
     ap_writing p = {i. Write_comp i \<in> set rs} \<and>
     ap_reading p = (if Entity_ref \<in> set rs then {} else {i. Read_comp i \<in> set rs \<or> Write_comp i \<in> set rs})"

lemmas access_defs = AccessParam_set_reading_def AccessParam_set_writing_def AccessParam_set_entity_ref_def AccessParam_set_entity_mut_def
  AccessParam_can_reading_def AccessParam_can_writing_def AccessParam_can_entity_ref_def AccessParam_can_entity_mut_def

lemma ball_conflicting:
  "(\<forall>s \<in> set rs. \<not> conflicting s (Read_comp i)) \<longleftrightarrow> Entity_mut \<notin> set rs \<and> Write_comp i \<notin> set rs"
  "(\<forall>s \<in> set rs. \<not> conflicting s (Write_comp i)) \<longleftrightarrow>
     Entity_mut \<notin> set rs \<and> Entity_ref \<notin> set rs \<and> Write_comp i \<notin> set rs \<and> Read_comp i \<notin> set rs"
  "(\<forall>s \<in> set rs. \<not> conflicting s Entity_ref) \<longleftrightarrow> Entity_mut \<notin> set rs \<and> (\<forall>i. Write_comp i \<notin> set rs)"
  "(\<forall>s \<in> set rs. \<not> conflicting s Entity_mut) \<longleftrightarrow> rs = []"
proof -
  have all: "(\<forall>s \<in> set rs. P s) \<longleftrightarrow> (\<forall>i. Read_comp i \<in> set rs \<longrightarrow> P (Read_comp i)) \<and> (\<forall>i. Write_comp i \<in> set rs \<longrightarrow> P (Write_comp i)) \<and>
      (Entity_ref \<in> set rs \<longrightarrow> P Entity_ref) \<and> (Entity_mut \<in> set rs \<longrightarrow> P Entity_mut)" for P
    by (metis comp_request.exhaust)
  show "(\<forall>s \<in> set rs. \<not> conflicting s (Read_comp i)) \<longleftrightarrow> Entity_mut \<notin> set rs \<and> Write_comp i \<notin> set rs" unfolding all by auto
  show "(\<forall>s \<in> set rs. \<not> conflicting s (Write_comp i)) \<longleftrightarrow>
     Entity_mut \<notin> set rs \<and> Entity_ref \<notin> set rs \<and> Write_comp i \<notin> set rs \<and> Read_comp i \<notin> set rs" unfolding all by auto
  show "(\<forall>s \<in> set rs. \<not> conflicting s Entity_ref) \<longleftrightarrow> Entity_mut \<notin> set rs \<and> (\<forall>i. Write_comp i \<notin> set rs)" unfolding all by auto
  have "conflicting s Entity_mut" for s by (cases s) auto
  then show "(\<forall>s \<in> set rs. \<not> conflicting s Entity_mut) \<longleftrightarrow> rs = []" by (cases rs) auto
qed

lemma request_step:
  assumes "records rs p" "request r p = (ok, p')"
  shows "ok \<longleftrightarrow> (\<forall>s \<in> set rs. \<not> conflicting s r)" "ok \<Longrightarrow> records (rs @ [r]) p'"
proof -
  have empty: "rs = [] \<longleftrightarrow> Entity_mut \<notin> set rs \<and> Entity_ref \<notin> set rs \<and> (\<forall>i. Read_comp i \<notin> set rs) \<and> (\<forall>i. Write_comp i \<notin> set rs)"
    by (cases rs) (auto, metis comp_request.exhaust)
  show acc: "ok \<longleftrightarrow> (\<forall>s \<in> set rs. \<not> conflicting s r)"
  proof (cases r)
    case Entity_mut
    then show ?thesis using assms unfolding ball_conflicting empty records_def Entity_mut
      by (auto simp: access_defs split: if_splits)
  qed (use assms in \<open>auto simp: ball_conflicting records_def access_defs split: if_splits\<close>)
  show "records (rs @ [r]) p'" if ok
  proof (cases r)
    case Entity_mut
    then show ?thesis using assms that acc unfolding ball_conflicting empty records_def Entity_mut
      by (auto simp: access_defs split: if_splits)
  qed (use assms that in \<open>auto simp: records_def access_defs split: if_splits\<close>)
qed

lemma request_all_records:
  "records rs p \<Longrightarrow> request_all qs p = (ok, p') \<Longrightarrow>
   (ok \<longleftrightarrow> sorted_wrt (\<lambda>r s. \<not> conflicting r s) qs \<and> (\<forall>r \<in> set rs. \<forall>q \<in> set qs. \<not> conflicting r q)) \<and> (ok \<longrightarrow> records (rs @ qs) p')"
proof (induction qs arbitrary: rs p ok)
  case (Cons q qs)
  obtain ok1 p1 ok2 where q: "request q p = (ok1, p1)" "request_all qs p1 = (ok2, p')" "ok = (ok1 \<and> ok2)"
    using Cons.prems(2) by (auto split: prod.splits)
  note s = request_step [OF Cons.prems(1) q(1)]
  show ?case
  proof (cases ok1)
    case True
    with Cons.IH [OF s(2) [OF True] q(2)] s(1) q(3) show ?thesis by auto
  next
    case False
    with s(1) q(3) show ?thesis by auto
  qed
qed simp

section \<open>Which locations an access reaches\<close>

datatype location = Loc_res ResourceId | Loc_comp "ComponentId set" ComponentId

text \<open>\<open>Loc_comp C i\<close>: component \<open>i\<close> of an entity whose components are \<open>C\<close>.\<close>

definition param_reads :: "AccessParam \<Rightarrow> ComponentId \<Rightarrow> bool" where
  "param_reads p i \<longleftrightarrow> ap_entity_mut p \<or> ap_entity_ref p \<or> i \<in> ap_reading p"

definition param_writes :: "AccessParam \<Rightarrow> ComponentId \<Rightarrow> bool" where
  "param_writes p i \<longleftrightarrow> ap_entity_mut p \<or> i \<in> ap_writing p"

definition filter_matches :: "FilterParam \<Rightarrow> ComponentId set \<Rightarrow> bool" where
  "filter_matches f C \<longleftrightarrow> set (FilterParam_with f) \<subseteq> C \<and> set (FilterParam_without f) \<inter> C = {}"

lemma filter_disjoint_matches: "FilterParam_is_disjoint x y \<Longrightarrow> filter_matches x C \<Longrightarrow> \<not> filter_matches y C"
  by (auto simp: FilterParam_is_disjoint_def filter_matches_def contains_component_def list_ex_iff)

lemma filter_build_sets:
  assumes "FilterParamBuilder_build b = Some f" "finite (fb_with b)" "finite (fb_without b)"
  shows "set (FilterParam_with f) = fb_with b" "set (FilterParam_without f) = fb_without b" "fb_with b \<inter> fb_without b = {}"
  using assms by (auto simp: FilterParamBuilder_build_def FilterParam_with_def FilterParam_without_def Let_def split: if_splits)

definition param_ok :: "AccessParam \<Rightarrow> bool" where
  "param_ok p \<longleftrightarrow> ap_writing p \<subseteq> ap_reading p \<and> (ap_entity_ref p \<longrightarrow> ap_writing p = {})"

definition param_no_conflict :: "AccessParam \<Rightarrow> AccessParam \<Rightarrow> bool" where
  "param_no_conflict p q \<longleftrightarrow> (\<forall>i. \<not> (param_writes p i \<and> param_reads q i) \<and> \<not> (param_writes q i \<and> param_reads p i))"

lemma parallelizable_no_conflict:
  "param_ok p \<Longrightarrow> param_ok q \<Longrightarrow> AccessParam_parallelizable p q \<Longrightarrow> param_no_conflict p q"
  by (auto simp: AccessParam_parallelizable_def param_no_conflict_def param_ok_def param_writes_def param_reads_def split: if_splits)

definition param_covers :: "AccessParam \<Rightarrow> AccessParam \<Rightarrow> bool" where
  "param_covers p q \<longleftrightarrow> (\<forall>i. (param_reads q i \<longrightarrow> param_reads p i) \<and> (param_writes q i \<longrightarrow> param_writes p i))"

lemma param_covers_refl [simp]: "param_covers p p"
  by (simp add: param_covers_def)

lemma param_covers_trans: "param_covers p q \<Longrightarrow> param_covers q r \<Longrightarrow> param_covers p r"
  by (simp add: param_covers_def)

text \<open>Merging keeps both accesses as long as both or neither hold a shared reference to whole entities.\<close>

lemma merge_covers:
  assumes "ap_entity_ref p = b" "ap_entity_ref q = b" "param_ok p" "param_ok q"
  shows "param_covers (AccessParam_merge_with p q) p" "param_covers (AccessParam_merge_with p q) q"
    "param_ok (AccessParam_merge_with p q)" "ap_entity_ref (AccessParam_merge_with p q) = b"
  using assms by (auto simp: AccessParam_merge_with_def param_covers_def param_reads_def param_writes_def param_ok_def Let_def)

section \<open>System requests\<close>

datatype sys_request =
    Req_world_mut | Req_world_ref | Req_res_read ResourceId | Req_res_write ResourceId
  | Req_query AccessParam "FilterParam list"

fun declare_request :: "sys_request \<Rightarrow> AccessTable \<Rightarrow> bool \<times> AccessTable" where
  "declare_request Req_world_mut t = AccessTable_set_world_mut t"
| "declare_request Req_world_ref t = AccessTable_set_world_ref t"
| "declare_request (Req_res_read i) t = AccessTable_set_reading_res t i"
| "declare_request (Req_res_write i) t = AccessTable_set_writing_res t i"
| "declare_request (Req_query p fs) t = AccessTable_set_query t p fs"

fun entries_reach :: "(AccessParam \<Rightarrow> ComponentId \<Rightarrow> bool) \<Rightarrow> (FilterParam \<times> AccessParam) list \<Rightarrow> location \<Rightarrow> bool" where
  "entries_reach acc es (Loc_res i) = False"
| "entries_reach acc es (Loc_comp C i) = (\<exists>(f, p) \<in> set es. filter_matches f C \<and> acc p i)"

definition table_reads :: "AccessTable \<Rightarrow> location \<Rightarrow> bool" where
  "table_reads t l \<longleftrightarrow> at_world_mut t \<or> at_world_ref t \<or> (\<exists>i \<in> at_res_reading t. l = Loc_res i) \<or> entries_reach param_reads (at_filter t) l"

definition table_writes :: "AccessTable \<Rightarrow> location \<Rightarrow> bool" where
  "table_writes t l \<longleftrightarrow> at_world_mut t \<or> (\<exists>i \<in> at_res_writing t. l = Loc_res i) \<or> entries_reach param_writes (at_filter t) l"

fun req_reads :: "sys_request \<Rightarrow> location \<Rightarrow> bool" where
  "req_reads Req_world_mut l = True"
| "req_reads Req_world_ref l = True"
| "req_reads (Req_res_read i) l = (l = Loc_res i)"
| "req_reads (Req_res_write i) l = (l = Loc_res i)"
| "req_reads (Req_query p fs) l = entries_reach param_reads (map (\<lambda>f. (f, p)) fs) l"

fun req_writes :: "sys_request \<Rightarrow> location \<Rightarrow> bool" where
  "req_writes Req_world_mut l = True"
| "req_writes (Req_res_write i) l = (l = Loc_res i)"
| "req_writes (Req_query p fs) l = entries_reach param_writes (map (\<lambda>f. (f, p)) fs) l"
| "req_writes _ l = False"

text \<open>
  \<open>by_ref f\<close> says whether the queries under filter \<open>f\<close> hold an \<open>EntityRef\<close>: within one system they have to agree.
\<close>

fun req_ok :: "(FilterParam \<Rightarrow> bool) \<Rightarrow> sys_request \<Rightarrow> bool" where
  "req_ok by_ref (Req_query p fs) = (param_ok p \<and> (\<forall>f \<in> set fs. ap_entity_ref p = by_ref f))"
| "req_ok by_ref _ = True"

definition req_no_conflict :: "sys_request \<Rightarrow> sys_request \<Rightarrow> bool" where
  "req_no_conflict r s \<longleftrightarrow> (\<forall>l. \<not> (req_writes r l \<and> req_reads s l) \<and> \<not> (req_writes s l \<and> req_reads r l))"

definition table_ok :: "(FilterParam \<Rightarrow> bool) \<Rightarrow> AccessTable \<Rightarrow> bool" where
  "table_ok by_ref t \<longleftrightarrow> at_res_writing t \<subseteq> at_res_reading t \<and> distinct (map fst (at_filter t)) \<and>
     (at_world_ref t \<longrightarrow> \<not> at_world_mut t \<and> at_res_writing t = {} \<and> at_filter t = []) \<and>
     (\<forall>(f, p) \<in> set (at_filter t). param_ok p \<and> ap_entity_ref p = by_ref f)"

definition table_covers :: "AccessTable \<Rightarrow> sys_request \<Rightarrow> bool" where
  "table_covers t r \<longleftrightarrow> (\<forall>l. (req_reads r l \<longrightarrow> table_reads t l) \<and> (req_writes r l \<longrightarrow> table_writes t l))"

text \<open>Every entry of the first list has a covering entry with the same filter in the second.\<close>

definition entries_cover :: "(FilterParam \<times> AccessParam) list \<Rightarrow> (FilterParam \<times> AccessParam) list \<Rightarrow> bool" where
  "entries_cover es es' \<longleftrightarrow> (\<forall>(f, p) \<in> set es. \<exists>p'. (f, p') \<in> set es' \<and> param_covers p' p)"

lemma entries_cover_reach:
  assumes "entries_cover es es'"
  shows "entries_reach param_reads es l \<Longrightarrow> entries_reach param_reads es' l"
    "entries_reach param_writes es l \<Longrightarrow> entries_reach param_writes es' l"
  using assms by (cases l, simp, fastforce simp: entries_cover_def param_covers_def)+

lemma entries_cover_trans: "entries_cover a b \<Longrightarrow> entries_cover b c \<Longrightarrow> entries_cover a c"
  unfolding entries_cover_def by (fastforce intro: param_covers_trans)

definition entries_ok :: "(FilterParam \<Rightarrow> bool) \<Rightarrow> (FilterParam \<times> AccessParam) list \<Rightarrow> bool" where
  "entries_ok by_ref es \<longleftrightarrow> distinct (map fst es) \<and> (\<forall>(f, p) \<in> set es. param_ok p \<and> ap_entity_ref p = by_ref f)"

lemma set_update_iff:
  "distinct (map fst m) \<Longrightarrow> (f, p) \<in> set (AList.update k v m) \<longleftrightarrow> (if f = k then p = v else (f, p) \<in> set m)"
  using map_of_eq_Some_iff [of m f p] map_of_eq_Some_iff [of "AList.update k v m" f p] by (auto simp: distinct_update update_conv')

lemma filter_add_spec:
  assumes ok: "entries_ok by_ref m" and d: "param_ok data" "ap_entity_ref data = by_ref f"
  shows "entries_ok by_ref (filter_add f data m)" "entries_cover m (filter_add f data m)" "entries_cover [(f, data)] (filter_add f data m)"
proof -
  have dist: "distinct (map fst m)" using ok by (simp add: entries_ok_def)
  obtain v where v: "filter_add f data m = AList.update f v m" "param_ok v" "ap_entity_ref v = by_ref f" "param_covers v data"
    "\<And>p. (f, p) \<in> set m \<Longrightarrow> param_covers v p"
  proof (cases "map_of m f")
    case None
    then have "(f, p) \<notin> set m" for p by (metis map_of_eq_None_iff fst_conv image_eqI)
    then show thesis using None d that [of data] by (auto simp: filter_add_def)
  next
    case (Some item)
    then have item: "(f, item) \<in> set m" "param_ok item" "ap_entity_ref item = by_ref f"
      using ok by (auto simp: entries_ok_def dest: map_of_SomeD)
    have "p = item" if "(f, p) \<in> set m" for p using that Some map_of_eq_Some_iff [OF dist, of f p] by simp
    then show thesis using Some merge_covers [OF item(3) d(2) item(2) d(1)] that [of "AccessParam_merge_with item data"]
      by (auto simp: filter_add_def)
  qed
  show "entries_ok by_ref (filter_add f data m)"
    using ok v(2,3) unfolding v(1) entries_ok_def by (auto simp: distinct_update set_update_iff split: if_splits)
  show "entries_cover m (filter_add f data m)"
    unfolding v(1) entries_cover_def
  proof clarify
    fix k p assume "(k, p) \<in> set m"
    then show "\<exists>p'. (k, p') \<in> set (AList.update f v m) \<and> param_covers p' p"
      using v(5) [of p] dist by (cases "k = f") (auto simp: set_update_iff intro: param_covers_refl)
  qed
  show "entries_cover [(f, data)] (filter_add f data m)"
    unfolding v(1) entries_cover_def using v(4) dist by (auto simp: set_update_iff)
qed

lemma filter_add_all:
  assumes "entries_ok by_ref m" "\<forall>(f, p) \<in> set es. param_ok p \<and> ap_entity_ref p = by_ref f"
  shows "entries_ok by_ref (fold (\<lambda>(f, p). filter_add f p) es m) \<and> entries_cover m (fold (\<lambda>(f, p). filter_add f p) es m) \<and>
    entries_cover es (fold (\<lambda>(f, p). filter_add f p) es m)"
  using assms
proof (induction es arbitrary: m)
  case (Cons e es)
  obtain f p where e: "e = (f, p)" by (cases e)
  have p: "param_ok p" "ap_entity_ref p = by_ref f" using Cons.prems(2) e by auto
  note a = filter_add_spec [OF Cons.prems(1) p]
  let ?r = "fold (\<lambda>(f, p). filter_add f p) es (filter_add f p m)"
  have b: "entries_ok by_ref ?r" "entries_cover (filter_add f p m) ?r" "entries_cover es ?r"
    using Cons.IH [OF a(1)] Cons.prems(2) by auto
  from entries_cover_trans [OF a(2) b(2)] entries_cover_trans [OF a(3) b(2)] b(1,3) show ?case
    by (auto simp: entries_cover_def e)
qed (auto simp: entries_cover_def intro: param_covers_refl)

lemma table_ok_entries: "table_ok by_ref t \<Longrightarrow> entries_ok by_ref (at_filter t)"
  by (simp add: table_ok_def entries_ok_def)

lemma table_covers_mono:
  assumes "table_covers t r" "\<And>l. table_reads t l \<Longrightarrow> table_reads t' l" "\<And>l. table_writes t l \<Longrightarrow> table_writes t' l"
  shows "table_covers t' r"
  using assms by (simp add: table_covers_def)

text \<open>What an accepted request leaves: a good table that reaches all it reached before and the request.\<close>

lemma declare_request_covers:
  assumes ok: "table_ok by_ref t" and r: "req_ok by_ref r" and acc: "declare_request r t = (True, t')"
  shows "table_ok by_ref t' \<and> table_covers t' r \<and> (\<forall>l. (table_reads t l \<longrightarrow> table_reads t' l) \<and> (table_writes t l \<longrightarrow> table_writes t' l))"
proof (cases r)
  case Req_world_mut
  then show ?thesis using acc
    by (auto simp: AccessTable_set_world_mut_def table_ok_def AccessTable_new_def table_covers_def table_reads_def table_writes_def split: if_splits)
next
  case Req_world_ref
  have "\<not> entries_reach param_writes (at_filter t) l" if "AccessTable_can_world_ref t" for l
    using that ok by (cases l) (auto simp: AccessTable_can_world_ref_def list_all_iff AccessParam_is_read_only_def param_writes_def)
  then show ?thesis using Req_world_ref acc ok
    by (auto simp: AccessTable_set_world_ref_def AccessTable_can_world_ref_def table_ok_def AccessTable_new_def table_covers_def
        table_reads_def table_writes_def split: if_splits)
next
  case (Req_res_read i)
  then show ?thesis using acc ok
    by (auto simp: AccessTable_set_reading_res_def table_ok_def table_covers_def table_reads_def table_writes_def split: if_splits)
next
  case (Req_res_write i)
  then show ?thesis using acc ok
    by (auto simp: AccessTable_set_writing_res_def AccessTable_can_writing_res_def table_ok_def table_covers_def table_reads_def
        table_writes_def split: if_splits)
next
  case (Req_query p fs)
  have p: "\<forall>(f, p) \<in> set (map (\<lambda>f. (f, p)) fs). param_ok p \<and> ap_entity_ref p = by_ref f" using r Req_query by auto
  have can: "AccessTable_can_query t p fs" using acc Req_query by (auto simp: AccessTable_set_query_def split: if_splits)
  show ?thesis
  proof (cases "at_world_ref t")
    case True
    then have "AccessParam_is_read_only p" using can by (auto simp: AccessTable_can_query_def split: if_splits)
    then have "\<not> req_writes r l" for l
      using Req_query by (cases l) (auto simp: AccessParam_is_read_only_def param_writes_def)
    then show ?thesis using True ok acc Req_query can
      by (auto simp: AccessTable_set_query_def table_covers_def table_reads_def)
  next
    case False
    let ?es = "fold (\<lambda>f. filter_add f p) fs (at_filter t)"
    have t': "t' = t\<lparr>at_filter := ?es\<rparr>" using acc Req_query can False by (simp add: AccessTable_set_query_def)
    have a: "entries_ok by_ref ?es" "entries_cover (at_filter t) ?es" "entries_cover (map (\<lambda>f. (f, p)) fs) ?es"
      using filter_add_all [OF table_ok_entries [OF ok] p] by (simp_all add: fold_map comp_def)
    have "table_ok by_ref t'" using a ok False by (auto simp: t' table_ok_def entries_ok_def)
    moreover have "table_covers t' r"
      using entries_cover_reach [of "map (\<lambda>f. (f, p)) fs" ?es] a unfolding Req_query table_covers_def table_reads_def table_writes_def t' by simp
    ultimately show ?thesis
      using entries_cover_reach [of "at_filter t" ?es] a by (auto simp: t' table_reads_def table_writes_def)
  qed
qed

lemma reach_disjoint_entries:
  assumes "\<And>f p g q. (f, p) \<in> set es \<Longrightarrow> (g, q) \<in> set es' \<Longrightarrow> \<not> FilterParam_is_disjoint f g \<Longrightarrow> param_no_conflict p q"
  shows "\<not> (entries_reach param_writes es l \<and> entries_reach param_reads es' l)"
    "\<not> (entries_reach param_reads es l \<and> entries_reach param_writes es' l)"
proof -
  have "param_no_conflict p q" if "(f, p) \<in> set es" "(g, q) \<in> set es'" "filter_matches f C" "filter_matches g C" for f p g q C
    using assms [OF that(1,2)] filter_disjoint_matches [of f g C] that(3,4) by blast
  then show "\<not> (entries_reach param_writes es l \<and> entries_reach param_reads es' l)"
    "\<not> (entries_reach param_reads es l \<and> entries_reach param_writes es' l)"
    by (cases l; fastforce simp: param_no_conflict_def)+
qed

lemma param_writes_reads: "param_ok p \<Longrightarrow> param_writes p i \<Longrightarrow> param_reads p i"
  by (auto simp: param_ok_def param_writes_def param_reads_def)

lemma declare_request_no_conflict:
  assumes ok: "table_ok by_ref t" and r: "req_ok by_ref r" and acc: "declare_request r t = (True, t')"
  shows "\<not> (req_writes r l \<and> table_reads t l) \<and> \<not> (req_reads r l \<and> table_writes t l)"
proof (cases r)
  case Req_world_mut
  then show ?thesis using acc
    by (cases l) (auto simp: AccessTable_set_world_mut_def AccessTable_can_world_mut_def table_reads_def table_writes_def split: if_splits)
next
  case Req_world_ref
  then show ?thesis using acc ok
    by (cases l) (auto simp: AccessTable_set_world_ref_def AccessTable_can_world_ref_def table_writes_def list_all_iff
        AccessParam_is_read_only_def param_writes_def split: if_splits)
next
  case (Req_res_read i)
  then show ?thesis using acc ok
    by (cases l) (auto simp: AccessTable_set_reading_res_def AccessTable_can_reading_res_def table_writes_def table_ok_def split: if_splits)
next
  case (Req_res_write i)
  then show ?thesis using acc ok
    by (cases l) (auto simp: AccessTable_set_writing_res_def AccessTable_can_writing_res_def table_writes_def table_reads_def table_ok_def split: if_splits)
next
  case (Req_query p fs)
  have can: "AccessTable_can_query t p fs" using acc Req_query by (auto simp: AccessTable_set_query_def split: if_splits)
  show ?thesis
  proof (cases "at_world_ref t")
    case True
    then have "AccessParam_is_read_only p" using can by (auto simp: AccessTable_can_query_def split: if_splits)
    then show ?thesis using Req_query True ok can
      by (cases l) (auto simp: AccessParam_is_read_only_def param_writes_def table_writes_def table_ok_def AccessTable_can_query_def)
  next
    case False
    have sym: "FilterParam_is_disjoint f g = FilterParam_is_disjoint g f" for f g by (auto simp: FilterParam_is_disjoint_def)
    have "param_no_conflict p q" if "f \<in> set fs" "(g, q) \<in> set (at_filter t)" "\<not> FilterParam_is_disjoint f g" for f g q
    proof -
      have "AccessParam_parallelizable p q"
        using can False that sym [of f g] by (fastforce simp: AccessTable_can_query_def list_all_iff split: if_splits)
      moreover have "param_ok q" using ok that(2) by (auto simp: table_ok_def)
      ultimately show ?thesis using parallelizable_no_conflict r Req_query by simp
    qed
    then have "\<not> (entries_reach param_writes (map (\<lambda>f. (f, p)) fs) l \<and> entries_reach param_reads (at_filter t) l)"
      "\<not> (entries_reach param_reads (map (\<lambda>f. (f, p)) fs) l \<and> entries_reach param_writes (at_filter t) l)"
      using reach_disjoint_entries [of "map (\<lambda>f. (f, p)) fs" "at_filter t" l] by auto
    then show ?thesis using Req_query False can
      by (cases l) (auto simp: table_reads_def table_writes_def AccessTable_can_query_def)
  qed
qed

fun declare_all :: "sys_request list \<Rightarrow> AccessTable \<Rightarrow> bool \<times> AccessTable" where
  "declare_all [] t = (True, t)"
| "declare_all (r # rs) t = (let (ok, t) = declare_request r t; (oks, t) = declare_all rs t in (ok \<and> oks, t))"

lemma declare_all_sound:
  "table_ok by_ref t \<Longrightarrow> list_all (req_ok by_ref) rs \<Longrightarrow> declare_all rs t = (True, t') \<Longrightarrow>
   table_ok by_ref t' \<and> (\<forall>r \<in> set rs. table_covers t' r) \<and> sorted_wrt req_no_conflict rs \<and>
   (\<forall>l. (table_reads t l \<longrightarrow> table_reads t' l) \<and> (table_writes t l \<longrightarrow> table_writes t' l)) \<and>
   (\<forall>r \<in> set rs. \<forall>l. \<not> (req_writes r l \<and> table_reads t l) \<and> \<not> (req_reads r l \<and> table_writes t l))"
proof (induction rs arbitrary: t)
  case (Cons r rs)
  obtain t1 where t1: "declare_request r t = (True, t1)" "declare_all rs t1 = (True, t')"
    using Cons.prems(3) by (auto split: prod.splits)
  have r: "req_ok by_ref r" "list_all (req_ok by_ref) rs" using Cons.prems(2) by auto
  note a = declare_request_covers [OF Cons.prems(1) r(1) t1(1)]
  note b = declare_request_no_conflict [OF Cons.prems(1) r(1) t1(1)]
  from Cons.IH [OF _ r(2) t1(2)] a have c: "table_ok by_ref t'" "\<forall>r \<in> set rs. table_covers t' r" "sorted_wrt req_no_conflict rs"
    "\<And>l. table_reads t1 l \<Longrightarrow> table_reads t' l" "\<And>l. table_writes t1 l \<Longrightarrow> table_writes t' l"
    "\<forall>r \<in> set rs. \<forall>l. \<not> (req_writes r l \<and> table_reads t1 l) \<and> \<not> (req_reads r l \<and> table_writes t1 l)" by auto
  have "table_covers t' r" using table_covers_mono [of t1 r t'] a c(4,5) by blast
  moreover have "req_no_conflict r s" if "s \<in> set rs" for s
    using a c(6) that unfolding req_no_conflict_def table_covers_def by blast
  moreover have "\<forall>s \<in> set rs. \<forall>l. \<not> (req_writes s l \<and> table_reads t l) \<and> \<not> (req_reads s l \<and> table_writes t l)"
    using a c(6) by blast
  ultimately show ?case using a b c by auto
qed auto

lemma AccessTable_new_ok: "table_ok by_ref AccessTable_new"
  by (simp add: table_ok_def AccessTable_new_def)

lemma parallelizable_tables_no_conflict:
  assumes ok: "table_ok b1 s" "table_ok b2 t" and nr: "\<not> at_world_ref s" "\<not> at_world_ref t" and par: "AccessTable_parallelizable s t"
  shows "\<not> (table_writes s l \<and> table_reads t l) \<and> \<not> (table_reads s l \<and> table_writes t l)"
proof -
  have p: "\<not> at_world_mut s" "\<not> at_world_mut t" "at_res_writing s \<inter> at_res_reading t = {}" "at_res_writing t \<inter> at_res_reading s = {}"
    "\<And>f p g q. (f, p) \<in> set (at_filter s) \<Longrightarrow> (g, q) \<in> set (at_filter t) \<Longrightarrow> \<not> FilterParam_is_disjoint f g \<Longrightarrow> AccessParam_parallelizable p q"
    using par by (fastforce simp: AccessTable_parallelizable_def list_all_iff split: if_splits)+
  have "param_no_conflict p q" if "(f, p) \<in> set (at_filter s)" "(g, q) \<in> set (at_filter t)" "\<not> FilterParam_is_disjoint f g" for f p g q
  proof (rule parallelizable_no_conflict [OF _ _ p(5) [OF that]])
    show "param_ok p" "param_ok q" using ok that(1,2) by (auto simp: table_ok_def)
  qed
  then have "\<not> (entries_reach param_writes (at_filter s) l \<and> entries_reach param_reads (at_filter t) l)"
    "\<not> (entries_reach param_reads (at_filter s) l \<and> entries_reach param_writes (at_filter t) l)"
    using reach_disjoint_entries [of "at_filter s" "at_filter t" l] by blast+
  then show ?thesis using p(1-4) nr by (cases l) (auto simp: table_reads_def table_writes_def)
qed

section \<open>Composed systems\<close>

text \<open>
  A system declares its own accesses, and a pipe of two systems merges the tables of both
  (\<open>FunctionSystem::initialize\<close> and \<open>PipeSystem::initialize\<close>). The parts of a pipe run one after the other.
\<close>

datatype declared = Single "sys_request list" | Pipe declared declared

fun System_initialize :: "declared \<Rightarrow> bool \<times> AccessTable" where
  "System_initialize (Single rs) = declare_all rs AccessTable_new"
| "System_initialize (Pipe a b) =
     (let (ok1, t1) = System_initialize a; (ok2, t2) = System_initialize b in (ok1 \<and> ok2, AccessTable_merge t1 t2))"

fun declared_parts :: "declared \<Rightarrow> sys_request list list" where
  "declared_parts (Single rs) = [rs]"
| "declared_parts (Pipe a b) = declared_parts a @ declared_parts b"

lemma table_merge:
  assumes ok: "table_ok by_ref s" "table_ok by_ref t" and nr: "\<not> at_world_ref (AccessTable_merge s t)"
  shows "table_ok by_ref (AccessTable_merge s t)" "\<not> at_world_ref s" "\<not> at_world_ref t"
    "table_reads s l \<Longrightarrow> table_reads (AccessTable_merge s t) l" "table_writes s l \<Longrightarrow> table_writes (AccessTable_merge s t) l"
    "table_reads t l \<Longrightarrow> table_reads (AccessTable_merge s t) l" "table_writes t l \<Longrightarrow> table_writes (AccessTable_merge s t) l"
proof -
  let ?es = "fold (\<lambda>(f, p). filter_add f p) (at_filter t) (at_filter s)"
  have "\<forall>(f, p) \<in> set (at_filter t). param_ok p \<and> ap_entity_ref p = by_ref f" using ok(2) by (simp add: table_ok_def)
  note a = filter_add_all [OF table_ok_entries [OF ok(1)] this]
  show ref: "\<not> at_world_ref s" "\<not> at_world_ref t" using nr by (simp_all add: AccessTable_merge_def Let_def split: if_splits)
  then show "table_ok by_ref (AccessTable_merge s t)"
    using ok a by (auto simp: AccessTable_merge_def table_ok_def entries_ok_def Let_def)
  show "table_reads s l \<Longrightarrow> table_reads (AccessTable_merge s t) l" "table_writes s l \<Longrightarrow> table_writes (AccessTable_merge s t) l"
    "table_reads t l \<Longrightarrow> table_reads (AccessTable_merge s t) l" "table_writes t l \<Longrightarrow> table_writes (AccessTable_merge s t) l"
    using ref a entries_cover_reach [of "at_filter s" ?es l] entries_cover_reach [of "at_filter t" ?es l]
    by (auto simp: AccessTable_merge_def table_reads_def table_writes_def Let_def)
qed

lemma System_initialize_sound:
  "System_initialize d = (True, t) \<Longrightarrow> \<forall>rs \<in> set (declared_parts d). list_all (req_ok by_ref) rs \<Longrightarrow> \<not> at_world_ref t \<Longrightarrow>
   table_ok by_ref t \<and> (\<forall>rs \<in> set (declared_parts d). sorted_wrt req_no_conflict rs \<and> (\<forall>r \<in> set rs. table_covers t r))"
proof (induction d arbitrary: t)
  case (Single rs)
  then show ?case using declare_all_sound [OF AccessTable_new_ok, of by_ref rs t] by simp
next
  case (Pipe a b)
  obtain t1 t2 where t: "System_initialize a = (True, t1)" "System_initialize b = (True, t2)" "t = AccessTable_merge t1 t2"
    using Pipe.prems(1) by (auto split: prod.splits)
  have parts: "\<forall>rs \<in> set (declared_parts a). list_all (req_ok by_ref) rs" "\<forall>rs \<in> set (declared_parts b). list_all (req_ok by_ref) rs"
    using Pipe.prems(2) by auto
  have nr: "\<not> at_world_ref t1" "\<not> at_world_ref t2"
    using Pipe.prems(3) t(3) by (simp_all add: AccessTable_merge_def Let_def split: if_splits)
  note A = Pipe.IH(1) [OF t(1) parts(1) nr(1)] and B = Pipe.IH(2) [OF t(2) parts(2) nr(2)]
  note m = table_merge [OF conjunct1 [OF A] conjunct1 [OF B] Pipe.prems(3) [unfolded t(3)], folded t(3)]
  have "table_covers t r" if "table_covers t1 r \<or> table_covers t2 r" for r
    using that m(4-7) by (auto simp: table_covers_def)
  then show ?case using A B m(1) by auto
qed

text \<open>The accesses of one query, declared without a refusal, are of the form the theorems ask for.\<close>

lemma sorted_wrt_either: "sorted_wrt P xs \<Longrightarrow> a \<in> set xs \<Longrightarrow> b \<in> set xs \<Longrightarrow> a \<noteq> b \<Longrightarrow> P a b \<or> P b a"
  by (induction xs) auto

lemma request_all_param_ok:
  assumes "request_all rs AccessParam_new = (True, p)"
  shows "param_ok p"
proof -
  have "records [] AccessParam_new" by (simp add: records_def AccessParam_new_def)
  from request_all_records [OF this assms] have r: "sorted_wrt (\<lambda>r s. \<not> conflicting r s) rs" "records rs p" by auto
  have "\<not> (Entity_ref \<in> set rs \<and> Write_comp i \<in> set rs)" for i
    using sorted_wrt_either [OF r(1), of Entity_ref "Write_comp i"] by auto
  with r(2) show ?thesis by (auto simp: records_def param_ok_def)
qed

section \<open>Properties\<close>

text \<open>
  C24. Systems the scheduler runs side by side do not race. Take two systems, each a function or a pipe of systems
  whose tables were merged, that declared their accesses without a refusal, and whose tables are judged
  parallelizable. If neither holds \<open>&World\<close>, and if within each system all queries under one filter agree on whether they
  hold an \<open>EntityRef\<close>, then no access of one system reads or writes a component of any entity, or a resource, that an
  access of the other writes, and the accesses of one function do not conflict with one another. Without the first
  condition this is false of the code (C27), and without the second too (C28).
\<close>

theorem parallel_systems_never_conflict:
  assumes "System_initialize d1 = (True, t1)" "System_initialize d2 = (True, t2)" "AccessTable_parallelizable t1 t2"
    and "\<not> at_world_ref t1" "\<not> at_world_ref t2"
    and "\<forall>rs \<in> set (declared_parts d1). list_all (req_ok by_ref1) rs"
    and "\<forall>rs \<in> set (declared_parts d2). list_all (req_ok by_ref2) rs"
  shows "(\<forall>rs \<in> set (declared_parts d1). \<forall>ss \<in> set (declared_parts d2). \<forall>r \<in> set rs. \<forall>s \<in> set ss. req_no_conflict r s) \<and>
    (\<forall>rs \<in> set (declared_parts d1) \<union> set (declared_parts d2). sorted_wrt req_no_conflict rs)"
proof -
  note A = System_initialize_sound [OF assms(1,6,4)] and B = System_initialize_sound [OF assms(2,7,5)]
  have "req_no_conflict r s" if "table_covers t1 r" "table_covers t2 s" for r s
    using that parallelizable_tables_no_conflict [OF conjunct1 [OF A] conjunct1 [OF B] assms(4,5,3)]
    unfolding req_no_conflict_def table_covers_def by blast
  then show ?thesis using A B by blast
qed

definition sample_query :: "ComponentId set \<Rightarrow> ComponentId set \<Rightarrow> FilterParam \<Rightarrow> sys_request" where
  "sample_query rd wr f = Req_query \<lparr>ap_entity_mut = False, ap_entity_ref = False, ap_reading = rd, ap_writing = wr\<rparr> [f]"

theorem parallel_systems_never_conflict_witness:
  "req_no_conflict (sample_query {1} {1} \<lparr>fp_with_len = 1, fp_params = [1, 2]\<rparr>) (sample_query {1} {1} \<lparr>fp_with_len = 2, fp_params = [1, 2]\<rparr>)"
proof -
  let ?r = "sample_query {1} {1} \<lparr>fp_with_len = 1, fp_params = [1, 2]\<rparr>"
  let ?s = "sample_query {1} {1} \<lparr>fp_with_len = 2, fp_params = [1, 2]\<rparr>"
  let ?d1 = "Pipe (Single [?r]) (Single [Req_res_read 0])" and ?d2 = "Single [?s]"
  obtain t1 t2 where t: "System_initialize ?d1 = (True, t1)" "System_initialize ?d2 = (True, t2)"
    "AccessTable_parallelizable t1 t2" "\<not> at_world_ref t1" "\<not> at_world_ref t2"
    by (simp add: sample_query_def AccessTable_set_query_def AccessTable_can_query_def AccessTable_new_def filter_add_def
        AccessTable_parallelizable_def FilterParam_is_disjoint_def FilterParam_with_def FilterParam_without_def contains_component_def
        AccessTable_merge_def AccessTable_set_reading_res_def AccessTable_can_reading_res_def)
  have "\<forall>rs \<in> set (declared_parts ?d1). list_all (req_ok (\<lambda>_. False)) rs" "\<forall>rs \<in> set (declared_parts ?d2). list_all (req_ok (\<lambda>_. False)) rs"
    by (simp_all add: sample_query_def param_ok_def)
  from parallel_systems_never_conflict [OF t this] show ?thesis by simp
qed

text \<open>
  C25. The component accesses of one query: a sequence of requests on a new \<open>AccessParam\<close> is accepted exactly when no two of
  them are references that may not coexist (a write next to a read or write of the same component, an \<open>EntityMut\<close>
  next to anything, an \<open>EntityRef\<close> next to a write).
\<close>

theorem access_requests_accepted_iff:
  "fst (request_all rs AccessParam_new) \<longleftrightarrow> sorted_wrt (\<lambda>r s. \<not> conflicting r s) rs"
proof -
  have "records [] AccessParam_new" by (simp add: records_def AccessParam_new_def)
  then show ?thesis using request_all_records [of "[]" AccessParam_new rs] by (cases "request_all rs AccessParam_new") auto
qed

text \<open>
  C26. The filter test is exact: two built filters are reported disjoint if and only if no set of components
  satisfies both, so that no entity can be reached through both.
\<close>

theorem filter_disjoint_exact:
  assumes "FilterParamBuilder_build a = Some x" "finite (fb_with a)" "finite (fb_without a)"
    and "FilterParamBuilder_build b = Some y" "finite (fb_with b)" "finite (fb_without b)"
  shows "FilterParam_is_disjoint x y \<longleftrightarrow>
    \<not> (\<exists>C. fb_with a \<subseteq> C \<and> fb_without a \<inter> C = {} \<and> fb_with b \<subseteq> C \<and> fb_without b \<inter> C = {})"
proof -
  note A = filter_build_sets [OF assms(1-3)] and B = filter_build_sets [OF assms(4-6)]
  have "FilterParam_is_disjoint x y \<longleftrightarrow> fb_without a \<inter> fb_with b \<noteq> {} \<or> fb_without b \<inter> fb_with a \<noteq> {}"
    unfolding FilterParam_is_disjoint_def contains_component_def list_ex_iff A(1,2) B(1,2) by auto
  moreover have "(\<exists>C. fb_with a \<subseteq> C \<and> fb_without a \<inter> C = {} \<and> fb_with b \<subseteq> C \<and> fb_without b \<inter> C = {}) \<longleftrightarrow>
      fb_without a \<inter> fb_with b = {} \<and> fb_without b \<inter> fb_with a = {}"
  proof
    assume "fb_without a \<inter> fb_with b = {} \<and> fb_without b \<inter> fb_with a = {}"
    then show "\<exists>C. fb_with a \<subseteq> C \<and> fb_without a \<inter> C = {} \<and> fb_with b \<subseteq> C \<and> fb_without b \<inter> C = {}"
      using A(3) B(3) by (intro exI [of _ "fb_with a \<union> fb_with b"]) auto
  qed auto
  ultimately show ?thesis by simp
qed

theorem filter_disjoint_exact_witness:
  "\<exists>x y. FilterParamBuilder_build (FilterParamBuilder_with FilterParamBuilder_new 1) = Some x \<and>
     FilterParamBuilder_build (FilterParamBuilder_without FilterParamBuilder_new 1) = Some y \<and> FilterParam_is_disjoint x y"
proof -
  let ?a = "FilterParamBuilder_with FilterParamBuilder_new 1" and ?b = "FilterParamBuilder_without FilterParamBuilder_new 1"
  have sets: "fb_with ?a = {1}" "fb_without ?a = {}" "fb_with ?b = {}" "fb_without ?b = {1}"
    by (simp_all add: FilterParamBuilder_with_def FilterParamBuilder_without_def FilterParamBuilder_new_def)
  then obtain x y where xy: "FilterParamBuilder_build ?a = Some x" "FilterParamBuilder_build ?b = Some y"
    by (simp add: FilterParamBuilder_build_def Let_def)
  show ?thesis using filter_disjoint_exact [OF xy(1) _ _ xy(2)] xy sets by auto
qed

text \<open>
  C27. A system that holds \<open>&World\<close> is judged parallelizable with every system that does not hold \<open>&mut World\<close>, also
  with one that writes what the first may read.
\<close>

theorem world_ref_parallel_with_writers:
  assumes "\<not> at_world_mut t"
  shows "AccessTable_set_world_ref AccessTable_new = (True, AccessTable_new\<lparr>at_world_ref := True\<rparr>) \<and>
    AccessTable_parallelizable (AccessTable_new\<lparr>at_world_ref := True\<rparr>) t \<and>
    (\<forall>l. table_reads (AccessTable_new\<lparr>at_world_ref := True\<rparr>) l)"
  using assms by (simp add: AccessTable_set_world_ref_def AccessTable_can_world_ref_def AccessTable_new_def
      AccessTable_parallelizable_def table_reads_def)

theorem world_ref_parallel_with_writers_witness:
  "AccessTable_parallelizable (AccessTable_new\<lparr>at_world_ref := True\<rparr>) (snd (AccessTable_set_writing_res AccessTable_new 0)) \<and>
   table_writes (snd (AccessTable_set_writing_res AccessTable_new 0)) (Loc_res 0) \<and>
   table_reads (AccessTable_new\<lparr>at_world_ref := True\<rparr>) (Loc_res 0)"
proof -
  let ?t = "snd (AccessTable_set_writing_res AccessTable_new 0)"
  have "\<not> at_world_mut ?t" "table_writes ?t (Loc_res 0)"
    by (simp_all add: AccessTable_set_writing_res_def AccessTable_new_def AccessTable_can_writing_res_def table_writes_def)
  then show ?thesis using world_ref_parallel_with_writers [of ?t] by blast
qed

text \<open>
  C28. Merging a component query into an entry that holds \<open>EntityRef\<close> forgets the latter. Take any filter that some entity
  passes, a query for \<open>EntityRef\<close>, a query that reads a set \<open>R\<close> of components, and one that writes a
  nonempty set \<open>W\<close> disjoint from \<open>R\<close>, all under that filter. The first and the third conflict on every component in \<open>W\<close> of every
  entity that passes the filter. A system that asks for them one after the other is refused; but one that asks for the second in
  between is accepted, and a system with the first two queries is judged parallelizable with one that has the third.
\<close>

theorem merge_forgets_entity_ref:
  assumes "filter_matches f C" "R \<inter> W = {}" "W \<noteq> {}" "W \<subseteq> W'"
  defines "by_ref \<equiv> Req_query \<lparr>ap_entity_mut = False, ap_entity_ref = True, ap_reading = {}, ap_writing = {}\<rparr> [f]"
    and "reader \<equiv> sample_query R {} f" and "writer \<equiv> sample_query W' W f"
  shows "(\<forall>i \<in> W. req_reads by_ref (Loc_comp C i) \<and> req_writes writer (Loc_comp C i)) \<and>
    \<not> fst (declare_all [by_ref, writer] AccessTable_new) \<and>
    fst (declare_all [by_ref, reader, writer] AccessTable_new) \<and>
    AccessTable_parallelizable (snd (declare_all [by_ref, reader] AccessTable_new)) (snd (declare_all [writer] AccessTable_new))"
proof -
  have self: "\<not> FilterParam_is_disjoint f f" using filter_disjoint_matches [of f f C] assms(1) by blast
  have "W \<inter> R = {}" using assms(2) by blast
  then show ?thesis using assms(1,3) self
    by (auto simp: by_ref_def reader_def writer_def sample_query_def AccessTable_set_query_def AccessTable_can_query_def
        AccessTable_new_def filter_add_def Let_def AccessTable_parallelizable_def AccessParam_parallelizable_def
        AccessParam_merge_with_def param_reads_def param_writes_def)
qed

theorem merge_forgets_entity_ref_witness:
  "let f = \<lparr>fp_with_len = 2, fp_params = [1, 2]\<rparr>;
       by_ref = Req_query \<lparr>ap_entity_mut = False, ap_entity_ref = True, ap_reading = {}, ap_writing = {}\<rparr> [f];
       reader = sample_query {1} {} f; writer = sample_query {2} {2} f
   in fst (declare_all [by_ref, reader, writer] AccessTable_new) \<and>
      req_reads by_ref (Loc_comp {1, 2} 2) \<and> req_writes writer (Loc_comp {1, 2} 2)"
proof -
  let ?f = "\<lparr>fp_with_len = 2, fp_params = [1, 2]\<rparr>"
  have "filter_matches ?f {1, 2}" by (simp add: filter_matches_def FilterParam_with_def FilterParam_without_def)
  from merge_forgets_entity_ref [OF this, of "{1}" "{2}" "{2}"] show ?thesis by (simp add: Let_def del: declare_all.simps)
qed

end
