(* ===== verification/ScheduleGraph.thy ===== *)
theory ScheduleGraph
  imports Simulation "HOL-Library.AList"
begin

text \<open>
  The graphs of the scheduler (\<open>crates/voker-ecs/src/schedule/graph/graphs.rs\<close>): an index map from nodes to their
  links in both directions, and a hash set of edges. The index map is an association list in index order. The
  hash set is a list without duplicates: its order stands for the unspecified iteration order, and no theorem
  depends on it. The constant parameter \<open>DIRECTED\<close> is an argument where an operation looks at it, and so is the build flag
  under which \<open>debug_assert!\<close> is checked.
\<close>

section \<open>Graph\<close>

datatype Direction = Outgoing | Incoming

fun Direction_opposite :: "Direction \<Rightarrow> Direction" where
  "Direction_opposite Outgoing = Incoming"
| "Direction_opposite Incoming = Outgoing"

type_synonym 'n Link = "'n \<times> Direction"

record 'n Graph =
  g_nodes :: "('n \<times> 'n Link list) list"
  g_edges :: "('n \<times> 'n) list"

definition Graph_new :: "'n Graph" where
  "Graph_new = \<lparr>g_nodes = [], g_edges = []\<rparr>"

definition Graph_edge_key :: "bool \<Rightarrow> 'n :: linorder \<Rightarrow> 'n \<Rightarrow> 'n \<times> 'n" where
  "Graph_edge_key directed a b = (if directed \<or> a \<le> b then (a, b) else (b, a))"

text \<open>The removal of a key from an index map swaps in the last entry, as \<open>swap_remove\<close> on vectors does.\<close>

fun position :: "('a \<Rightarrow> bool) \<Rightarrow> 'a list \<Rightarrow> nat option" where
  "position p [] = None"
| "position p (x # xs) = (if p x then Some 0 else map_option Suc (position p xs))"

definition Graph_links :: "'n Graph \<Rightarrow> 'n \<Rightarrow> 'n Link list" where
  "Graph_links g a = (case map_of (g_nodes g) a of Some links \<Rightarrow> links | None \<Rightarrow> [])"

definition Graph_remove_link :: "'n Graph \<Rightarrow> 'n \<Rightarrow> 'n \<Rightarrow> Direction \<Rightarrow> bool \<times> 'n Graph" where
  "Graph_remove_link g x y dir =
     (case map_of (g_nodes g) x of
        None \<Rightarrow> (False, g)
      | Some links \<Rightarrow>
          (case position (\<lambda>link. link = (y, dir)) links of
             None \<Rightarrow> (False, g)
           | Some index \<Rightarrow> (True, g\<lparr>g_nodes := AList.update x (swap_remove index links) (g_nodes g)\<rparr>)))"

definition Graph_node_count :: "'n Graph \<Rightarrow> nat" where
  "Graph_node_count g = length (g_nodes g)"

definition Graph_edge_count :: "'n Graph \<Rightarrow> nat" where
  "Graph_edge_count g = length (g_edges g)"

definition Graph_contains_node :: "'n Graph \<Rightarrow> 'n \<Rightarrow> bool" where
  "Graph_contains_node g n = (map_of (g_nodes g) n \<noteq> None)"

definition Graph_contains_edge :: "bool \<Rightarrow> 'n :: linorder Graph \<Rightarrow> 'n \<Rightarrow> 'n \<Rightarrow> bool" where
  "Graph_contains_edge directed g a b = (Graph_edge_key directed a b \<in> set (g_edges g))"

definition Graph_insert_node :: "'n Graph \<Rightarrow> 'n \<Rightarrow> 'n Graph" where
  "Graph_insert_node g n = g\<lparr>g_nodes := AList.update n (Graph_links g n) (g_nodes g)\<rparr>"

definition remove_incident :: "bool \<Rightarrow> 'n :: linorder \<Rightarrow> 'n Link \<Rightarrow> 'n Graph \<Rightarrow> 'n Graph" where
  "remove_incident directed n link g =
     (let (to, dir) = link;
          (edge, rdir) = (if dir = Outgoing then (Graph_edge_key directed n to, Incoming)
                          else (Graph_edge_key directed to n, Outgoing));
          g1 = snd (Graph_remove_link g to n rdir)
      in g1\<lparr>g_edges := removeAll edge (g_edges g1)\<rparr>)"

definition Graph_remove_node :: "bool \<Rightarrow> 'n :: linorder Graph \<Rightarrow> 'n \<Rightarrow> 'n Graph" where
  "Graph_remove_node directed g n =
     (case position (\<lambda>e. fst e = n) (g_nodes g) of
        None \<Rightarrow> g
      | Some i \<Rightarrow> fold (remove_incident directed n) (snd (g_nodes g ! i)) (g\<lparr>g_nodes := swap_remove i (g_nodes g)\<rparr>))"

definition push_link :: "'n Graph \<Rightarrow> 'n \<Rightarrow> 'n Link \<Rightarrow> 'n Graph" where
  "push_link g n link = g\<lparr>g_nodes := AList.update n (Graph_links g n @ [link]) (g_nodes g)\<rparr>"

definition Graph_insert_edge :: "bool \<Rightarrow> 'n :: linorder Graph \<Rightarrow> 'n \<Rightarrow> 'n \<Rightarrow> 'n Graph" where
  "Graph_insert_edge directed g a b =
     (if Graph_edge_key directed a b \<in> set (g_edges g) then g
      else let g1 = push_link (g\<lparr>g_edges := g_edges g @ [Graph_edge_key directed a b]\<rparr>) a (b, Outgoing)
           in if a \<noteq> b then push_link g1 b (a, Incoming) else g1)"

text \<open>\<open>debug_assertions\<close> says whether the build checks \<open>debug_assert!\<close>.\<close>

definition Graph_remove_edge ::
  "bool \<Rightarrow> bool \<Rightarrow> 'n :: linorder Graph \<Rightarrow> 'n \<Rightarrow> 'n \<Rightarrow> (bool \<times> 'n Graph) outcome" where
  "Graph_remove_edge debug_assertions directed g a b =
     (let (exist1, g1) = Graph_remove_link g a b Outgoing;
          (exist2, g2) = (if a \<noteq> b then Graph_remove_link g1 b a Incoming else (exist1, g1));
          edge = Graph_edge_key directed a b;
          weight = (edge \<in> set (g_edges g2));
          g3 = g2\<lparr>g_edges := removeAll edge (g_edges g2)\<rparr>
      in if debug_assertions \<and> \<not> (exist1 = exist2 \<and> exist1 = weight) then Panic else Done (weight, g3))"

definition Graph_node_list :: "'n Graph \<Rightarrow> 'n list" where
  "Graph_node_list g = map fst (g_nodes g)"

definition Graph_all_edges :: "'n Graph \<Rightarrow> ('n \<times> 'n) list" where
  "Graph_all_edges g = g_edges g"

definition Graph_neighbors :: "bool \<Rightarrow> 'n Graph \<Rightarrow> 'n \<Rightarrow> 'n list" where
  "Graph_neighbors directed g a = map fst (filter (\<lambda>(n, dir). \<not> directed \<or> dir = Outgoing) (Graph_links g a))"

definition Graph_edges :: "bool \<Rightarrow> 'n Graph \<Rightarrow> 'n \<Rightarrow> ('n \<times> 'n) list" where
  "Graph_edges directed g a =
     map (\<lambda>(b, dir). (a, b)) (filter (\<lambda>(b, dir). \<not> directed \<or> dir = Outgoing) (Graph_links g a))"

definition Graph_neighbors_directed :: "bool \<Rightarrow> 'n Graph \<Rightarrow> 'n \<Rightarrow> Direction \<Rightarrow> 'n list" where
  "Graph_neighbors_directed directed g a dir =
     map fst (filter (\<lambda>(n, d). \<not> directed \<or> d = dir \<or> n = a) (Graph_links g a))"

definition Graph_edges_directed :: "bool \<Rightarrow> 'n Graph \<Rightarrow> 'n \<Rightarrow> Direction \<Rightarrow> ('n \<times> 'n) list" where
  "Graph_edges_directed directed g a dir =
     map (\<lambda>(b, d). (a, b)) (filter (\<lambda>(b, d). \<not> directed \<or> d = dir \<or> b = a) (Graph_links g a))"

definition Graph_to_index :: "'n Graph \<Rightarrow> 'n \<Rightarrow> nat option" where
  "Graph_to_index g ix = position (\<lambda>e. fst e = ix) (g_nodes g)"

section \<open>Well-formed directed graphs\<close>

text \<open>Links and edges of a directed graph say the same; a self loop has one link only.\<close>

definition digraph_wf :: "'n Graph \<Rightarrow> bool" where
  "digraph_wf g \<longleftrightarrow> distinct (map fst (g_nodes g)) \<and> distinct (g_edges g) \<and> (\<forall>a. distinct (Graph_links g a)) \<and>
     (\<forall>a b. (b, Outgoing) \<in> set (Graph_links g a) \<longleftrightarrow> (a, b) \<in> set (g_edges g)) \<and>
     (\<forall>a b. (b, Incoming) \<in> set (Graph_links g a) \<longleftrightarrow> (b, a) \<in> set (g_edges g) \<and> a \<noteq> b)"

lemma position_Some: "position p xs = Some i \<Longrightarrow> i < length xs \<and> p (xs ! i)"
  by (induction xs arbitrary: i) (auto split: if_splits)

lemma position_None: "position p xs = None \<longleftrightarrow> (\<forall>x \<in> set xs. \<not> p x)"
  by (induction xs) auto

lemma set_swap_remove:
  assumes "distinct xs" "i < length xs"
  shows "set (swap_remove i xs) = set xs - {xs ! i}" "distinct (swap_remove i xs)"
proof -
  have "mset (swap_remove i xs) = mset (removeAll (xs ! i) xs)"
    using assms by (simp add: mset_swap_remove distinct_remove1_removeAll [symmetric])
  from mset_eq_setD [OF this] mset_eq_imp_distinct_iff [OF this]
  show "set (swap_remove i xs) = set xs - {xs ! i}" "distinct (swap_remove i xs)"
    using assms(1) by (simp_all add: distinct_removeAll)
qed

lemma map_swap_remove: "i < length xs \<Longrightarrow> map f (swap_remove i xs) = swap_remove i (map f xs)"
  by (cases xs rule: rev_cases) (auto simp: swap_remove_def map_update)

lemma map_eqI: "(\<And>k v. f k = Some v \<longleftrightarrow> g k = Some v) \<Longrightarrow> f = g"
  by (rule ext) (metis option.exhaust)

lemma map_of_swap_remove:
  assumes "distinct (map fst xs)" "i < length xs"
  shows "map_of (swap_remove i xs) = (map_of xs)(fst (xs ! i) := None)"
proof -
  have d: "distinct xs" using assms(1) by (simp add: distinct_map)
  have keys: "distinct (map fst (swap_remove i xs))"
    using set_swap_remove(2) [of "map fst xs" i] assms by (simp add: map_swap_remove)
  have "map_of (swap_remove i xs) k = Some v \<longleftrightarrow> ((map_of xs)(fst (xs ! i) := None)) k = Some v" for k v
  proof -
    have "(k, v) \<noteq> xs ! i" if "k \<noteq> fst (xs ! i)" using that by (metis fst_conv)
    moreover have "(k, v) = xs ! i" if "k = fst (xs ! i)" "(k, v) \<in> set xs"
      using that eq_key_imp_eq_value [OF assms(1), of k v "snd (xs ! i)"] nth_mem [OF assms(2)] by simp
    ultimately show ?thesis
      using map_of_eq_Some_iff [OF keys, of k v] map_of_eq_Some_iff [OF assms(1), of k v] set_swap_remove(1) [OF d assms(2)] by auto
  qed
  then show ?thesis by (rule map_eqI)
qed

lemma links_update:
  "Graph_links (g\<lparr>g_nodes := AList.update x ls (g_nodes g)\<rparr>) a = (if a = x then ls else Graph_links g a)"
  by (simp add: Graph_links_def update_conv')

lemma links_edges [simp]: "Graph_links (g\<lparr>g_edges := es\<rparr>) a = Graph_links g a"
  by (simp add: Graph_links_def)

lemma remove_link_spec:
  assumes "\<forall>a. distinct (Graph_links g a)" "Graph_remove_link g x y dir = (b, g')"
  shows "b \<longleftrightarrow> (y, dir) \<in> set (Graph_links g x)" "map fst (g_nodes g') = map fst (g_nodes g)" "g_edges g' = g_edges g"
    "\<forall>a. distinct (Graph_links g' a)"
    "\<forall>a. set (Graph_links g' a) = set (Graph_links g a) - (if a = x then {(y, dir)} else {})"
proof -
  have "(b \<longleftrightarrow> (y, dir) \<in> set (Graph_links g x)) \<and> map fst (g_nodes g') = map fst (g_nodes g) \<and> g_edges g' = g_edges g \<and>
    (\<forall>a. distinct (Graph_links g' a)) \<and>
    (\<forall>a. set (Graph_links g' a) = set (Graph_links g a) - (if a = x then {(y, dir)} else {}))"
  proof (cases "map_of (g_nodes g) x")
    case None
    then show ?thesis using assms by (auto simp: Graph_remove_link_def Graph_links_def)
  next
    case (Some links)
    then have l: "Graph_links g x = links" "distinct links" "x \<in> fst ` set (g_nodes g)"
      using spec [OF assms(1), of x] map_of_SomeD [OF Some] by (auto simp: Graph_links_def intro: rev_image_eqI)
    show ?thesis
    proof (cases "position (\<lambda>link. link = (y, dir)) links")
      case None
      then have "\<not> b" "g' = g" using assms(2) Some by (simp_all add: Graph_remove_link_def)
      then show ?thesis using None assms(1) l(1) by (auto simp: position_None)
    next
      case (Some i)
      note i = position_Some [OF this]
      have g': "b" "g' = g\<lparr>g_nodes := AList.update x (swap_remove i links) (g_nodes g)\<rparr>"
        using assms(2) Some \<open>map_of (g_nodes g) x = Some links\<close> by (auto simp: Graph_remove_link_def)
      show ?thesis using i l g' assms(1) set_swap_remove [OF l(2), of i] nth_mem [of i links]
        by (auto simp: links_update update_keys)
    qed
  qed
  then show "b \<longleftrightarrow> (y, dir) \<in> set (Graph_links g x)" "map fst (g_nodes g') = map fst (g_nodes g)" "g_edges g' = g_edges g"
    "\<forall>a. distinct (Graph_links g' a)"
    "\<forall>a. set (Graph_links g' a) = set (Graph_links g a) - (if a = x then {(y, dir)} else {})" by blast+
qed


lemma remove_incident_spec:
  fixes n :: "'n :: linorder"
  assumes "\<forall>a. distinct (Graph_links g a)"
  shows "map fst (g_nodes (remove_incident True n (c, d) g)) = map fst (g_nodes g)"
    "\<forall>a. distinct (Graph_links (remove_incident True n (c, d) g) a)"
    "\<forall>a. set (Graph_links (remove_incident True n (c, d) g) a) =
       set (Graph_links g a) - (if a = c then {(n, Direction_opposite d)} else {})"
    "g_edges (remove_incident True n (c, d) g) = removeAll (if d = Outgoing then (n, c) else (c, n)) (g_edges g)"
proof -
  obtain b g' where r: "Graph_remove_link g c n (Direction_opposite d) = (b, g')" by fastforce
  note s = remove_link_spec [OF assms r]
  have g': "remove_incident True n (c, d) g = g'\<lparr>g_edges := removeAll (if d = Outgoing then (n, c) else (c, n)) (g_edges g')\<rparr>"
    using r by (cases d) (simp_all add: remove_incident_def Graph_edge_key_def Let_def)
  show "map fst (g_nodes (remove_incident True n (c, d) g)) = map fst (g_nodes g)"
    "\<forall>a. distinct (Graph_links (remove_incident True n (c, d) g) a)"
    "\<forall>a. set (Graph_links (remove_incident True n (c, d) g) a) =
       set (Graph_links g a) - (if a = c then {(n, Direction_opposite d)} else {})"
    "g_edges (remove_incident True n (c, d) g) = removeAll (if d = Outgoing then (n, c) else (c, n)) (g_edges g)"
    using s unfolding g' by simp_all
qed

lemma remove_incident_fold:
  fixes n :: "'n :: linorder"
  assumes "\<forall>a. distinct (Graph_links g a)"
  shows "map fst (g_nodes (fold (remove_incident True n) ls g)) = map fst (g_nodes g) \<and>
    (\<forall>a. distinct (Graph_links (fold (remove_incident True n) ls g) a)) \<and>
    (\<forall>a. set (Graph_links (fold (remove_incident True n) ls g) a) =
       set (Graph_links g a) - {(n, Direction_opposite d) | d. (a, d) \<in> set ls}) \<and>
    (distinct (g_edges g) \<longrightarrow> distinct (g_edges (fold (remove_incident True n) ls g))) \<and>
    set (g_edges (fold (remove_incident True n) ls g)) =
      set (g_edges g) - {(n, c) | c. (c, Outgoing) \<in> set ls} - {(c, n) | c. (c, Incoming) \<in> set ls}"
  using assms
proof (induction ls arbitrary: g)
  case (Cons l ls)
  obtain c d where l: "l = (c, d)" by (cases l)
  note s = remove_incident_spec [OF Cons.prems, of n c d]
  note i = Cons.IH [OF s(2)]
  have links: "set (Graph_links (remove_incident True n (c, d) g) a) - {(n, Direction_opposite d) | d. (a, d) \<in> set ls} =
      set (Graph_links g a) - {(n, Direction_opposite d) | d. (a, d) \<in> set (l # ls)}" for a
    using s(3) l by auto
  have edges: "set (g_edges (remove_incident True n (c, d) g)) - {(n, c) | c. (c, Outgoing) \<in> set ls} - {(c, n) | c. (c, Incoming) \<in> set ls} =
      set (g_edges g) - {(n, c) | c. (c, Outgoing) \<in> set (l # ls)} - {(c, n) | c. (c, Incoming) \<in> set (l # ls)}"
    using s(4) l by (cases d) auto
  show ?case using i s(1) links edges l s(4) by (simp add: distinct_removeAll)
qed simp

lemma node_of_edge:
  assumes "digraph_wf g" "(a, b) \<in> set (g_edges g)"
  shows "a \<in> set (Graph_node_list g)" "b \<in> set (Graph_node_list g)"
proof -
  have key: "x \<in> set (Graph_node_list g)" if "l \<in> set (Graph_links g x)" for x l
  proof (cases "map_of (g_nodes g) x")
    case (Some ls)
    then show ?thesis by (auto simp: Graph_node_list_def dest: map_of_SomeD intro: rev_image_eqI)
  qed (use that in \<open>simp add: Graph_links_def\<close>)
  show "a \<in> set (Graph_node_list g)" "b \<in> set (Graph_node_list g)"
    using assms key [of "(b, Outgoing)" a] key [of "(a, Incoming)" b] unfolding digraph_wf_def by metis+
qed

lemma wf_remove_node:
  fixes n :: "'n :: linorder"
  assumes wf: "digraph_wf g"
  shows "digraph_wf (Graph_remove_node True g n)"
    "set (Graph_node_list (Graph_remove_node True g n)) = set (Graph_node_list g) - {n}"
    "set (g_edges (Graph_remove_node True g n)) = {(a, b) \<in> set (g_edges g). a \<noteq> n \<and> b \<noteq> n}"
proof -
  have ends: "a \<in> fst ` set (g_nodes g)" "b \<in> fst ` set (g_nodes g)" if "(a, b) \<in> set (g_edges g)" for a b
    using node_of_edge [OF wf that] by (simp_all add: Graph_node_list_def)
  have "digraph_wf (Graph_remove_node True g n) \<and>
    set (Graph_node_list (Graph_remove_node True g n)) = set (Graph_node_list g) - {n} \<and>
    set (g_edges (Graph_remove_node True g n)) = {(a, b) \<in> set (g_edges g). a \<noteq> n \<and> b \<noteq> n}"
  proof (cases "position (\<lambda>e. fst e = n) (g_nodes g)")
    case None
    then have "n \<notin> fst ` set (g_nodes g)" by (auto simp: position_None)
    then show ?thesis using None wf ends by (auto simp: Graph_remove_node_def Graph_node_list_def)
  next
    case (Some i)
    note i = position_Some [OF this]
    have d: "distinct (map fst (g_nodes g))" using wf by (simp add: digraph_wf_def)
    let ?ls = "snd (g_nodes g ! i)" let ?g = "g\<lparr>g_nodes := swap_remove i (g_nodes g)\<rparr>"
    let ?r = "fold (remove_incident True n) ?ls ?g"
    have r: "Graph_remove_node True g n = ?r" using Some by (simp add: Graph_remove_node_def)
    have "(n, ?ls) \<in> set (g_nodes g)" using i nth_mem [of i "g_nodes g"] by (metis prod.collapse)
    then have ls: "?ls = Graph_links g n" using d by (simp add: Graph_links_def)
    have links: "Graph_links ?g a = (if a = n then [] else Graph_links g a)" for a
      using i by (simp add: Graph_links_def map_of_swap_remove [OF d])
    have keys: "distinct (map fst (g_nodes ?g))" "set (map fst (g_nodes ?g)) = set (map fst (g_nodes g)) - {n}"
      using set_swap_remove [of "map fst (g_nodes g)" i] d i by (simp_all add: map_swap_remove)
    have dl: "\<forall>a. distinct (Graph_links ?g a)" using wf links by (simp add: digraph_wf_def)
    note f = remove_incident_fold [OF dl, of n ?ls]
    have out: "(b, Outgoing) \<in> set (Graph_links g a) \<longleftrightarrow> (a, b) \<in> set (g_edges g)" for a b
      using wf by (simp add: digraph_wf_def)
    have inc: "(b, Incoming) \<in> set (Graph_links g a) \<longleftrightarrow> (b, a) \<in> set (g_edges g) \<and> a \<noteq> b" for a b
      using wf by (simp add: digraph_wf_def)
    have edges: "set (g_edges ?r) = {(a, b) \<in> set (g_edges g). a \<noteq> n \<and> b \<noteq> n}"
      using f out inc by (auto simp: ls)
    have opp: "(b, dir) \<in> {(n, Direction_opposite d) | d. (a, d) \<in> set ?ls} \<longleftrightarrow> b = n \<and> (a, Direction_opposite dir) \<in> set (Graph_links g n)" for a b dir
      unfolding ls by (cases dir) (auto, (metis Direction.exhaust Direction_opposite.simps)+)
    have rl: "(b, dir) \<in> set (Graph_links ?r a) \<longleftrightarrow> a \<noteq> n \<and> b \<noteq> n \<and> (b, dir) \<in> set (Graph_links g a)" for a b dir
      using f opp [of b dir a] links [of a] out inc by (cases dir) auto
    show ?thesis unfolding r digraph_wf_def Graph_node_list_def
      using f keys edges rl out inc wf by (auto simp: digraph_wf_def)
  qed
  then show "digraph_wf (Graph_remove_node True g n)"
    "set (Graph_node_list (Graph_remove_node True g n)) = set (Graph_node_list g) - {n}"
    "set (g_edges (Graph_remove_node True g n)) = {(a, b) \<in> set (g_edges g). a \<noteq> n \<and> b \<noteq> n}" by blast+
qed


lemma wf_insert_node:
  assumes "digraph_wf g"
  shows "digraph_wf (Graph_insert_node g n)" "set (Graph_node_list (Graph_insert_node g n)) = insert n (set (Graph_node_list g))"
    "g_edges (Graph_insert_node g n) = g_edges g"
proof -
  have "Graph_links (Graph_insert_node g n) a = Graph_links g a" for a
    by (simp add: Graph_insert_node_def links_update)
  then show "digraph_wf (Graph_insert_node g n)" "set (Graph_node_list (Graph_insert_node g n)) = insert n (set (Graph_node_list g))"
    "g_edges (Graph_insert_node g n) = g_edges g"
    using assms by (auto simp: digraph_wf_def Graph_insert_node_def Graph_node_list_def distinct_update update_keys)
qed

lemma push_link_spec:
  "Graph_links (push_link g n l) a = (if a = n then Graph_links g n @ [l] else Graph_links g a)"
  "set (map fst (g_nodes (push_link g n l))) = insert n (set (map fst (g_nodes g)))"
  "distinct (map fst (g_nodes g)) \<Longrightarrow> distinct (map fst (g_nodes (push_link g n l)))"
  "g_edges (push_link g n l) = g_edges g"
  by (auto simp: push_link_def links_update distinct_update update_keys)

lemma wf_insert_edge:
  fixes a :: "'n :: linorder"
  assumes wf: "digraph_wf g"
  shows "digraph_wf (Graph_insert_edge True g a b)"
    "set (Graph_node_list (Graph_insert_edge True g a b)) = {a, b} \<union> set (Graph_node_list g)"
    "set (g_edges (Graph_insert_edge True g a b)) = insert (a, b) (set (g_edges g))"
proof -
  have "digraph_wf (Graph_insert_edge True g a b) \<and>
    set (Graph_node_list (Graph_insert_edge True g a b)) = {a, b} \<union> set (Graph_node_list g) \<and>
    set (g_edges (Graph_insert_edge True g a b)) = insert (a, b) (set (g_edges g))"
  proof (cases "(a, b) \<in> set (g_edges g)")
    case True
    then show ?thesis using wf node_of_edge [OF wf True] by (auto simp: Graph_insert_edge_def Graph_edge_key_def)
  next
    case False
    let ?g = "g\<lparr>g_edges := g_edges g @ [(a, b)]\<rparr>" let ?i = "Graph_insert_edge True g a b"
    have i: "?i = (if a \<noteq> b then push_link (push_link ?g a (b, Outgoing)) b (a, Incoming) else push_link ?g a (b, Outgoing))"
      using False by (simp add: Graph_insert_edge_def Graph_edge_key_def Let_def)
    have links: "Graph_links ?i x = Graph_links g x @ (if x = a then [(b, Outgoing)] else []) @ (if x = b \<and> a \<noteq> b then [(a, Incoming)] else [])" for x
      using i by (simp add: push_link_spec)
    have rest: "g_edges ?i = g_edges g @ [(a, b)]" "distinct (map fst (g_nodes ?i))" "set (map fst (g_nodes ?i)) = {a, b} \<union> set (map fst (g_nodes g))"
      using i wf by (auto simp: push_link_spec(3,4) push_link_spec(2) [simplified] digraph_wf_def)
    show ?thesis unfolding digraph_wf_def Graph_node_list_def
      using wf False rest links by (auto simp: digraph_wf_def)
  qed
  then show "digraph_wf (Graph_insert_edge True g a b)"
    "set (Graph_node_list (Graph_insert_edge True g a b)) = {a, b} \<union> set (Graph_node_list g)"
    "set (g_edges (Graph_insert_edge True g a b)) = insert (a, b) (set (g_edges g))" by blast+
qed

lemma wf_remove_edge:
  fixes a :: "'n :: linorder"
  assumes wf: "digraph_wf g"
  shows "\<exists>g'. Graph_remove_edge dbg True g a b = Done ((a, b) \<in> set (g_edges g), g') \<and> digraph_wf g' \<and>
    Graph_node_list g' = Graph_node_list g \<and> set (g_edges g') = set (g_edges g) - {(a, b)}"
proof -
  obtain x1 g1 where r1: "Graph_remove_link g a b Outgoing = (x1, g1)" by fastforce
  obtain x2 g2 where r2: "(if a \<noteq> b then Graph_remove_link g1 b a Incoming else (x1, g1)) = (x2, g2)" by fastforce
  have dl: "\<forall>a. distinct (Graph_links g a)" using wf by (simp add: digraph_wf_def)
  note s1 = remove_link_spec [OF dl r1]
  have s2: "x2 \<longleftrightarrow> (a, b) \<in> set (g_edges g)" "map fst (g_nodes g2) = map fst (g_nodes g)" "g_edges g2 = g_edges g"
    "\<forall>x. distinct (Graph_links g2 x)"
    "\<forall>x. set (Graph_links g2 x) = set (Graph_links g x) - (if x = a then {(b, Outgoing)} else {}) - (if x = b \<and> a \<noteq> b then {(a, Incoming)} else {})"
    using r2 s1 remove_link_spec [OF s1(4), of b a Incoming x2 g2] wf by (auto simp: digraph_wf_def split: if_splits)
  have x1: "x1 \<longleftrightarrow> (a, b) \<in> set (g_edges g)" using s1(1) wf by (simp add: digraph_wf_def)
  let ?g = "g2\<lparr>g_edges := removeAll (a, b) (g_edges g2)\<rparr>"
  have "Graph_remove_edge dbg True g a b = Done ((a, b) \<in> set (g_edges g), ?g)"
    using r1 r2 x1 s2(1,3) by (cases "a = b") (simp_all add: Graph_remove_edge_def Graph_edge_key_def Let_def)
  moreover have "digraph_wf ?g" unfolding digraph_wf_def using s2 wf by (auto simp: digraph_wf_def distinct_removeAll)
  ultimately show ?thesis using s2 by (auto simp: Graph_node_list_def)
qed


section \<open>Refinement of a set of nodes and a set of edges\<close>

datatype 'n graph_op = Op_insert_node 'n | Op_remove_node 'n | Op_insert_edge 'n 'n | Op_remove_edge 'n 'n

fun graph_step :: "bool \<Rightarrow> 'n :: linorder graph_op \<Rightarrow> 'n Graph \<Rightarrow> (bool list \<times> 'n Graph) option" where
  "graph_step dbg (Op_insert_node n) g = Some ([], Graph_insert_node g n)"
| "graph_step dbg (Op_remove_node n) g = Some ([], Graph_remove_node True g n)"
| "graph_step dbg (Op_insert_edge a b) g = Some ([], Graph_insert_edge True g a b)"
| "graph_step dbg (Op_remove_edge a b) g =
     (case Graph_remove_edge dbg True g a b of Done (w, g') \<Rightarrow> Some ([w], g') | _ \<Rightarrow> None)"

fun graph_spec :: "'n graph_op \<Rightarrow> 'n set \<times> ('n \<times> 'n) set \<Rightarrow> (bool list \<times> 'n set \<times> ('n \<times> 'n) set) option" where
  "graph_spec (Op_insert_node n) (V, E) = Some ([], insert n V, E)"
| "graph_spec (Op_remove_node n) (V, E) = Some ([], V - {n}, {(a, b) \<in> E. a \<noteq> n \<and> b \<noteq> n})"
| "graph_spec (Op_insert_edge a b) (V, E) = Some ([], {a, b} \<union> V, insert (a, b) E)"
| "graph_spec (Op_remove_edge a b) (V, E) = Some ([(a, b) \<in> E], V, E - {(a, b)})"

definition Graph_abs :: "'n Graph \<Rightarrow> 'n set \<times> ('n \<times> 'n) set" where
  "Graph_abs g = (set (Graph_node_list g), set (g_edges g))"

interpretation digraph: simulation "graph_step dbg" graph_spec digraph_wf Graph_abs for dbg
proof
  fix g :: "'a Graph" and x d a
  assume wf: "digraph_wf g" and spec: "graph_spec x (Graph_abs g) = Some (d, a)"
  show "\<exists>g'. graph_step dbg x g = Some (d, g') \<and> digraph_wf g' \<and> Graph_abs g' = a"
  proof (cases x)
    case (Op_remove_edge u v)
    then show ?thesis using wf_remove_edge [OF wf, of dbg u v] spec by (auto simp: Graph_abs_def)
  qed (use spec wf_insert_node [OF wf] wf_remove_node [OF wf] wf_insert_edge [OF wf] in \<open>auto simp: Graph_abs_def\<close>)
qed

lemma graph_spec_total: "\<exists>d a. run graph_spec ops VE = Some (d, a)"
proof (induction ops arbitrary: VE)
  case (Cons x ops)
  obtain d a where "graph_spec x VE = Some (d, a)" by (cases VE; cases x) auto
  then show ?case using Cons.IH [of a] by auto
qed simp

lemma digraph_wf_new [simp]: "digraph_wf Graph_new" "Graph_abs Graph_new = ({}, {})"
  by (simp_all add: digraph_wf_def Graph_new_def Graph_abs_def Graph_links_def Graph_node_list_def)

lemma mem_filter_fst: "b \<in> set (map fst (filter P xs)) \<longleftrightarrow> (\<exists>d. (b, d) \<in> set xs \<and> P (b, d))"
  by (induction xs) auto

lemma ex_Direction: "(\<exists>d. P d) \<longleftrightarrow> P Outgoing \<or> P Incoming"
  by (metis Direction.exhaust)

lemma set_neighbors: "digraph_wf g \<Longrightarrow> set (Graph_neighbors True g a) = {b. (a, b) \<in> set (g_edges g)}"
  unfolding Graph_neighbors_def set_eq_iff mem_filter_fst by (simp add: digraph_wf_def)

lemma distinct_neighbors: "digraph_wf g \<Longrightarrow> distinct (Graph_neighbors True g a)"
  unfolding Graph_neighbors_def by (auto simp: distinct_map digraph_wf_def intro!: inj_onI)

lemma set_neighbors_directed:
  "digraph_wf g \<Longrightarrow> set (Graph_neighbors_directed True g a Outgoing) = {b. (a, b) \<in> set (g_edges g)}"
  "digraph_wf g \<Longrightarrow> set (Graph_neighbors_directed True g a Incoming) = {b. (b, a) \<in> set (g_edges g)}"
  unfolding Graph_neighbors_directed_def set_eq_iff mem_filter_fst ex_Direction by (auto simp: digraph_wf_def)

section \<open>Properties\<close>

text \<open>
  C32. A directed graph is a set of nodes with a set of edges: every sequence of insertions and removals of nodes
  and edges runs without a failed debug assertion, gives the nodes, edges and answers of the same sequence on sets, and
  afterwards the adjacency lists enumerate the successors and predecessors of every node in those sets.
\<close>

theorem digraph_refines_edge_set:
  fixes ops :: "'n :: linorder graph_op list"
  shows "\<exists>out g V E. run (graph_step dbg) ops Graph_new = Some (out, g) \<and> run graph_spec ops ({}, {}) = Some (out, V, E) \<and>
    set (Graph_node_list g) = V \<and> (\<forall>a b. Graph_contains_edge True g a b \<longleftrightarrow> (a, b) \<in> E) \<and>
    (\<forall>a. distinct (Graph_neighbors True g a) \<and> set (Graph_neighbors True g a) = {b. (a, b) \<in> E} \<and>
       set (Graph_neighbors_directed True g a Incoming) = {b. (b, a) \<in> E})"
proof -
  obtain out V E where spec: "run graph_spec ops (Graph_abs Graph_new) = Some (out, V, E)"
    using graph_spec_total [of ops "Graph_abs Graph_new"] by auto
  obtain g where g: "run (graph_step dbg) ops Graph_new = Some (out, g)" "digraph_wf g" "Graph_abs g = (V, E)"
    using digraph.run_sim [OF digraph_wf_new(1) spec] by blast
  then have V: "set (Graph_node_list g) = V" "set (g_edges g) = E" by (simp_all add: Graph_abs_def)
  have "run graph_spec ops ({}, {}) = Some (out, V, E)" using spec by simp
  then show ?thesis
    using g(1) V set_neighbors [OF g(2)] distinct_neighbors [OF g(2)] set_neighbors_directed(2) [OF g(2)]
    by - (rule exI [of _ out], rule exI [of _ g], rule exI [of _ V], rule exI [of _ E],
        simp add: Graph_contains_edge_def Graph_edge_key_def)
qed

text \<open>
  C34. Removing an edge of an undirected graph depends on the order in which its ends are named: after
  \<open>insert_edge(a, b)\<close>, \<open>remove_edge(b, a)\<close> fails its debug assertion, and in a build without assertions it deletes the edge but
  leaves both links behind, so that the graph still lists the ends as neighbours of an edge it does not contain.
\<close>

theorem ungraph_remove_edge_reversed:
  fixes a b :: "'n :: linorder"
  assumes "a \<noteq> b"
  shows "Graph_remove_edge True False (Graph_insert_edge False Graph_new a b) b a = Panic \<and>
    (\<exists>g. Graph_remove_edge False False (Graph_insert_edge False Graph_new a b) b a = Done (True, g) \<and>
       \<not> Graph_contains_edge False g a b \<and> Graph_neighbors False g a = [b] \<and> Graph_neighbors False g b = [a])"
  using assms
  by (auto simp: Graph_insert_edge_def Graph_new_def Graph_edge_key_def push_link_def Graph_links_def Graph_remove_edge_def
      Graph_remove_link_def Graph_contains_edge_def Graph_neighbors_def Let_def)

theorem ungraph_remove_edge_reversed_witness:
  "(1 :: nat) \<noteq> 2 \<and> Graph_remove_edge True False (Graph_insert_edge False Graph_new 1 2) 2 (1 :: nat) = Panic"
  using ungraph_remove_edge_reversed [of "1 :: nat" 2] by simp

end
