(* ===== verification/Sccs.thy ===== *)
theory Sccs
  imports ScheduleGraph "HOL-Library.Monad_Syntax"
begin

text \<open>
  Strongly connected components (\<open>crates/voker-ecs/src/schedule/graph/scc.rs\<close>): the iterative form of
  Pearce's algorithm behind \<open>DiGraph::iter_sccs\<close>. The iterators over nodes and neighbours are the lists they have still to
  yield. The visitation stack has its top first; the component stack has its top last, since slices of it are
  returned. \<open>None\<close> stands for a failed \<open>unwrap\<close> or an index out of bounds. Counters are natural numbers: the code counts
  \<open>dfs_index\<close> up from 1 and \<open>scc_index\<close> down from \<open>usize::MAX\<close>, and the theorems ask for fewer than \<open>2 ^ 63 - 1\<close> nodes, below which
  neither leaves 64 bits.
\<close>

section \<open>State\<close>

record 'n NodeData =
  nd_root :: "nat option"
  nd_pending :: "'n option"
  nd_neighbors :: "'n list"

record 'n TarjanScc =
  ts_unchecked_nodes :: "'n list"
  ts_nodes :: "'n NodeData list"
  ts_dfs_index :: nat
  ts_scc_index :: nat
  ts_stack :: "'n list"
  ts_visitation_stack :: "('n \<times> bool) list"
  ts_scc_start :: "nat option"
  ts_scc_len :: "nat option"

definition new_tarjan_scc :: "'n Graph \<Rightarrow> 'n TarjanScc" where
  "new_tarjan_scc graph =
     \<lparr>ts_unchecked_nodes = Graph_node_list graph,
      ts_nodes = map (\<lambda>node. \<lparr>nd_root = None, nd_pending = None, nd_neighbors = Graph_neighbors True graph node\<rparr>)
        (Graph_node_list graph),
      ts_dfs_index = 1, ts_scc_index = 2 ^ 64 - 1, ts_stack = [], ts_visitation_stack = [],
      ts_scc_start = None, ts_scc_len = None\<rparr>"

text \<open>\<open>self.nodes[self.graph.to_index(v)]\<close>, read and written.\<close>

definition ts_get :: "'n Graph \<Rightarrow> 'n TarjanScc \<Rightarrow> 'n \<Rightarrow> 'n NodeData option" where
  "ts_get graph s v =
     (case Graph_to_index graph v of
        None \<Rightarrow> None
      | Some i \<Rightarrow> if i < length (ts_nodes s) then Some (ts_nodes s ! i) else None)"

definition ts_put :: "'n Graph \<Rightarrow> 'n TarjanScc \<Rightarrow> 'n \<Rightarrow> 'n NodeData \<Rightarrow> 'n TarjanScc option" where
  "ts_put graph s v nd =
     (case Graph_to_index graph v of
        None \<Rightarrow> None
      | Some i \<Rightarrow> if i < length (ts_nodes s) then Some (s\<lparr>ts_nodes := (ts_nodes s)[i := nd]\<rparr>) else None)"

text \<open>\<open>NonZeroUsize::new\<close>, and the order of \<open>Option\<close>, in which \<open>None\<close> is least.\<close>

definition NonZeroUsize_new :: "nat \<Rightarrow> nat option" where
  "NonZeroUsize_new n = (if n = 0 then None else Some n)"

fun option_lt :: "nat option \<Rightarrow> nat option \<Rightarrow> bool" where
  "option_lt _ None = False"
| "option_lt None (Some _) = True"
| "option_lt (Some a) (Some b) = (a < b)"

section \<open>Visiting a node\<close>

text \<open>Take over the root of a neighbour when it is smaller.\<close>

definition lower_root :: "'n Graph \<Rightarrow> 'n \<Rightarrow> 'n \<Rightarrow> bool \<Rightarrow> 'n TarjanScc \<Rightarrow> (bool \<times> 'n TarjanScc) option" where
  "lower_root graph v w v_is_local_root s = do {
     nv \<leftarrow> ts_get graph s v;
     nw \<leftarrow> ts_get graph s w;
     if option_lt (nd_root nw) (nd_root nv)
     then do { s1 \<leftarrow> ts_put graph s v (nv\<lparr>nd_root := nd_root nw\<rparr>); Some (False, s1) }
     else Some (v_is_local_root, s)
   }"

text \<open>
  The loop over the neighbours that \<open>v\<close> has still to yield. The first component of the result is \<open>None\<close> when an unvisited
  neighbour was pushed, and otherwise the flag with which the loop ends.
\<close>

fun visit_neighbors ::
  "'n Graph \<Rightarrow> 'n \<Rightarrow> bool \<Rightarrow> 'n list \<Rightarrow> 'n TarjanScc \<Rightarrow> (bool option \<times> 'n TarjanScc) option" where
  "visit_neighbors graph v v_is_local_root [] s = Some (Some v_is_local_root, s)"
| "visit_neighbors graph v v_is_local_root (w # ws) s = do {
     nv \<leftarrow> ts_get graph s v;
     s1 \<leftarrow> ts_put graph s v (nv\<lparr>nd_neighbors := ws\<rparr>);
     nw \<leftarrow> ts_get graph s1 w;
     if nd_root nw = None
     then do {
       nv1 \<leftarrow> ts_get graph s1 v;
       s2 \<leftarrow> ts_put graph s1 v (nv1\<lparr>nd_pending := Some w\<rparr>);
       Some (None, s2\<lparr>ts_visitation_stack := (w, True) # (v, v_is_local_root) # ts_visitation_stack s2\<rparr>)
     }
     else do {
       (v_is_local_root1, s2) \<leftarrow> lower_root graph v w v_is_local_root s1;
       visit_neighbors graph v v_is_local_root1 ws s2
     }
   }"

text \<open>
  The backward scan of the component stack (\<open>rposition\<close> with its side effects), on the stack read from its top:
  where the component starts, its length, and the state with the roots of its nodes set.
\<close>

fun scan_component ::
  "'n Graph \<Rightarrow> 'n \<Rightarrow> nat option \<Rightarrow> 'n list \<Rightarrow> nat \<Rightarrow> 'n TarjanScc \<Rightarrow> (nat \<times> nat \<times> 'n TarjanScc) option" where
  "scan_component graph v scc_id [] scc_len s = Some (0, scc_len, s)"
| "scan_component graph v scc_id (w # ws) scc_len s = do {
     nw \<leftarrow> ts_get graph s w;
     nv \<leftarrow> ts_get graph s v;
     if option_lt (nd_root nw) (nd_root nv) then Some (Suc (length ws), scc_len, s)
     else do {
       s1 \<leftarrow> ts_put graph s w (nw\<lparr>nd_root := scc_id\<rparr>);
       scan_component graph v scc_id ws (Suc scc_len) s1
     }
   }"

definition enter_node :: "'n Graph \<Rightarrow> 'n \<Rightarrow> 'n TarjanScc \<Rightarrow> 'n TarjanScc option" where
  "enter_node graph v s = do {
     nv \<leftarrow> ts_get graph s v;
     if nd_root nv = None
     then do {
       s1 \<leftarrow> ts_put graph s v (nv\<lparr>nd_root := NonZeroUsize_new (ts_dfs_index s)\<rparr>);
       Some (s1\<lparr>ts_dfs_index := ts_dfs_index s1 + 1\<rparr>)
     }
     else Some s
   }"

definition take_pending :: "'n Graph \<Rightarrow> 'n \<Rightarrow> bool \<Rightarrow> 'n TarjanScc \<Rightarrow> (bool \<times> 'n TarjanScc) option" where
  "take_pending graph v v_is_local_root s = do {
     nv \<leftarrow> ts_get graph s v;
     s1 \<leftarrow> ts_put graph s v (nv\<lparr>nd_pending := None\<rparr>);
     (case nd_pending nv of
        None \<Rightarrow> Some (v_is_local_root, s1)
      | Some w \<Rightarrow> lower_root graph v w v_is_local_root s1)
   }"

definition close_component :: "'n Graph \<Rightarrow> 'n \<Rightarrow> 'n TarjanScc \<Rightarrow> (nat \<times> 'n TarjanScc) option" where
  "close_component graph v s = do {
     let scc_id = NonZeroUsize_new (ts_scc_index s);
     (scc_start, scc_len, s1) \<leftarrow> scan_component graph v scc_id (rev (ts_stack s)) 1 s;
     nv \<leftarrow> ts_get graph s1 v;
     s2 \<leftarrow> ts_put graph s1 v (nv\<lparr>nd_root := scc_id\<rparr>);
     Some (scc_start, s2\<lparr>ts_stack := ts_stack s2 @ [v], ts_scc_start := Some scc_start, ts_scc_len := Some scc_len\<rparr>)
   }"

definition TarjanScc_visit_once ::
  "'n Graph \<Rightarrow> 'n \<Rightarrow> bool \<Rightarrow> 'n TarjanScc \<Rightarrow> (nat option \<times> 'n TarjanScc) option" where
  "TarjanScc_visit_once graph v v_is_local_root s = do {
     s1 \<leftarrow> enter_node graph v s;
     (v_is_local_root1, s2) \<leftarrow> take_pending graph v v_is_local_root s1;
     nv \<leftarrow> ts_get graph s2 v;
     (r, s3) \<leftarrow> visit_neighbors graph v v_is_local_root1 (nd_neighbors nv) s2;
     (case r of
        None \<Rightarrow> Some (None, s3)
      | Some False \<Rightarrow> Some (None, s3\<lparr>ts_stack := ts_stack s3 @ [v]\<rparr>)
      | Some True \<Rightarrow> do { (start, s4) \<leftarrow> close_component graph v s3; Some (Some start, s4) })
   }"

section \<open>The next component\<close>

text \<open>What the search has still to do; it bounds the number of visits.\<close>

definition neighbors_left :: "'n TarjanScc \<Rightarrow> nat" where
  "neighbors_left s = sum_list (map (\<lambda>nd. length (nd_neighbors nd)) (ts_nodes s))"

definition work_left :: "'n TarjanScc \<Rightarrow> nat" where
  "work_left s = 2 * neighbors_left s + length (ts_visitation_stack s) + 2 * length (ts_unchecked_nodes s)"

definition same_work :: "'n TarjanScc \<Rightarrow> 'n TarjanScc \<Rightarrow> bool" where
  "same_work s s' \<longleftrightarrow> neighbors_left s' = neighbors_left s \<and> ts_visitation_stack s' = ts_visitation_stack s \<and>
     ts_unchecked_nodes s' = ts_unchecked_nodes s"

lemma ts_put_work:
  assumes "ts_get graph s v = Some nv" "ts_put graph s v nd = Some s'"
  shows "neighbors_left s' + length (nd_neighbors nv) = neighbors_left s + length (nd_neighbors nd)"
    "ts_visitation_stack s' = ts_visitation_stack s" "ts_unchecked_nodes s' = ts_unchecked_nodes s"
    "ts_get graph s' v = Some nd"
proof -
  obtain i where i: "Graph_to_index graph v = Some i" "i < length (ts_nodes s)" "nv = ts_nodes s ! i"
    "s' = s\<lparr>ts_nodes := (ts_nodes s)[i := nd]\<rparr>"
    using assms by (auto simp: ts_get_def ts_put_def split: option.splits if_splits)
  have len: "length (nd_neighbors nv) \<le> neighbors_left s"
    using i(2,3) unfolding neighbors_left_def by (intro member_le_sum_list) auto
  show "neighbors_left s' + length (nd_neighbors nv) = neighbors_left s + length (nd_neighbors nd)"
    using i len by (simp add: neighbors_left_def map_update sum_list_update)
qed (use assms in \<open>auto simp: ts_get_def ts_put_def split: option.splits if_splits\<close>)

lemma ts_put_same_work:
  "ts_get graph s v = Some nv \<Longrightarrow> ts_put graph s v nd = Some s' \<Longrightarrow> nd_neighbors nd = nd_neighbors nv \<Longrightarrow> same_work s s'"
  using ts_put_work [of graph s v nv nd s'] by (simp add: same_work_def)

lemma same_work_trans: "same_work s s' \<Longrightarrow> same_work s' s'' \<Longrightarrow> same_work s s''"
  by (simp add: same_work_def)

lemma same_work_left: "same_work s s' \<Longrightarrow> work_left s' = work_left s"
  by (simp add: same_work_def work_left_def)

lemma lower_root_work:
  assumes "lower_root graph v w lr s = Some (lr', s')" "ts_get graph s v = Some nv"
  shows "same_work s s'" "\<exists>nv'. ts_get graph s' v = Some nv' \<and> nd_neighbors nv' = nd_neighbors nv"
  using assms ts_put_same_work [OF assms(2), of _ s'] ts_put_work(4) [OF assms(2), of _ s']
  by (auto simp: lower_root_def same_work_def split: if_splits bind_splits)

lemma visit_neighbors_work:
  assumes "visit_neighbors graph v lr ws s = Some (r, s')" "ts_get graph s v = Some nv" "nd_neighbors nv = ws"
  shows "work_left s' \<le> work_left s"
  using assms
proof (induction ws arbitrary: lr s nv)
  case (Cons w ws)
  then obtain s1 nw where s1: "ts_put graph s v (nv\<lparr>nd_neighbors := ws\<rparr>) = Some s1" "ts_get graph s1 w = Some nw"
    by (auto split: bind_splits)
  note p1 = ts_put_work [OF Cons.prems(2) s1(1)]
  show ?case
  proof (cases "nd_root nw = None")
    case True
    then obtain s2 where s2: "ts_put graph s1 v (nv\<lparr>nd_neighbors := ws, nd_pending := Some w\<rparr>) = Some s2"
      "s' = s2\<lparr>ts_visitation_stack := (w, True) # (v, lr) # ts_visitation_stack s2\<rparr>"
      using Cons.prems s1 p1(4) by (auto split: bind_splits)
    note p2 = ts_put_work [OF p1(4) s2(1)]
    show ?thesis using p1 p2 s2(2) Cons.prems(3) by (simp add: work_left_def neighbors_left_def)
  next
    case False
    then obtain lr1 s2 where s2: "lower_root graph v w lr s1 = Some (lr1, s2)" "visit_neighbors graph v lr1 ws s2 = Some (r, s')"
      using Cons.prems s1 by (auto split: bind_splits)
    note l = lower_root_work [OF s2(1) p1(4)]
    from l(2) obtain nv2 where "ts_get graph s2 v = Some nv2" "nd_neighbors nv2 = ws" by auto
    from Cons.IH [OF s2(2) this] l(1) p1 Cons.prems(3) show ?thesis by (simp add: work_left_def same_work_def)
  qed
qed simp


lemma enter_node_work: "enter_node graph v s = Some s' \<Longrightarrow> same_work s s'"
  using ts_put_same_work [of graph s v]
  by (fastforce simp: enter_node_def same_work_def neighbors_left_def split: if_splits bind_splits)

lemma take_pending_work:
  assumes "take_pending graph v lr s = Some (lr', s')"
  shows "same_work s s'"
proof -
  from assms obtain nv s1 where s1: "ts_get graph s v = Some nv" "ts_put graph s v (nv\<lparr>nd_pending := None\<rparr>) = Some s1"
    and r: "(case nd_pending nv of None \<Rightarrow> Some (lr, s1) | Some w \<Rightarrow> lower_root graph v w lr s1) = Some (lr', s')"
    by (auto simp: take_pending_def split: bind_splits)
  have "same_work s s1" by (rule ts_put_same_work [OF s1]) simp
  moreover have "same_work s1 s'"
    using r lower_root_work(1) [OF _ ts_put_work(4) [OF s1]] by (auto simp: same_work_def split: option.splits)
  ultimately show ?thesis by (rule same_work_trans)
qed

lemma scan_component_work: "scan_component graph v i ws n s = Some (a, b, s') \<Longrightarrow> same_work s s'"
proof (induction ws arbitrary: n s)
  case (Cons w ws)
  from Cons.prems obtain nw nv where nw: "ts_get graph s w = Some nw" "ts_get graph s v = Some nv" by (auto split: bind_splits)
  show ?case
  proof (cases "option_lt (nd_root nw) (nd_root nv)")
    case False
    then obtain s1 where s1: "ts_put graph s w (nw\<lparr>nd_root := i\<rparr>) = Some s1" "scan_component graph v i ws (Suc n) s1 = Some (a, b, s')"
      using Cons.prems nw by (auto split: bind_splits)
    have "same_work s s1" by (rule ts_put_same_work [OF nw(1) s1(1)]) simp
    then show ?thesis using Cons.IH [OF s1(2)] by (rule same_work_trans)
  qed (use Cons.prems nw in \<open>simp add: same_work_def\<close>)
qed (simp add: same_work_def)

lemma close_component_work:
  assumes "close_component graph v s = Some (a, s')"
  shows "work_left s' = work_left s"
proof -
  from assms obtain b s1 nv s2 where s: "scan_component graph v (NonZeroUsize_new (ts_scc_index s)) (rev (ts_stack s)) 1 s = Some (a, b, s1)"
    "ts_get graph s1 v = Some nv" "ts_put graph s1 v (nv\<lparr>nd_root := NonZeroUsize_new (ts_scc_index s)\<rparr>) = Some s2"
    "s' = s2\<lparr>ts_stack := ts_stack s2 @ [v], ts_scc_start := Some a, ts_scc_len := Some b\<rparr>"
    by (auto simp: close_component_def Let_def split: bind_splits)
  from same_work_trans [OF scan_component_work [OF s(1)] ts_put_same_work [OF s(2,3)]] s(4) show ?thesis
    by (simp add: same_work_def work_left_def neighbors_left_def)
qed

lemma visit_once_work:
  assumes "TarjanScc_visit_once graph v lr s = Some (r, s')"
  shows "work_left s' \<le> work_left s"
proof -
  from assms obtain s1 lr1 s2 nv q s3 where s: "enter_node graph v s = Some s1" "take_pending graph v lr s1 = Some (lr1, s2)"
    "ts_get graph s2 v = Some nv" "visit_neighbors graph v lr1 (nd_neighbors nv) s2 = Some (q, s3)"
    and fin: "(case q of None \<Rightarrow> Some (None, s3) | Some False \<Rightarrow> Some (None, s3\<lparr>ts_stack := ts_stack s3 @ [v]\<rparr>)
      | Some True \<Rightarrow> close_component graph v s3 \<bind> (\<lambda>(start, s4). Some (Some start, s4))) = Some (r, s')"
    by (auto simp: TarjanScc_visit_once_def split: bind_splits)
  have "work_left s2 = work_left s" using enter_node_work [OF s(1)] take_pending_work [OF s(2)] by (simp add: same_work_left)
  moreover have "work_left s3 \<le> work_left s2" by (rule visit_neighbors_work [OF s(4,3) refl])
  moreover have "work_left s' = work_left s3"
    using fin close_component_work [of graph v s3] by (auto simp: work_left_def neighbors_left_def split: option.splits bool.splits bind_splits)
  ultimately show ?thesis by simp
qed

function next_scc_loop :: "'n Graph \<Rightarrow> 'n TarjanScc \<Rightarrow> ('n list option \<times> 'n TarjanScc) option" where
  "next_scc_loop graph s =
     (case ts_visitation_stack s of
        (v, v_is_local_root) # vs \<Rightarrow>
          (case TarjanScc_visit_once graph v v_is_local_root (s\<lparr>ts_visitation_stack := vs\<rparr>) of
             None \<Rightarrow> None
           | Some (Some start, s1) \<Rightarrow> Some (Some (drop start (ts_stack s1)), s1)
           | Some (None, s1) \<Rightarrow> next_scc_loop graph s1)
      | [] \<Rightarrow>
          (case ts_unchecked_nodes s of
             [] \<Rightarrow> Some (None, s)
           | node # nodes \<Rightarrow>
               (case ts_get graph s node of
                  None \<Rightarrow> None
                | Some nd \<Rightarrow>
                    next_scc_loop graph
                      (if nd_root nd = None then s\<lparr>ts_unchecked_nodes := nodes, ts_visitation_stack := [(node, True)]\<rparr>
                       else s\<lparr>ts_unchecked_nodes := nodes\<rparr>))))"
  by pat_completeness auto

termination
proof (relation "measure (work_left \<circ> snd)")
  fix graph :: "'n Graph" and s x vs v lr r q s1
  assume "ts_visitation_stack s = x # vs" "(v, lr) = x"
    and "TarjanScc_visit_once graph v lr (s\<lparr>ts_visitation_stack := vs\<rparr>) = Some r" "(q, s1) = r"
  then have "work_left s1 \<le> work_left (s\<lparr>ts_visitation_stack := vs\<rparr>)" "ts_visitation_stack s = (v, lr) # vs"
    using visit_once_work [of graph v lr] by auto
  then show "((graph, s1), graph, s) \<in> measure (work_left \<circ> snd)" by (simp add: work_left_def neighbors_left_def)
qed (auto simp: work_left_def neighbors_left_def)

declare next_scc_loop.simps [simp del]

text \<open>Remove the component returned last, then search for the next.\<close>

definition begin_next_scc :: "'n TarjanScc \<Rightarrow> 'n TarjanScc" where
  "begin_next_scc s =
     (case (ts_scc_start s, ts_scc_len s) of
        (Some start, Some len) \<Rightarrow>
          s\<lparr>ts_stack := take start (ts_stack s), ts_dfs_index := ts_dfs_index s - len,
            ts_scc_index := ts_scc_index s - 1, ts_scc_start := None, ts_scc_len := None\<rparr>
      | _ \<Rightarrow> s\<lparr>ts_scc_start := None, ts_scc_len := None\<rparr>)"

definition TarjanScc_next_scc :: "'n Graph \<Rightarrow> 'n TarjanScc \<Rightarrow> ('n list option \<times> 'n TarjanScc) option" where
  "TarjanScc_next_scc graph s = next_scc_loop graph (begin_next_scc s)"


lemma next_scc_loop_work: "next_scc_loop graph s = Some (Some c, s') \<Longrightarrow> work_left s' < work_left s"
proof (induction graph s rule: next_scc_loop.induct)
  case (1 graph s)
  show ?case
  proof (cases "ts_visitation_stack s")
    case Nil
    then obtain node nodes nd where n: "ts_unchecked_nodes s = node # nodes" "ts_get graph s node = Some nd"
      using "1.prems" by (auto simp: next_scc_loop.simps [of graph s] split: list.splits option.splits)
    let ?s = "if nd_root nd = None then s\<lparr>ts_unchecked_nodes := nodes, ts_visitation_stack := [(node, True)]\<rparr>
      else s\<lparr>ts_unchecked_nodes := nodes\<rparr>"
    have "next_scc_loop graph ?s = Some (Some c, s')"
      using "1.prems" Nil n by (simp add: next_scc_loop.simps [of graph s] del: if_split)
    from "1.IH"(1) [OF Nil n this] show ?thesis using Nil n by (auto simp: work_left_def neighbors_left_def split: if_splits)
  next
    case (Cons x vs)
    obtain v lr where x: "x = (v, lr)" by (cases x)
    obtain q s1 where v: "TarjanScc_visit_once graph v lr (s\<lparr>ts_visitation_stack := vs\<rparr>) = Some (q, s1)"
      using "1.prems" Cons x by (auto simp: next_scc_loop.simps [of graph s] split: option.splits)
    have less: "work_left s1 < work_left s"
      using visit_once_work [OF v] Cons by (simp add: work_left_def neighbors_left_def)
    show ?thesis
    proof (cases q)
      case None
      then have "next_scc_loop graph s1 = Some (Some c, s')" using "1.prems" Cons x v by (simp add: next_scc_loop.simps [of graph s])
      from "1.IH"(2) [OF Cons x [symmetric] v, of q s1] None this less show ?thesis by simp
    qed (use "1.prems" Cons x v less in \<open>simp add: next_scc_loop.simps [of graph s]\<close>)
  qed
qed

text \<open>All components that repeated calls of \<open>next_scc\<close> yield.\<close>

function collect_sccs :: "'n Graph \<Rightarrow> 'n TarjanScc \<Rightarrow> 'n list list option" where
  "collect_sccs graph s =
     (case TarjanScc_next_scc graph s of
        None \<Rightarrow> None
      | Some (None, s1) \<Rightarrow> Some []
      | Some (Some scc, s1) \<Rightarrow> map_option (Cons scc) (collect_sccs graph s1))"
  by pat_completeness auto

termination
proof (relation "measure (work_left \<circ> snd)")
  fix graph :: "'n Graph" and s x q s1 scc
  assume "TarjanScc_next_scc graph s = Some x" "(q, s1) = x" "q = Some scc"
  then have "work_left s1 < work_left (begin_next_scc s)"
    using next_scc_loop_work [of graph "begin_next_scc s" scc s1] by (auto simp: TarjanScc_next_scc_def)
  then show "((graph, s1), graph, s) \<in> measure (work_left \<circ> snd)"
    by (simp add: work_left_def neighbors_left_def begin_next_scc_def split: option.splits)
qed simp

declare collect_sccs.simps [simp del]

definition iter_sccs :: "'n Graph \<Rightarrow> 'n list list option" where
  "iter_sccs graph = collect_sccs graph (new_tarjan_scc graph)"

end
