(* ===== verification/SccInvariant.thy ===== *)
theory SccInvariant
  imports Main
begin

text \<open>
  The invariant of Pearce's search for strongly connected components, on plain functions: \<open>rt\<close>, \<open>pd\<close> and \<open>rm\<close> are the root,
  the pending neighbour and the remaining neighbours of a node, \<open>S\<close> is the component stack, \<open>P\<close> the search path
  with its last node first and the flags of its nodes, and \<open>k\<close> the next component id. Two things are not in the code:
  \<open>num\<close>, the number a node got when it was first visited, and \<open>D\<close>, the nodes of the components found so far.
\<close>

definition active :: "'n list \<Rightarrow> ('n \<times> bool) list \<Rightarrow> 'n set" where
  "active S P = set S \<union> fst ` set P"

fun linked :: "('n \<Rightarrow> 'n option) \<Rightarrow> ('n \<times> bool) list \<Rightarrow> bool" where
  "linked pd (p # q # P) = (pd (fst q) = Some (fst p) \<and> linked pd (q # P))"
| "linked pd _ = True"

definition inv_sets ::
  "'n set \<Rightarrow> ('n \<Rightarrow> nat option) \<Rightarrow> nat \<Rightarrow> 'n list \<Rightarrow> ('n \<times> bool) list \<Rightarrow> ('n \<Rightarrow> nat) \<Rightarrow> 'n set \<Rightarrow> bool" where
  "inv_sets V rt k S P num D \<longleftrightarrow> distinct (S @ map fst P) \<and> active S P \<subseteq> V \<and> D \<subseteq> V \<and> active S P \<inter> D = {} \<and>
     (\<forall>x \<in> V. rt x = None \<longleftrightarrow> x \<notin> active S P \<union> D) \<and> bij_betw num (active S P) {1..card (active S P)} \<and>
     (\<forall>x \<in> D. k < the (rt x)) \<and> 2 ^ 64 - 1 \<le> k + card D"

definition inv_roots ::
  "('n \<times> 'n) set \<Rightarrow> ('n \<Rightarrow> nat option) \<Rightarrow> 'n list \<Rightarrow> ('n \<times> bool) list \<Rightarrow> ('n \<Rightarrow> nat) \<Rightarrow> bool" where
  "inv_roots E rt S P num \<longleftrightarrow>
     (\<forall>x \<in> active S P. the (rt x) \<le> num x \<and> (\<exists>y \<in> active S P. num y = the (rt x) \<and> (x, y) \<in> E\<^sup>*)) \<and>
     (\<forall>x \<in> set S. the (rt x) < num x) \<and> (\<forall>(v, f) \<in> set P. f \<longleftrightarrow> the (rt v) = num v) \<and>
     (\<forall>v \<in> fst ` set P. \<forall>y \<in> active S P. num v \<le> num y \<longrightarrow> (v, y) \<in> E\<^sup>*)"

text \<open>\<open>g\<close> is the last node of the path that was visited before \<open>x\<close>.\<close>

definition nearest :: "('n \<Rightarrow> nat) \<Rightarrow> ('n \<times> bool) list \<Rightarrow> 'n \<Rightarrow> 'n \<Rightarrow> bool" where
  "nearest num P x g \<longleftrightarrow> g \<in> fst ` set P \<and> num g < num x \<and> (\<forall>h \<in> fst ` set P. num h < num x \<longrightarrow> num h \<le> num g)"

definition inv_order ::
  "('n \<Rightarrow> nat option) \<Rightarrow> ('n \<Rightarrow> 'n option) \<Rightarrow> 'n list \<Rightarrow> ('n \<times> bool) list \<Rightarrow> ('n \<Rightarrow> nat) \<Rightarrow> bool" where
  "inv_order rt pd S P num \<longleftrightarrow> linked pd P \<and> sorted_wrt (\<lambda>p q. num (fst q) < num (fst p)) P \<and>
     sorted_wrt (\<lambda>x y. \<forall>g \<in> fst ` set P. num g < num x \<longrightarrow> num g < num y) S \<and>
     (\<forall>x \<in> set S. \<forall>g. nearest num P x g \<longrightarrow>
        the (rt g) \<le> the (rt x) \<or> (\<exists>w \<in> set S. pd g = Some w \<and> the (rt w) \<le> the (rt x)))"

definition inv_edges ::
  "'n set \<Rightarrow> ('n \<times> 'n) set \<Rightarrow> ('n \<Rightarrow> nat option) \<Rightarrow> ('n \<Rightarrow> 'n option) \<Rightarrow> ('n \<Rightarrow> 'n list) \<Rightarrow> 'n list \<Rightarrow> ('n \<times> bool) list \<Rightarrow>
   ('n \<Rightarrow> nat) \<Rightarrow> 'n set \<Rightarrow> bool" where
  "inv_edges V E rt pd rm S P num D \<longleftrightarrow>
     (\<forall>x y. x \<in> D \<longrightarrow> (x, y) \<in> E \<longrightarrow> y \<in> D) \<and> (\<forall>x \<in> set S. rm x = [] \<and> pd x = None) \<and>
     (\<forall>x y. x \<in> active S P \<longrightarrow> (x, y) \<in> E \<longrightarrow>
        y \<in> set (rm x) \<or> pd x = Some y \<or> y \<in> D \<or> y \<in> active S P \<and> the (rt x) \<le> num y) \<and>
     (\<forall>x \<in> V - active S P - D. pd x = None \<and> (\<forall>y. (x, y) \<in> E \<longrightarrow> y \<in> set (rm x))) \<and>
     (\<forall>x \<in> V. (\<forall>y \<in> set (rm x). (x, y) \<in> E) \<and> (\<forall>w. pd x = Some w \<longrightarrow> (x, w) \<in> E))"

definition search_inv where
  "search_inv V E rt pd rm k S P num D \<longleftrightarrow> inv_sets V rt k S P num D \<and> inv_roots E rt S P num \<and>
     inv_order rt pd S P num \<and> inv_edges V E rt pd rm S P num D"

section \<open>Consequences\<close>

lemma active_Cons [simp]: "active S ((v, f) # P) = insert v (active S P)"
  by (auto simp: active_def)

lemma active_finite [simp]: "finite (active S P)"
  by (simp add: active_def)

lemma active_snoc: "active (S @ [v]) P = insert v (active S P)"
  by (auto simp: active_def)

lemma linked_Cons: "linked pd (p # P) \<Longrightarrow> linked pd P"
  by (cases P) auto

lemma linked_pending: "linked pd (p # P) \<Longrightarrow> g \<in> fst ` set P \<Longrightarrow> \<exists>q \<in> set (p # P). pd g = Some (fst q)"
  by (induction P arbitrary: p) auto

lemma linked_cong: "\<forall>g \<in> fst ` set (tl P). pd' g = pd g \<Longrightarrow> linked pd' P = linked pd P"
  by (induction pd P rule: linked.induct) auto

lemma nearest_unique: "inj_on num (fst ` set P) \<Longrightarrow> nearest num P x g \<Longrightarrow> nearest num P x h \<Longrightarrow> g = h"
  unfolding nearest_def by (meson inj_onD le_antisym)

lemma search_root_bound:
  assumes "search_inv V E rt pd rm k S P num D" "finite V" "x \<in> active S P"
  shows "the (rt x) \<le> num x" "1 \<le> the (rt x)" "num x \<le> card V" "rt x \<noteq> None"
proof -
  have s: "inv_sets V rt k S P num D" "inv_roots E rt S P num" using assms(1) by (simp_all add: search_inv_def)
  have bij: "num ` active S P = {1..card (active S P)}" using s(1) by (simp add: inv_sets_def bij_betw_def)
  obtain y where y: "y \<in> active S P" "num y = the (rt x)" using s(2) assms(3) unfolding inv_roots_def by blast
  have "num y \<in> num ` active S P" "num x \<in> num ` active S P" using y(1) assms(3) by blast+
  then have "1 \<le> num y" "num x \<le> card (active S P)" unfolding bij by simp_all
  moreover have "card (active S P) \<le> card V" using s(1) assms(2) by (intro card_mono) (simp_all add: inv_sets_def)
  ultimately show "1 \<le> the (rt x)" "num x \<le> card V" using y(2) by simp_all
  show "the (rt x) \<le> num x" using s(2) assms(3) by (simp add: inv_roots_def)
  show "rt x \<noteq> None" using s(1) assms(3) by (auto simp: inv_sets_def)
qed

lemma search_visited: "search_inv V E rt pd rm k S P num D \<Longrightarrow> x \<in> V \<Longrightarrow> rt x = None \<longleftrightarrow> x \<notin> active S P \<and> x \<notin> D"
  by (simp add: search_inv_def inv_sets_def)

lemma search_done_root: "search_inv V E rt pd rm k S P num D \<Longrightarrow> x \<in> D \<Longrightarrow> k < the (rt x)"
  by (simp add: search_inv_def inv_sets_def)

lemma search_pending_edge: "search_inv V E rt pd rm k S P num D \<Longrightarrow> x \<in> V \<Longrightarrow> pd x = Some w \<Longrightarrow> (x, w) \<in> E"
  by (simp add: search_inv_def inv_edges_def)

lemma search_neighbor_edge: "search_inv V E rt pd rm k S P num D \<Longrightarrow> x \<in> V \<Longrightarrow> w \<in> set (rm x) \<Longrightarrow> (x, w) \<in> E"
  by (simp add: search_inv_def inv_edges_def)

lemma search_unvisited_pending:
  "search_inv V E rt pd rm k S P num D \<Longrightarrow> x \<in> V \<Longrightarrow> rt x = None \<Longrightarrow> pd x = None"
  using search_visited [of V E rt pd rm k S P num D x] by (simp add: search_inv_def inv_edges_def)

lemma search_linked: "search_inv V E rt pd rm k S ((v, f) # (u, h) # P) num D \<Longrightarrow> pd u = Some v"
  by (simp add: search_inv_def inv_order_def)

lemma search_scc_index:
  assumes "search_inv V E rt pd rm k S P num D" "finite V" "card V < 2 ^ 63 - 1"
  shows "card V < k"
proof -
  have "D \<subseteq> V" "2 ^ 64 - 1 \<le> k + card D" using assms(1) by (simp_all add: search_inv_def inv_sets_def)
  then have "card D \<le> card V" using assms(2) by (simp add: card_mono)
  then show ?thesis using assms(3) \<open>2 ^ 64 - 1 \<le> k + card D\<close> by simp
qed

lemma search_path_empty:
  assumes "search_inv V E rt pd rm k S [] num D" "finite V"
  shows "S = []"
proof (rule ccontr)
  assume "S \<noteq> []"
  then have act: "active S [] \<noteq> {}" by (simp add: active_def)
  define x where "x = arg_min_on num (active S [])"
  have x: "x \<in> active S []" "\<And>y. y \<in> active S [] \<Longrightarrow> num x \<le> num y"
    using arg_min_if_finite [OF active_finite act, of num] by (auto simp: x_def not_less)
  have r: "inv_roots E rt S [] num" using assms(1) by (simp add: search_inv_def)
  then obtain y where "y \<in> active S []" "num y = the (rt x)" using x(1) unfolding inv_roots_def by blast
  moreover have "the (rt x) < num x" using r x(1) by (simp add: inv_roots_def active_def)
  ultimately show False using x(2) by fastforce
qed

section \<open>Preservation\<close>

lemma search_init:
  assumes "\<And>x. x \<in> V \<Longrightarrow> rt x = None \<and> pd x = None \<and> set (rm x) = {y. (x, y) \<in> E}"
  shows "search_inv V E rt pd rm (2 ^ 64 - 1) [] [] num {}"
  using assms by (simp add: search_inv_def inv_sets_def inv_roots_def inv_order_def inv_edges_def active_def bij_betw_def)

lemma search_enter:
  assumes inv: "search_inv V E rt pd rm k S P num D" and w: "w \<in> V" "rt w = None"
    and top: "\<And>t f Q. P = (t, f) # Q \<Longrightarrow> pd t = Some w \<and> (t, w) \<in> E"
  defines "n \<equiv> card (active S P) + 1"
  shows "search_inv V E (rt(w := Some n)) pd rm k S ((w, True) # P) (num(w := n)) D"
proof -
  have s: "inv_sets V rt k S P num D" and r: "inv_roots E rt S P num" and ord: "inv_order rt pd S P num"
    and e: "inv_edges V E rt pd rm S P num D" using inv by (simp_all add: search_inv_def)
  have wn: "w \<notin> active S P" "w \<notin> D" using s w by (auto simp: inv_sets_def)
  have wS: "w \<notin> set S" "w \<notin> fst ` set P" using wn(1) by (auto simp: active_def)
  have bij: "bij_betw num (active S P) {1..card (active S P)}" using s by (simp add: inv_sets_def)
  have lt: "num x < n" if "x \<in> active S P" for x
  proof -
    have "num x \<in> {1..card (active S P)}" using bij that by (auto simp: bij_betw_def)
    then show ?thesis by (simp add: n_def)
  qed
  have same: "(num(w := n)) x = num x" "(rt(w := Some n)) x = rt x" if "x \<in> active S P" for x using that wn by auto
  have Pa: "x \<in> active S P" if "x \<in> fst ` set P" for x using that by (simp add: active_def)
  have Sa: "x \<in> active S P" if "x \<in> set S" for x using that by (simp add: active_def)
  have "bij_betw (num(w := n)) (insert w (active S P)) {1..card (insert w (active S P))}"
  proof -
    have "bij_betw (num(w := n)) (active S P) {1..card (active S P)}"
      using bij same by (simp cong: bij_betw_cong)
    then have "bij_betw (num(w := n)) (active S P \<union> {w}) ({1..card (active S P)} \<union> {n})"
      using wn by (intro bij_betw_combine) (auto simp: n_def bij_betw_def)
    then show ?thesis using wn by (simp add: n_def atLeastAtMostSuc_conv insert_commute)
  qed
  then have s': "inv_sets V (rt(w := Some n)) k S ((w, True) # P) (num(w := n)) D"
    using s w wn wS by (auto simp: inv_sets_def)
  have reach: "(g, w) \<in> E\<^sup>*" if g: "g \<in> fst ` set P" for g
  proof -
    from g obtain t f Q where P: "P = (t, f) # Q" by (cases P) auto
    have "num g \<le> num t" using ord g P by (auto simp: inv_order_def intro: less_imp_le)
    moreover have "t \<in> active S P" using P by simp
    ultimately have "(g, t) \<in> E\<^sup>*" using r g unfolding inv_roots_def by blast
    then show ?thesis using top [OF P] by (simp add: rtrancl.rtrancl_into_rtrancl)
  qed
  have r': "inv_roots E (rt(w := Some n)) S ((w, True) # P) (num(w := n))"
  proof -
    have 1: "the ((rt(w := Some n)) x) \<le> (num(w := n)) x \<and>
        (\<exists>y \<in> insert w (active S P). (num(w := n)) y = the ((rt(w := Some n)) x) \<and> (x, y) \<in> E\<^sup>*)"
      if "x \<in> insert w (active S P)" for x
    proof (cases "x = w")
      case False
      then have x: "x \<in> active S P" using that by simp
      then obtain y where "y \<in> active S P" "num y = the (rt x)" "(x, y) \<in> E\<^sup>*" "the (rt x) \<le> num x"
        using r unfolding inv_roots_def by blast
      then show ?thesis using same x by (intro conjI bexI [of _ y]) auto
    qed auto
    have 2: "(v, y) \<in> E\<^sup>*" if "v \<in> insert w (fst ` set P)" "y \<in> insert w (active S P)" "(num(w := n)) v \<le> (num(w := n)) y" for v y
      using that r reach lt [of y] same Pa unfolding inv_roots_def by (cases "v = w"; cases "y = w") auto
    have 3: "f \<longleftrightarrow> the ((rt(w := Some n)) v) = (num(w := n)) v" if "(v, f) \<in> set P" for v f
    proof -
      have "v \<noteq> w" using wS(2) that by force
      then show ?thesis using r that unfolding inv_roots_def by auto
    qed
    have 4: "\<forall>x \<in> set S. the ((rt(w := Some n)) x) < (num(w := n)) x" using r wS(1) by (auto simp: inv_roots_def)
    show ?thesis unfolding inv_roots_def active_Cons by (intro conjI) (use 1 2 3 4 in \<open>auto simp del: fun_upd_apply simp: fun_upd_same\<close>)
  qed
  have near: "nearest num P x g" if "nearest (num(w := n)) ((w, True) # P) x g" "x \<in> set S" for x g
    using that lt [OF Sa [OF that(2)]] wS by (auto simp: nearest_def split: if_splits)
  have ord': "inv_order (rt(w := Some n)) pd S ((w, True) # P) (num(w := n))"
  proof -
    have "linked pd ((w, True) # P)" using ord top by (cases P) (auto simp: inv_order_def)
    moreover have "sorted_wrt (\<lambda>p q. (num(w := n)) (fst q) < (num(w := n)) (fst p)) ((w, True) # P)"
      using ord wS(2) lt Pa by (auto simp: inv_order_def image_iff intro: sorted_wrt_mono_rel [of P "\<lambda>p q. num (fst q) < num (fst p)"])
    moreover have "sorted_wrt (\<lambda>x y. \<forall>g \<in> fst ` set ((w, True) # P). (num(w := n)) g < (num(w := n)) x \<longrightarrow> (num(w := n)) g < (num(w := n)) y) S"
    proof (rule sorted_wrt_mono_rel [of S "\<lambda>x y. \<forall>g \<in> fst ` set P. num g < num x \<longrightarrow> num g < num y"])
      fix x y
      assume xy: "x \<in> set S" "y \<in> set S" and le: "\<forall>g \<in> fst ` set P. num g < num x \<longrightarrow> num g < num y"
      have nx: "(num(w := n)) x = num x" "(num(w := n)) y = num y" "num x < n"
        using same(1) [OF Sa] lt [OF Sa] xy by blast+
      show "\<forall>g \<in> fst ` set ((w, True) # P). (num(w := n)) g < (num(w := n)) x \<longrightarrow> (num(w := n)) g < (num(w := n)) y"
      proof (intro ballI impI)
        fix g
        assume g: "g \<in> fst ` set ((w, True) # P)" "(num(w := n)) g < (num(w := n)) x"
        have "g \<noteq> w" using g(2) nx(1,3) by auto
        then show "(num(w := n)) g < (num(w := n)) y" using g le nx by auto
      qed
    qed (use ord in \<open>simp add: inv_order_def\<close>)
    moreover have "the ((rt(w := Some n)) g) \<le> the ((rt(w := Some n)) x) \<or>
        (\<exists>u \<in> set S. pd g = Some u \<and> the ((rt(w := Some n)) u) \<le> the ((rt(w := Some n)) x))"
      if "x \<in> set S" "nearest (num(w := n)) ((w, True) # P) x g" for x g
    proof -
      have n: "nearest num P x g" by (rule near [OF that(2,1)])
      then have "g \<noteq> w" using wS(2) by (auto simp: nearest_def)
      moreover have "x \<noteq> w" "\<And>u. u \<in> set S \<Longrightarrow> u \<noteq> w" using that(1) wS(1) by auto
      moreover have "the (rt g) \<le> the (rt x) \<or> (\<exists>u \<in> set S. pd g = Some u \<and> the (rt u) \<le> the (rt x))"
        using ord n that(1) unfolding inv_order_def by blast
      ultimately show ?thesis by auto
    qed
    ultimately show ?thesis unfolding inv_order_def by blast
  qed
  have e': "inv_edges V E (rt(w := Some n)) pd rm S ((w, True) # P) (num(w := n)) D"
  proof -
    have 1: "\<forall>x y. x \<in> D \<longrightarrow> (x, y) \<in> E \<longrightarrow> y \<in> D" "\<forall>x \<in> set S. rm x = [] \<and> pd x = None"
      "\<forall>x \<in> V. (\<forall>y \<in> set (rm x). (x, y) \<in> E) \<and> (\<forall>w. pd x = Some w \<longrightarrow> (x, w) \<in> E)"
      "\<And>x. x \<in> V - active S P - D \<Longrightarrow> pd x = None \<and> (\<forall>y. (x, y) \<in> E \<longrightarrow> y \<in> set (rm x))"
      using e unfolding inv_edges_def by blast+
    have 2: "y \<in> set (rm x) \<or> pd x = Some y \<or> y \<in> D \<or> y \<in> insert w (active S P) \<and> the ((rt(w := Some n)) x) \<le> (num(w := n)) y"
      if "x \<in> insert w (active S P)" "(x, y) \<in> E" for x y
    proof (cases "x = w")
      case True
      then show ?thesis using 1(4) [of w] w(1) wn that(2) by blast
    next
      case False
      then have "x \<in> active S P" using that(1) by blast
      then have "y \<in> set (rm x) \<or> pd x = Some y \<or> y \<in> D \<or> y \<in> active S P \<and> the (rt x) \<le> num y"
        using e that(2) unfolding inv_edges_def by blast
      then show ?thesis using False same(1) [of y] by fastforce
    qed
    show ?thesis unfolding inv_edges_def active_Cons using 1 2 by blast
  qed
  show ?thesis using s' r' ord' e' by (simp add: search_inv_def)
qed


lemma search_top:
  assumes "search_inv V E rt pd rm k S ((v, f) # P) num D"
  shows "v \<notin> set S" "v \<notin> fst ` set P" "v \<in> V" "v \<notin> D" "v \<in> active S ((v, f) # P)"
  using assms by (auto simp: search_inv_def inv_sets_def)

lemma inv_edges_active:
  "inv_edges V E rt pd rm S P num D \<Longrightarrow> x \<in> active S P \<Longrightarrow> (x, y) \<in> E \<Longrightarrow>
    y \<in> set (rm x) \<or> pd x = Some y \<or> y \<in> D \<or> y \<in> active S P \<and> the (rt x) \<le> num y"
  by (simp add: inv_edges_def)

lemma inv_edges_mono:
  assumes "inv_edges V E rt pd rm S P num D" "active S P' = active S P"
    and "\<And>x. x \<in> V \<Longrightarrow> set (rm' x) \<subseteq> {y. (x, y) \<in> E} \<and> (pd' x = None \<or> (x, the (pd' x)) \<in> E)"
    and "\<And>x. x \<notin> fst ` set P \<Longrightarrow> rm' x = rm x \<and> pd' x = pd x" "set S \<inter> fst ` set P = {}"
    and "\<And>x y. x \<in> active S P \<Longrightarrow> (x, y) \<in> E \<Longrightarrow>
      y \<in> set (rm' x) \<or> pd' x = Some y \<or> y \<in> D \<or> y \<in> active S P \<and> the (rt' x) \<le> num y"
  shows "inv_edges V E rt' pd' rm' S P' num D"
proof -
  have S: "rm' x = [] \<and> pd' x = None" if "x \<in> set S" for x
    using assms(1,4,5) that unfolding inv_edges_def by (metis disjoint_iff)
  have new: "pd' x = None \<and> (\<forall>y. (x, y) \<in> E \<longrightarrow> y \<in> set (rm' x))" if "x \<in> V - active S P - D" for x
  proof -
    have "x \<notin> fst ` set P" using that by (simp add: active_def)
    then show ?thesis using assms(1) assms(4) [of x] that unfolding inv_edges_def by simp
  qed
  have sub: "(\<forall>y \<in> set (rm' x). (x, y) \<in> E) \<and> (\<forall>w. pd' x = Some w \<longrightarrow> (x, w) \<in> E)" if "x \<in> V" for x
    using assms(3) [OF that] by auto
  have D: "\<forall>x y. x \<in> D \<longrightarrow> (x, y) \<in> E \<longrightarrow> y \<in> D" using assms(1) unfolding inv_edges_def by (rule conjunct1)
  show ?thesis unfolding inv_edges_def assms(2) by (intro conjI D allI impI ballI) (use assms(6) S new sub in blast)+
qed

lemma linked_upd: "v \<notin> fst ` set P \<Longrightarrow> linked (pd(v := q)) ((v, f) # P) = linked pd ((v, f) # P)"
  by (rule linked_cong) auto

lemma inv_order_nearest:
  "inv_order rt pd S P num \<Longrightarrow> x \<in> set S \<Longrightarrow> nearest num P x g \<Longrightarrow>
    the (rt g) \<le> the (rt x) \<or> (\<exists>w \<in> set S. pd g = Some w \<and> the (rt w) \<le> the (rt x))"
  by (simp add: inv_order_def)

lemma search_lower:
  assumes inv: "search_inv V E rt pd rm k S ((v, f) # P) num D"
    and w: "w \<in> active S ((v, f) # P)" "(v, w) \<in> E" "the (rt w) < the (rt v)"
  shows "search_inv V E (rt(v := rt w)) pd rm k S ((v, False) # P) num D"
proof -
  have s: "inv_sets V rt k S ((v, f) # P) num D" and r: "inv_roots E rt S ((v, f) # P) num" and ord: "inv_order rt pd S ((v, f) # P) num"
    and e: "inv_edges V E rt pd rm S ((v, f) # P) num D" using inv by (simp_all add: search_inv_def)
  note v = search_top [OF inv]
  have disj: "set S \<inter> fst ` set ((v, f) # P) = {}" using inv by (auto simp: search_inv_def inv_sets_def)
  have "rt w \<noteq> None" using s w(1) by (auto simp: inv_sets_def)
  then have s': "inv_sets V (rt(v := rt w)) k S ((v, False) # P) num D" using s v by (auto simp: inv_sets_def)
  have r': "inv_roots E (rt(v := rt w)) S ((v, False) # P) num"
  proof -
    have rv: "the (rt v) \<le> num v" using r by (simp add: inv_roots_def)
    obtain y where y: "y \<in> active S ((v, f) # P)" "num y = the (rt w)" "(w, y) \<in> E\<^sup>*" using r w(1) unfolding inv_roots_def by blast
    have vy: "(v, y) \<in> E\<^sup>*" using y(3) w(2) by (rule converse_rtrancl_into_rtrancl [rotated])
    have 1: "the ((rt(v := rt w)) x) \<le> num x \<and> (\<exists>y \<in> active S ((v, False) # P). num y = the ((rt(v := rt w)) x) \<and> (x, y) \<in> E\<^sup>*)"
      if "x \<in> active S ((v, False) # P)" for x
    proof (cases "x = v")
      case True
      then show ?thesis using rv w(3) y vy by (intro conjI bexI [of _ y]) auto
    next
      case False
      then show ?thesis using r that unfolding inv_roots_def by simp
    qed
    have 2: "\<forall>x \<in> set S. the ((rt(v := rt w)) x) < num x" using r v(1) by (auto simp: inv_roots_def)
    have 3: "h \<longleftrightarrow> the ((rt(v := rt w)) u) = num u" if "(u, h) \<in> set ((v, False) # P)" for u h
    proof (cases "u = v")
      case True
      then have "h = False" using that v(2) by force
      then show ?thesis using True rv w(3) by simp
    next
      case False
      then show ?thesis using r that unfolding inv_roots_def by auto
    qed
    have 4: "\<forall>u \<in> fst ` set ((v, False) # P). \<forall>y \<in> active S ((v, False) # P). num u \<le> num y \<longrightarrow> (u, y) \<in> E\<^sup>*"
      using r by (simp add: inv_roots_def)
    show ?thesis unfolding inv_roots_def by (intro conjI) (use 1 2 3 4 in blast)+
  qed
  have ord': "inv_order (rt(v := rt w)) pd S ((v, False) # P) num"
  proof -
    have near: "nearest num ((v, False) # P) x g \<longleftrightarrow> nearest num ((v, f) # P) x g" for x g by (simp add: nearest_def)
    have "the ((rt(v := rt w)) g) \<le> the ((rt(v := rt w)) x) \<or>
        (\<exists>u \<in> set S. pd g = Some u \<and> the ((rt(v := rt w)) u) \<le> the ((rt(v := rt w)) x))"
      if x: "x \<in> set S" "nearest num ((v, False) # P) x g" for x g
    proof -
      have "the (rt g) \<le> the (rt x) \<or> (\<exists>u \<in> set S. pd g = Some u \<and> the (rt u) \<le> the (rt x))"
        using ord x unfolding near inv_order_def by blast
      moreover have "x \<noteq> v" "\<And>u. u \<in> set S \<Longrightarrow> u \<noteq> v" using x(1) v(1) by auto
      ultimately show ?thesis using w(3) by (cases "g = v") auto
    qed
    moreover have "linked pd ((v, False) # P)" using ord by (cases P) (auto simp: inv_order_def)
    ultimately show ?thesis using ord by (simp add: inv_order_def)
  qed
  have e': "inv_edges V E (rt(v := rt w)) pd rm S ((v, False) # P) num D"
  proof (rule inv_edges_mono [OF e])
    fix x y
    assume x: "x \<in> active S ((v, f) # P)" "(x, y) \<in> E"
    show "y \<in> set (rm x) \<or> pd x = Some y \<or> y \<in> D \<or> y \<in> active S ((v, f) # P) \<and> the ((rt(v := rt w)) x) \<le> num y"
      using inv_edges_active [OF e x] w(3) by (cases "x = v") auto
  qed (use e v disj in \<open>auto simp: inv_edges_def\<close>)
  show ?thesis using s' r' ord' e' by (simp add: search_inv_def)
qed

text \<open>A neighbour that needs no further attention is dropped.\<close>

lemma search_drop_neighbor:
  assumes inv: "search_inv V E rt pd rm k S ((v, f) # P) num D"
    and w: "rm v = w # ws" "w \<in> D \<or> w \<in> active S ((v, f) # P) \<and> the (rt v) \<le> num w"
  shows "search_inv V E rt pd (rm(v := ws)) k S ((v, f) # P) num D"
proof -
  have e: "inv_edges V E rt pd rm S ((v, f) # P) num D" using inv by (simp add: search_inv_def)
  note v = search_top [OF inv]
  have disj: "set S \<inter> fst ` set ((v, f) # P) = {}" using inv by (auto simp: search_inv_def inv_sets_def)
  have "inv_edges V E rt pd (rm(v := ws)) S ((v, f) # P) num D"
  proof (rule inv_edges_mono [OF e refl])
    fix x y
    assume x: "x \<in> active S ((v, f) # P)" "(x, y) \<in> E"
    show "y \<in> set ((rm(v := ws)) x) \<or> pd x = Some y \<or> y \<in> D \<or> y \<in> active S ((v, f) # P) \<and> the (rt x) \<le> num y"
      using inv_edges_active [OF e x] w by (cases "x = v") auto
  qed (use e w(1) disj in \<open>auto simp: inv_edges_def\<close>)
  then show ?thesis using inv by (simp add: search_inv_def)
qed

lemma search_drop_pending:
  assumes inv: "search_inv V E rt pd rm k S ((v, f) # P) num D"
    and w: "pd v = Some w" "w \<in> D \<or> w \<in> active S ((v, f) # P) \<and> the (rt v) \<le> num w" "w \<in> set S \<Longrightarrow> the (rt v) \<le> the (rt w)"
  shows "search_inv V E rt (pd(v := None)) rm k S ((v, f) # P) num D"
proof -
  have e: "inv_edges V E rt pd rm S ((v, f) # P) num D" and ord: "inv_order rt pd S ((v, f) # P) num"
    using inv by (simp_all add: search_inv_def)
  note v = search_top [OF inv]
  have disj: "set S \<inter> fst ` set ((v, f) # P) = {}" using inv by (auto simp: search_inv_def inv_sets_def)
  have e': "inv_edges V E rt (pd(v := None)) rm S ((v, f) # P) num D"
  proof (rule inv_edges_mono [OF e refl])
    fix x y
    assume x: "x \<in> active S ((v, f) # P)" "(x, y) \<in> E"
    show "y \<in> set (rm x) \<or> (pd(v := None)) x = Some y \<or> y \<in> D \<or> y \<in> active S ((v, f) # P) \<and> the (rt x) \<le> num y"
      using inv_edges_active [OF e x] w(1,2) by (cases "x = v") auto
  qed (use e disj in \<open>auto simp: inv_edges_def\<close>)
  have "the (rt g) \<le> the (rt x) \<or> (\<exists>u \<in> set S. (pd(v := None)) g = Some u \<and> the (rt u) \<le> the (rt x))"
    if "x \<in> set S" "nearest num ((v, f) # P) x g" for x g
    using inv_order_nearest [OF ord that] w(1,3) by (cases "g = v") (auto intro: le_trans)
  moreover have "linked (pd(v := None)) ((v, f) # P)"
    using ord v(2) by (simp add: inv_order_def linked_upd)
  ultimately have "inv_order rt (pd(v := None)) S ((v, f) # P) num" using ord by (simp add: inv_order_def)
  then show ?thesis using inv e' by (simp add: search_inv_def)
qed

lemma search_push:
  assumes inv: "search_inv V E rt pd rm k S ((v, f) # P) num D" and w: "rm v = w # ws" "pd v = None"
  shows "search_inv V E rt (pd(v := Some w)) (rm(v := ws)) k S ((v, f) # P) num D"
proof -
  have e: "inv_edges V E rt pd rm S ((v, f) # P) num D" and ord: "inv_order rt pd S ((v, f) # P) num"
    using inv by (simp_all add: search_inv_def)
  note v = search_top [OF inv]
  have disj: "set S \<inter> fst ` set ((v, f) # P) = {}" using inv by (auto simp: search_inv_def inv_sets_def)
  have e': "inv_edges V E rt (pd(v := Some w)) (rm(v := ws)) S ((v, f) # P) num D"
  proof (rule inv_edges_mono [OF e refl])
    fix x y
    assume x: "x \<in> active S ((v, f) # P)" "(x, y) \<in> E"
    show "y \<in> set ((rm(v := ws)) x) \<or> (pd(v := Some w)) x = Some y \<or> y \<in> D \<or> y \<in> active S ((v, f) # P) \<and> the (rt x) \<le> num y"
      using inv_edges_active [OF e x] w by (cases "x = v") auto
  qed (use e w(1) v disj in \<open>auto simp: inv_edges_def\<close>)
  have "the (rt g) \<le> the (rt x) \<or> (\<exists>u \<in> set S. (pd(v := Some w)) g = Some u \<and> the (rt u) \<le> the (rt x))"
    if "x \<in> set S" "nearest num ((v, f) # P) x g" for x g
    using inv_order_nearest [OF ord that] w(2) by (cases "g = v") auto
  moreover have "linked (pd(v := Some w)) ((v, f) # P)"
    using ord v(2) by (simp add: inv_order_def linked_upd)
  ultimately have "inv_order rt (pd(v := Some w)) S ((v, f) # P) num" using ord by (simp add: inv_order_def)
  then show ?thesis using inv e' by (simp add: search_inv_def)
qed


lemma search_num_inj: "search_inv V E rt pd rm k S P num D \<Longrightarrow> inj_on num (active S P)"
  by (simp add: search_inv_def inv_sets_def bij_betw_def)

lemma search_stack_top:
  assumes "search_inv V E rt pd rm k S ((v, f) # P) num D" "x \<in> set S"
  shows "num x \<noteq> num v"
proof
  assume "num x = num v"
  then have "x = v" using inj_onD [OF search_num_inj [OF assms(1)], of x v] assms(2) by (simp add: active_def)
  then show False using search_top(1) [OF assms(1)] assms(2) by simp
qed

lemma search_leave:
  assumes inv: "search_inv V E rt pd rm k S ((v, False) # P) num D" and v: "rm v = []" "pd v = None"
  shows "search_inv V E rt pd rm k (S @ [v]) P num D"
proof -
  have s: "inv_sets V rt k S ((v, False) # P) num D" and r: "inv_roots E rt S ((v, False) # P) num"
    and ord: "inv_order rt pd S ((v, False) # P) num"
    and e: "inv_edges V E rt pd rm S ((v, False) # P) num D" using inv by (simp_all add: search_inv_def)
  have act: "active (S @ [v]) P = active S ((v, False) # P)" by (simp add: active_snoc)
  have s': "inv_sets V rt k (S @ [v]) P num D"
    using s unfolding inv_sets_def act by auto
  have rv: "the (rt v) < num v" using r by (auto simp: inv_roots_def less_le)
  have r': "inv_roots E rt (S @ [v]) P num"
    using r rv unfolding inv_roots_def act by simp
  have e': "inv_edges V E rt pd rm (S @ [v]) P num D"
    using e v unfolding inv_edges_def act by simp
  have lt: "num g < num v" if "g \<in> fst ` set P" for g using ord that by (auto simp: inv_order_def)
  have inj: "inj_on num (fst ` set P)"
    using s by (auto simp: inv_sets_def bij_betw_def active_def intro: inj_on_subset)
  have ord': "inv_order rt pd (S @ [v]) P num"
  proof -
    have near: "the (rt g) \<le> the (rt x) \<or> (\<exists>w \<in> set (S @ [v]). pd g = Some w \<and> the (rt w) \<le> the (rt x))"
      if x: "x \<in> set (S @ [v])" and g: "nearest num P x g" for x g
    proof (cases "num v \<le> num x")
      case True
      have "g \<in> fst ` set P" using g by (simp add: nearest_def)
      then obtain u f Q where P: "P = (u, f) # Q" by (cases P) auto
      have pu: "pd u = Some v" using ord P by (simp add: inv_order_def)
      have "nearest num P x u" unfolding nearest_def
        using True lt P ord by (auto simp: inv_order_def intro: less_imp_le less_le_trans)
      then have gu: "g = u" using nearest_unique [OF inj g] by simp
      have "the (rt v) \<le> the (rt x)"
      proof (cases "x = v")
        case False
        then have "x \<in> set S" using x by simp
        moreover have "num x \<noteq> num v"
          using search_stack_top [OF inv \<open>x \<in> set S\<close>] .
        then have "nearest num ((v, False) # P) x v" using True lt by (auto simp: nearest_def intro: less_imp_le)
        ultimately show ?thesis using inv_order_nearest [OF ord] v(2) by fastforce
      qed simp
      then show ?thesis using gu pu by auto
    next
      case False
      then have x': "x \<in> set S" using x by auto
      have "nearest num ((v, False) # P) x g" using g False by (auto simp: nearest_def)
      from inv_order_nearest [OF ord x' this] show ?thesis by auto
    qed
    have "sorted_wrt (\<lambda>x y. \<forall>g \<in> fst ` set P. num g < num x \<longrightarrow> num g < num y) S"
      using ord by (auto simp: inv_order_def elim!: sorted_wrt_mono_rel [rotated])
    then have "sorted_wrt (\<lambda>x y. \<forall>g \<in> fst ` set P. num g < num x \<longrightarrow> num g < num y) (S @ [v])"
      using lt by (simp add: sorted_wrt_append)
    moreover have "linked pd P" using ord linked_Cons by (auto simp: inv_order_def)
    moreover have "sorted_wrt (\<lambda>p q. num (fst q) < num (fst p)) P" using ord by (simp add: inv_order_def)
    ultimately show ?thesis unfolding inv_order_def using near by blast
  qed
  show ?thesis using s' r' ord' e' by (simp add: search_inv_def)
qed

text \<open>
  When the search leaves a node that is its own root, this node and the nodes above the first smaller root on
  the stack are a strongly connected component.
\<close>

definition component_of :: "('n \<Rightarrow> nat) \<Rightarrow> 'n list \<Rightarrow> 'n \<Rightarrow> 'n list" where
  "component_of num S v = dropWhile (\<lambda>x. num x < num v) S @ [v]"

lemma close_split:
  assumes inv: "search_inv V E rt pd rm k S ((v, True) # P) num D" and v: "rm v = []" "pd v = None"
  shows "the (rt v) = num v"
    "\<And>x. x \<in> set (takeWhile (\<lambda>x. num x < num v) S) \<Longrightarrow> num x < num v \<and> the (rt x) < num v"
    "\<And>x. x \<in> set (dropWhile (\<lambda>x. num x < num v) S) \<Longrightarrow> num v < num x \<and> num v \<le> the (rt x)"
proof -
  have s: "inv_sets V rt k S ((v, True) # P) num D" and r: "inv_roots E rt S ((v, True) # P) num"
    and ord: "inv_order rt pd S ((v, True) # P) num" using inv by (simp_all add: search_inv_def)
  show rv: "the (rt v) = num v" using r by (simp add: inv_roots_def)
  show "num x < num v \<and> the (rt x) < num v" if "x \<in> set (takeWhile (\<lambda>x. num x < num v) S)" for x
  proof -
    have "x \<in> set S" "num x < num v" using set_takeWhileD [OF that] by simp_all
    moreover have "the (rt x) < num x" using r \<open>x \<in> set S\<close> by (simp add: inv_roots_def)
    ultimately show ?thesis by simp
  qed
  have top: "num h \<le> num v" if "h \<in> fst ` set ((v, True) # P)" for h using ord that by (auto simp: inv_order_def)
  note neq = search_stack_top [OF inv]
  have gt: "num v < num x" if x: "x \<in> set (dropWhile (\<lambda>x. num x < num v) S)" for x
  proof -
    let ?d = "dropWhile (\<lambda>x. num x < num v) S"
    from x obtain y ys where d: "?d = y # ys" by (cases ?d) auto
    have "y \<in> set S" using d by (metis list.set_intros(1) set_dropWhileD)
    moreover have "\<not> num y < num v" using d by (metis hd_dropWhile list.sel(1) list.distinct(1))
    ultimately have y: "num v < num y" using neq [of y] by simp
    have "sorted_wrt (\<lambda>x y. \<forall>g \<in> fst ` set ((v, True) # P). num g < num x \<longrightarrow> num g < num y) (takeWhile (\<lambda>x. num x < num v) S @ ?d)"
      using ord by (simp add: inv_order_def)
    then have "\<forall>z \<in> set ys. num v < num y \<longrightarrow> num v < num z" unfolding sorted_wrt_append d by simp
    then show ?thesis using x y d by auto
  qed
  show "num v < num x \<and> num v \<le> the (rt x)" if x: "x \<in> set (dropWhile (\<lambda>x. num x < num v) S)" for x
  proof -
    have xS: "x \<in> set S" using x by (rule set_dropWhileD)
    have "nearest num ((v, True) # P) x v" using gt [OF x] top by (auto simp: nearest_def)
    then show ?thesis using inv_order_nearest [OF ord xS] v(2) rv gt [OF x] by fastforce
  qed
qed

lemma close_members:
  assumes inv: "search_inv V E rt pd rm k S ((v, True) # P) num D" and v: "rm v = []" "pd v = None"
  shows "x \<in> set (component_of num S v) \<longleftrightarrow> x \<in> active S ((v, True) # P) \<and> num v \<le> num x"
    "active (takeWhile (\<lambda>x. num x < num v) S) P = {x \<in> active S ((v, True) # P). num x < num v}"
proof -
  have s: "inv_sets V rt k S ((v, True) # P) num D" and ord: "inv_order rt pd S ((v, True) # P) num"
    using inv by (simp_all add: search_inv_def)
  note c = close_split [OF inv v]
  have S: "set S = set (takeWhile (\<lambda>x. num x < num v) S) \<union> set (dropWhile (\<lambda>x. num x < num v) S)"
    by (metis set_append takeWhile_dropWhile_id)
  have P: "num h < num v" if "h \<in> fst ` set P" for h using ord that by (auto simp: inv_order_def)
  have T: "x \<in> set S \<and> num x < num v \<longleftrightarrow> x \<in> set (takeWhile (\<lambda>x. num x < num v) S)"
    "x \<in> set S \<and> num v \<le> num x \<longleftrightarrow> x \<in> set (dropWhile (\<lambda>x. num x < num v) S)" for x
    using S c(2,3) [of x] by auto
  have "x \<in> active S ((v, True) # P) \<and> num v \<le> num x \<longleftrightarrow> x = v \<or> x \<in> set S \<and> num v \<le> num x" for x
    using P [of x] unfolding active_Cons active_def insert_iff Un_iff by fastforce
  then show "x \<in> set (component_of num S v) \<longleftrightarrow> x \<in> active S ((v, True) # P) \<and> num v \<le> num x"
    unfolding T(2) by (auto simp: component_of_def)
  have "x \<in> active S ((v, True) # P) \<and> num x < num v \<longleftrightarrow> x \<in> set S \<and> num x < num v \<or> x \<in> fst ` set P" for x
    using P [of x] unfolding active_Cons active_def insert_iff Un_iff by fastforce
  then show "active (takeWhile (\<lambda>x. num x < num v) S) P = {x \<in> active S ((v, True) # P). num x < num v}"
    unfolding T(1) by (simp add: active_def set_eq_iff)
qed

lemma close_strongly_connected:
  assumes inv: "search_inv V E rt pd rm k S ((v, True) # P) num D" and v: "rm v = []" "pd v = None"
    and xy: "x \<in> set (component_of num S v)" "y \<in> set (component_of num S v)"
  shows "(x, y) \<in> E\<^sup>*"
proof -
  have r: "inv_roots E rt S ((v, True) # P) num" using inv by (simp add: search_inv_def)
  note c = close_split [OF inv v] and m = close_members(1) [OF inv v]
  have fwd: "(v, z) \<in> E\<^sup>*" if "z \<in> set (component_of num S v)" for z
    using r that unfolding m inv_roots_def by auto
  have "(z, v) \<in> E\<^sup>*" if "z \<in> set (component_of num S v)" for z
    using that
  proof (induction "num z" arbitrary: z rule: less_induct)
    case less
    show ?case
    proof (cases "z = v")
      case False
      then have z: "z \<in> set (dropWhile (\<lambda>x. num x < num v) S)" using less.prems by (simp add: component_of_def)
      then have zS: "z \<in> set S" by (rule set_dropWhileD)
      obtain u where u: "u \<in> active S ((v, True) # P)" "num u = the (rt z)" "(z, u) \<in> E\<^sup>*"
        using r zS unfolding inv_roots_def active_def by blast
      have "the (rt z) < num z" using r zS by (simp add: inv_roots_def)
      moreover have "u \<in> set (component_of num S v)" unfolding m using u c(3) [OF z] by simp
      ultimately have "(u, v) \<in> E\<^sup>*" using less.hyps u(2) by simp
      with u(3) show ?thesis by (rule rtrancl_trans)
    qed simp
  qed
  with xy fwd show ?thesis by (meson rtrancl_trans)
qed

lemma close_edges:
  assumes inv: "search_inv V E rt pd rm k S ((v, True) # P) num D" and v: "rm v = []" "pd v = None"
    and x: "x \<in> set (component_of num S v)" "(x, y) \<in> E"
  shows "y \<in> set (component_of num S v) \<union> D"
proof -
  have e: "inv_edges V E rt pd rm S ((v, True) # P) num D" using inv by (simp add: search_inv_def)
  note c = close_split [OF inv v] and m = close_members(1) [OF inv v]
  have fin: "rm x = [] \<and> pd x = None \<and> num v \<le> the (rt x)"
  proof (cases "x = v")
    case False
    then have "x \<in> set (dropWhile (\<lambda>x. num x < num v) S)" using x(1) by (simp add: component_of_def)
    with c(3) [OF this] show ?thesis using e set_dropWhileD by (fastforce simp: inv_edges_def)
  qed (use v c(1) in simp)
  have "x \<in> active S ((v, True) # P)" using x(1) unfolding m by simp
  from inv_edges_active [OF e this x(2)] fin show ?thesis unfolding Un_iff m by auto
qed


lemma search_close:
  assumes inv: "search_inv V E rt pd rm k S ((v, True) # P) num D" and v: "rm v = []" "pd v = None"
    and V: "finite V" "0 < k"
  defines "S' \<equiv> takeWhile (\<lambda>x. num x < num v) S" and "C \<equiv> set (component_of num S v)"
  shows "search_inv V E (\<lambda>x. if x \<in> C then Some k else rt x) pd rm (k - 1) S' P num (D \<union> C)"
    "card (active S' P) + card C = card (active S ((v, True) # P))"
proof -
  have s: "inv_sets V rt k S ((v, True) # P) num D" and r: "inv_roots E rt S ((v, True) # P) num"
    and ord: "inv_order rt pd S ((v, True) # P) num"
    and e: "inv_edges V E rt pd rm S ((v, True) # P) num D" using inv by (simp_all add: search_inv_def)
  define A where "A = active S ((v, True) # P)"
  let ?rt = "\<lambda>x. if x \<in> C then Some k else rt x"
  have C: "x \<in> C \<longleftrightarrow> x \<in> A \<and> num v \<le> num x" for x unfolding C_def A_def by (rule close_members(1) [OF inv v])
  have A': "active S' P = {x \<in> A. num x < num v}" unfolding S'_def A_def by (rule close_members(2) [OF inv v])
  have part: "A = active S' P \<union> C" "active S' P \<inter> C = {}" using A' C by (auto simp: not_le)
  have "card A = card (active S' P) + card C" unfolding part(1)
    by (rule card_Un_disjoint) (use part(2) in \<open>simp_all add: C_def\<close>)
  then show "card (active S' P) + card C = card (active S ((v, True) # P))" by (simp add: A_def)
  have bij: "bij_betw num A {1..card A}" and AV: "A \<subseteq> V" "A \<inter> D = {}" "D \<subseteq> V" using s unfolding inv_sets_def A_def by blast+
  have rt': "?rt x = rt x" if "x \<in> active S' P" for x using that part(2) by auto
  have Ssub: "set S' \<subseteq> set S" unfolding S'_def by (auto dest: set_takeWhileD)
  have Sact: "x \<in> active S' P" if "x \<in> set S'" for x using that by (simp add: active_def)
  have Pact: "x \<in> active S' P" if "x \<in> fst ` set P" for x using that by (simp add: active_def)
  have s': "inv_sets V ?rt (k - 1) S' P num (D \<union> C)"
  proof -
    have img: "num ` active S' P = {1..num v - 1}"
    proof -
      have all: "num ` A = {1..card A}" using bij by (simp add: bij_betw_def)
      have "num v \<in> num ` A" unfolding A_def by simp
      then have "num v \<le> card A" unfolding all by simp
      moreover have "num ` active S' P = num ` A \<inter> {..<num v}" unfolding A' by auto
      ultimately show ?thesis unfolding all by auto
    qed
    have inj: "inj_on num (active S' P)" unfolding A' using bij by (auto simp: bij_betw_def inj_on_def)
    have "card (active S' P) = num v - 1" using card_image [OF inj] img by simp
    then have "bij_betw num (active S' P) {1..card (active S' P)}" using inj img by (simp add: bij_betw_def)
    moreover have "distinct (S' @ map fst P)"
      using s Ssub unfolding inv_sets_def S'_def by auto
    moreover have "D \<union> C \<subseteq> V" "active S' P \<subseteq> V" "active S' P \<inter> (D \<union> C) = {}" using AV part by auto
    moreover have "\<forall>x \<in> V. ?rt x = None \<longleftrightarrow> x \<notin> active S' P \<union> (D \<union> C)" using s part by (auto simp: inv_sets_def A_def [symmetric] simp del: active_Cons)
    moreover have "\<forall>x \<in> D \<union> C. k - 1 < the (?rt x)" using s V(2) by (auto simp: inv_sets_def)
    moreover have "2 ^ 64 - 1 \<le> k - 1 + card (D \<union> C)"
    proof -
      have "v \<in> C" using C by (simp add: A_def)
      then have "1 \<le> card C" by (auto simp: C_def Suc_le_eq card_gt_0_iff)
      moreover have "card (D \<union> C) = card D + card C"
        using AV part V(1) by (intro card_Un_disjoint) (auto intro: finite_subset simp: C_def)
      moreover have "2 ^ 64 - 1 \<le> k + card D" using s unfolding inv_sets_def by blast
      ultimately show ?thesis using V(2) by linarith
    qed
    ultimately show ?thesis unfolding inv_sets_def by blast
  qed
  have r': "inv_roots E ?rt S' P num"
  proof -
    have 1: "the (?rt x) \<le> num x \<and> (\<exists>y \<in> active S' P. num y = the (?rt x) \<and> (x, y) \<in> E\<^sup>*)" if x: "x \<in> active S' P" for x
    proof -
      have xA: "x \<in> A" "num x < num v" using x unfolding A' by simp_all
      then obtain y where y: "y \<in> A" "num y = the (rt x)" "(x, y) \<in> E\<^sup>*" "the (rt x) \<le> num x"
        using r unfolding inv_roots_def A_def by blast
      then have "y \<in> active S' P" unfolding A' using xA by simp
      then show ?thesis using y rt' [OF x] by auto
    qed
    have 2: "the (?rt x) < num x" if "x \<in> set S'" for x
      using rt' [OF Sact [OF that]] r that Ssub by (auto simp: inv_roots_def)
    have 3: "f \<longleftrightarrow> the (?rt u) = num u" if "(u, f) \<in> set P" for u f
    proof -
      have "u \<in> fst ` set P" using that by force
      then have "?rt u = rt u" by (intro rt' Pact)
      then show ?thesis using r that unfolding inv_roots_def by auto
    qed
    have 4: "(u, y) \<in> E\<^sup>*" if "u \<in> fst ` set P" "y \<in> active S' P" "num u \<le> num y" for u y
      using r that part(1) unfolding inv_roots_def A_def [symmetric] by auto
    show ?thesis unfolding inv_roots_def by (intro conjI) (use 1 2 3 4 in blast)+
  qed
  have ord': "inv_order ?rt pd S' P num"
  proof -
    have near: "the (?rt g) \<le> the (?rt x) \<or> (\<exists>w \<in> set S'. pd g = Some w \<and> the (?rt w) \<le> the (?rt x))"
      if x: "x \<in> set S'" and g: "nearest num P x g" for x g
    proof -
      have xv: "num x < num v" "x \<in> set S" using Sact [OF x] Ssub x unfolding A' by auto
      then have "nearest num ((v, True) # P) x g" using g by (auto simp: nearest_def)
      from inv_order_nearest [OF ord xv(2) this] have *: "the (rt g) \<le> the (rt x) \<or> (\<exists>w \<in> set S. pd g = Some w)" by blast
      have gP: "g \<in> fst ` set P" using g by (simp add: nearest_def)
      have "linked pd ((v, True) # P)" using ord by (simp add: inv_order_def)
      from linked_pending [OF this gP] obtain q where q: "q \<in> set ((v, True) # P)" "pd g = Some (fst q)" by blast
      have "fst q \<notin> set S" using s q(1) unfolding inv_sets_def by auto
      then have "the (rt g) \<le> the (rt x)" using * q(2) by auto
      then show ?thesis using rt' [OF Sact [OF x]] rt' [OF Pact [OF gP]] by simp
    qed
    have "sorted_wrt (\<lambda>x y. \<forall>g \<in> fst ` set ((v, True) # P). num g < num x \<longrightarrow> num g < num y) (S' @ dropWhile (\<lambda>x. num x < num v) S)"
      using ord by (simp add: inv_order_def S'_def)
    then have "sorted_wrt (\<lambda>x y. \<forall>g \<in> fst ` set ((v, True) # P). num g < num x \<longrightarrow> num g < num y) S'"
      unfolding sorted_wrt_append by blast
    then have "sorted_wrt (\<lambda>x y. \<forall>g \<in> fst ` set P. num g < num x \<longrightarrow> num g < num y) S'"
      by (rule sorted_wrt_mono_rel [rotated]) auto
    moreover have "linked pd P" using ord linked_Cons by (auto simp: inv_order_def)
    moreover have "sorted_wrt (\<lambda>p q. num (fst q) < num (fst p)) P" using ord by (simp add: inv_order_def)
    ultimately show ?thesis unfolding inv_order_def using near by blast
  qed
  have e': "inv_edges V E ?rt pd rm S' P num (D \<union> C)"
  proof -
    have 1: "y \<in> D \<union> C" if "x \<in> D \<union> C" "(x, y) \<in> E" for x y
      using that e close_edges [OF inv v, of x y] unfolding inv_edges_def C_def by blast
    have 2: "rm x = [] \<and> pd x = None" if "x \<in> set S'" for x using e that Ssub by (auto simp: inv_edges_def)
    have 3: "y \<in> set (rm x) \<or> pd x = Some y \<or> y \<in> D \<union> C \<or> y \<in> active S' P \<and> the (?rt x) \<le> num y"
      if x: "x \<in> active S' P" "(x, y) \<in> E" for x y
    proof -
      have "x \<in> A" using x(1) part(1) by blast
      from inv_edges_active [OF e this [unfolded A_def] x(2)] show ?thesis unfolding A_def [symmetric] using part(1) rt' [OF x(1)] by auto
    qed
    have 4: "pd x = None \<and> (\<forall>y. (x, y) \<in> E \<longrightarrow> y \<in> set (rm x))" if "x \<in> V - active S' P - (D \<union> C)" for x
      using e that part(1) unfolding inv_edges_def A_def [symmetric] by blast
    have 5: "(\<forall>y \<in> set (rm x). (x, y) \<in> E) \<and> (\<forall>w. pd x = Some w \<longrightarrow> (x, w) \<in> E)" if "x \<in> V" for x
      using e that unfolding inv_edges_def by blast
    show ?thesis unfolding inv_edges_def by (intro conjI allI impI ballI) (use 1 2 3 4 5 in blast)+
  qed
  show "search_inv V E ?rt pd rm (k - 1) S' P num (D \<union> C)" using s' r' ord' e' by (simp add: search_inv_def)
qed

text \<open>The treatment of a visited neighbour: take over its root if that is smaller, then drop it.\<close>

lemma search_lowered:
  assumes inv: "search_inv V E rt pd rm k S ((v, f) # P) num D" and V: "finite V" "card V < 2 ^ 63 - 1"
    and w: "(v, w) \<in> E" "w \<in> V" "rt w \<noteq> None"
  defines "b \<equiv> the (rt w) < the (rt v)"
  defines "rt' \<equiv> rt(v := if b then rt w else rt v)"
  shows "search_inv V E rt' pd rm k S ((v, f \<and> \<not> b) # P) num D"
    "w \<in> D \<or> w \<in> active S ((v, f \<and> \<not> b) # P) \<and> the (rt' v) \<le> num w" "w \<in> set S \<Longrightarrow> the (rt' v) \<le> the (rt' w)"
proof -
  have wc: "w \<in> active S ((v, f) # P) \<or> w \<in> D" using search_visited [OF inv w(2)] w(3) by blast
  note bound = search_root_bound [OF inv V(1)]
  have nb: "w \<notin> D" if b
  proof
    assume "w \<in> D"
    then have "k < the (rt w)" by (rule search_done_root [OF inv])
    moreover have "the (rt v) \<le> card V" using bound(1,3) [OF search_top(5) [OF inv]] by simp
    ultimately show False using that search_scc_index [OF inv V] unfolding b_def by simp
  qed
  show "search_inv V E rt' pd rm k S ((v, f \<and> \<not> b) # P) num D"
  proof (cases b)
    case True
    then show ?thesis using search_lower [OF inv _ w(1)] wc nb by (auto simp: rt'_def b_def)
  qed (use inv in \<open>simp add: rt'_def\<close>)
  have le: "the (rt' v) \<le> the (rt w)" by (auto simp: rt'_def b_def)
  show "w \<in> D \<or> w \<in> active S ((v, f \<and> \<not> b) # P) \<and> the (rt' v) \<le> num w"
    using wc le bound(1) [of w] by fastforce
  show "the (rt' v) \<le> the (rt' w)" if "w \<in> set S"
    using le that search_top(1) [OF inv] by (auto simp: rt'_def)
qed

lemma search_seen_neighbor:
  assumes inv: "search_inv V E rt pd rm k S ((v, f) # P) num D" and V: "finite V" "card V < 2 ^ 63 - 1"
    and w: "w \<in> V" "rt w \<noteq> None" "rm v = w # ws"
  defines "b \<equiv> the (rt w) < the (rt v)"
  shows "search_inv V E (rt(v := if b then rt w else rt v)) pd (rm(v := ws)) k S ((v, f \<and> \<not> b) # P) num D"
proof -
  have "(v, w) \<in> E" using search_neighbor_edge [OF inv search_top(3) [OF inv]] w(3) by simp
  note l = search_lowered [OF inv V this w(1,2), folded b_def]
  show ?thesis by (rule search_drop_neighbor [OF l(1) w(3) l(2)])
qed

lemma search_seen_pending:
  assumes inv: "search_inv V E rt pd rm k S ((v, f) # P) num D" and V: "finite V" "card V < 2 ^ 63 - 1"
    and w: "w \<in> V" "rt w \<noteq> None" "pd v = Some w"
  defines "b \<equiv> the (rt w) < the (rt v)"
  shows "search_inv V E (rt(v := if b then rt w else rt v)) (pd(v := None)) rm k S ((v, f \<and> \<not> b) # P) num D"
proof -
  have "(v, w) \<in> E" by (rule search_pending_edge [OF inv search_top(3) [OF inv] w(3)])
  note l = search_lowered [OF inv V this w(1,2), folded b_def]
  show ?thesis by (rule search_drop_pending [where w = w, OF l(1) w(3) l(2)]) (use l(3) in simp_all)
qed

end
