(* ===== verification/SccCorrect.thy ===== *)
theory SccCorrect
  imports Sccs SccInvariant
begin

text \<open>
  The component iterator of \<open>Sccs\<close> keeps the invariant of \<open>SccInvariant\<close>: it visits every node, never fails an \<open>unwrap\<close>, and
  yields the strongly connected components of the graph, each before the components that lead to it.
\<close>

section \<open>Reading the state\<close>

abbreviation graph_V :: "'n Graph \<Rightarrow> 'n set" where
  "graph_V g \<equiv> set (Graph_node_list g)"

abbreviation graph_E :: "'n Graph \<Rightarrow> ('n \<times> 'n) set" where
  "graph_E g \<equiv> set (g_edges g)"

definition node_data :: "'n Graph \<Rightarrow> 'n TarjanScc \<Rightarrow> 'n \<Rightarrow> 'n NodeData" where
  "node_data g s v = the (ts_get g s v)"

definition sized :: "'n Graph \<Rightarrow> 'n TarjanScc \<Rightarrow> bool" where
  "sized g s \<longleftrightarrow> length (ts_nodes s) = length (g_nodes g)"

lemma to_index_mem:
  assumes "v \<in> graph_V g"
  obtains i where "Graph_to_index g v = Some i" "i < length (g_nodes g)"
proof -
  have "Graph_to_index g v \<noteq> None" using assms by (auto simp: Graph_to_index_def position_None Graph_node_list_def)
  then obtain i where "Graph_to_index g v = Some i" by blast
  with that show thesis using position_Some unfolding Graph_to_index_def by metis
qed

lemma to_index_inj: "Graph_to_index g v = Some i \<Longrightarrow> Graph_to_index g w = Some i \<Longrightarrow> v = w"
  unfolding Graph_to_index_def by (auto dest!: position_Some)

lemma ts_get_eq: "sized g s \<Longrightarrow> v \<in> graph_V g \<Longrightarrow> ts_get g s v = Some (node_data g s v)"
  by (erule to_index_mem) (simp add: node_data_def ts_get_def sized_def)

lemma ts_put_eq:
  assumes "sized g s" "v \<in> graph_V g"
  obtains ns where "ts_put g s v d = Some (s\<lparr>ts_nodes := ns\<rparr>)" "sized g (s\<lparr>ts_nodes := ns\<rparr>)"
    "node_data g (s\<lparr>ts_nodes := ns\<rparr>) = (node_data g s)(v := d)"
proof -
  obtain i where i: "Graph_to_index g v = Some i" "i < length (g_nodes g)" using to_index_mem [OF assms(2)] .
  let ?s = "s\<lparr>ts_nodes := (ts_nodes s)[i := d]\<rparr>"
  have "node_data g ?s w = ((node_data g s)(v := d)) w" for w
  proof (cases "w = v")
    case False
    then have "Graph_to_index g w \<noteq> Some i" using to_index_inj i(1) by metis
    then show ?thesis using False by (auto simp: node_data_def ts_get_def split: option.splits)
  qed (use i assms(1) in \<open>simp add: node_data_def ts_get_def sized_def\<close>)
  with i assms(1) show thesis by (intro that [of "(ts_nodes s)[i := d]"]) (auto simp: ts_put_def sized_def)
qed

lemma node_data_cong:
  assumes "ts_nodes s' = ts_nodes s"
  shows "node_data g s' = node_data g s"
  unfolding fun_eq_iff node_data_def ts_get_def assms by (rule allI, rule refl)

lemma node_data_more [simp]:
  "node_data g (s\<lparr>ts_dfs_index := a\<rparr>) = node_data g s" "node_data g (s\<lparr>ts_stack := b\<rparr>) = node_data g s"
  "node_data g (s\<lparr>ts_visitation_stack := c\<rparr>) = node_data g s" "node_data g (s\<lparr>ts_scc_start := d\<rparr>) = node_data g s"
  "node_data g (s\<lparr>ts_scc_len := d\<rparr>) = node_data g s" "node_data g (s\<lparr>ts_scc_index := a\<rparr>) = node_data g s"
  "node_data g (s\<lparr>ts_unchecked_nodes := e\<rparr>) = node_data g s"
  by (rule node_data_cong, simp)+

lemma sized_more [simp]:
  "sized g (s\<lparr>ts_dfs_index := a\<rparr>) = sized g s" "sized g (s\<lparr>ts_stack := b\<rparr>) = sized g s"
  "sized g (s\<lparr>ts_visitation_stack := c\<rparr>) = sized g s" "sized g (s\<lparr>ts_scc_start := d\<rparr>) = sized g s"
  "sized g (s\<lparr>ts_scc_len := d\<rparr>) = sized g s" "sized g (s\<lparr>ts_scc_index := a\<rparr>) = sized g s"
  "sized g (s\<lparr>ts_unchecked_nodes := e\<rparr>) = sized g s"
  by (simp_all add: sized_def)

text \<open>The invariant of a state whose search path is \<open>P\<close>.\<close>

definition scc_inv :: "'n Graph \<Rightarrow> 'n TarjanScc \<Rightarrow> ('n \<times> bool) list \<Rightarrow> ('n \<Rightarrow> nat) \<Rightarrow> 'n set \<Rightarrow> bool" where
  "scc_inv g s P num D \<longleftrightarrow> sized g s \<and>
     search_inv (graph_V g) (graph_E g) (\<lambda>v. nd_root (node_data g s v)) (\<lambda>v. nd_pending (node_data g s v))
       (\<lambda>v. nd_neighbors (node_data g s v)) (ts_scc_index s) (ts_stack s) P num D \<and>
     ts_dfs_index s = card (active (ts_stack s) P) + 1"

definition scc_graph :: "'n Graph \<Rightarrow> bool" where
  "scc_graph g \<longleftrightarrow> digraph_wf g \<and> Graph_node_count g < 2 ^ 63 - 1"

lemma scc_graph_card: "scc_graph g \<Longrightarrow> card (graph_V g) < 2 ^ 63 - 1"
  using card_length [of "Graph_node_list g"] by (simp add: scc_graph_def Graph_node_count_def Graph_node_list_def)

lemma scc_graph_edge: "scc_graph g \<Longrightarrow> (a, b) \<in> graph_E g \<Longrightarrow> a \<in> graph_V g \<and> b \<in> graph_V g"
  using node_of_edge by (auto simp: scc_graph_def)

lemma upd_eta:
  "(\<lambda>u. nd_root ((f(v := d)) u)) = (\<lambda>u. nd_root (f u))(v := nd_root d)"
  "(\<lambda>u. nd_pending ((f(v := d)) u)) = (\<lambda>u. nd_pending (f u))(v := nd_pending d)"
  "(\<lambda>u. nd_neighbors ((f(v := d)) u)) = (\<lambda>u. nd_neighbors (f u))(v := nd_neighbors d)"
  by auto

lemma upd_same: "h v = x \<Longrightarrow> h(v := x) = h"
  by auto

section \<open>Visiting neighbours\<close>

lemma scc_inv_search:
  "scc_inv g s P num D \<Longrightarrow> search_inv (graph_V g) (graph_E g) (\<lambda>v. nd_root (node_data g s v)) (\<lambda>v. nd_pending (node_data g s v))
     (\<lambda>v. nd_neighbors (node_data g s v)) (ts_scc_index s) (ts_stack s) P num D"
  by (simp add: scc_inv_def)

lemma lower_root_eq:
  assumes "sized g s" "v \<in> graph_V g" "w \<in> graph_V g" "nd_root (node_data g s v) = Some a" "nd_root (node_data g s w) = Some c"
  obtains ns where "lower_root g v w lr s = Some (lr \<and> \<not> c < a, s\<lparr>ts_nodes := ns\<rparr>)" "sized g (s\<lparr>ts_nodes := ns\<rparr>)"
    "node_data g (s\<lparr>ts_nodes := ns\<rparr>) = (node_data g s)(v := node_data g s v\<lparr>nd_root := if c < a then Some c else Some a\<rparr>)"
proof (cases "c < a")
  case True
  obtain ns where ns: "ts_put g s v (node_data g s v\<lparr>nd_root := Some c\<rparr>) = Some (s\<lparr>ts_nodes := ns\<rparr>)" "sized g (s\<lparr>ts_nodes := ns\<rparr>)"
    "node_data g (s\<lparr>ts_nodes := ns\<rparr>) = (node_data g s)(v := node_data g s v\<lparr>nd_root := Some c\<rparr>)"
    using ts_put_eq [OF assms(1,2)] .
  show thesis using ns True assms by (intro that [of ns]) (simp_all add: lower_root_def ts_get_eq)
next
  case False
  have "(node_data g s)(v := node_data g s v\<lparr>nd_root := Some a\<rparr>) = node_data g s"
    by (rule upd_same) (simp add: assms(4) [symmetric])
  then show thesis using False assms by (intro that [of "ts_nodes s"]) (simp_all add: lower_root_def ts_get_eq)
qed

definition ready :: "'n Graph \<Rightarrow> 'n TarjanScc \<Rightarrow> 'n \<Rightarrow> bool \<Rightarrow> ('n \<times> bool) list \<Rightarrow> ('n \<Rightarrow> nat) \<Rightarrow> 'n set \<Rightarrow> bool" where
  "ready g s v lr P num D \<longleftrightarrow> scc_inv g s ((v, lr) # P) num D \<and> nd_pending (node_data g s v) = None \<and> ts_visitation_stack s = P"

lemma visit_seen_neighbor:
  assumes g: "scc_graph g" and r: "ready g s v lr P num D" and w: "nd_neighbors (node_data g s v) = w # ws"
    "nd_root (node_data g s w) \<noteq> None"
  obtains lr' ns where "visit_neighbors g v lr (w # ws) s = visit_neighbors g v lr' ws (s\<lparr>ts_nodes := ns\<rparr>)"
    "ready g (s\<lparr>ts_nodes := ns\<rparr>) v lr' P num D" "nd_neighbors (node_data g (s\<lparr>ts_nodes := ns\<rparr>) v) = ws"
proof -
  let ?d = "node_data g s"
  have inv: "scc_inv g s ((v, lr) # P) num D" and pd: "nd_pending (?d v) = None" "ts_visitation_stack s = P"
    using r by (simp_all add: ready_def)
  note si = scc_inv_search [OF inv]
  have v: "v \<in> graph_V g" by (rule search_top(3) [OF si])
  have wV: "w \<in> graph_V g" using scc_graph_edge [OF g search_neighbor_edge [OF si v]] w(1) by simp
  have sz: "sized g s" using inv by (simp add: scc_inv_def)
  obtain a where a: "nd_root (?d v) = Some a" using search_root_bound(4) [OF si _ search_top(5) [OF si]] by auto
  obtain c where c: "nd_root (?d w) = Some c" using w(2) by blast
  obtain ns1 where n1: "ts_put g s v (?d v\<lparr>nd_neighbors := ws\<rparr>) = Some (s\<lparr>ts_nodes := ns1\<rparr>)" "sized g (s\<lparr>ts_nodes := ns1\<rparr>)"
    "node_data g (s\<lparr>ts_nodes := ns1\<rparr>) = (?d)(v := ?d v\<lparr>nd_neighbors := ws\<rparr>)" using ts_put_eq [OF sz v] .
  have r1: "nd_root (node_data g (s\<lparr>ts_nodes := ns1\<rparr>) v) = Some a" "nd_root (node_data g (s\<lparr>ts_nodes := ns1\<rparr>) w) = Some c"
    using a c by (auto simp: n1(3))
  obtain ns where n2: "lower_root g v w lr (s\<lparr>ts_nodes := ns1\<rparr>) = Some (lr \<and> \<not> c < a, s\<lparr>ts_nodes := ns\<rparr>)" "sized g (s\<lparr>ts_nodes := ns\<rparr>)"
    "node_data g (s\<lparr>ts_nodes := ns\<rparr>) = (?d)(v := ?d v\<lparr>nd_neighbors := ws, nd_root := if c < a then Some c else Some a\<rparr>)"
    using lower_root_eq [OF n1(2) v wV r1, where lr = lr] by (auto simp: n1(3))
  have "search_inv (graph_V g) (graph_E g) ((\<lambda>u. nd_root (?d u))(v := if c < a then Some c else Some a))
      (\<lambda>u. nd_pending (?d u)) ((\<lambda>u. nd_neighbors (?d u))(v := ws)) (ts_scc_index s) (ts_stack s) ((v, lr \<and> \<not> c < a) # P) num D"
    using search_seen_neighbor [OF si _ scc_graph_card [OF g] wV w(2,1)] by (simp only: a c option.sel finite_set)
  then have "scc_inv g (s\<lparr>ts_nodes := ns\<rparr>) ((v, lr \<and> \<not> c < a) # P) num D"
    using inv n2(2) unfolding scc_inv_def n2(3) upd_eta by (simp add: upd_same)
  then have "ready g (s\<lparr>ts_nodes := ns\<rparr>) v (lr \<and> \<not> c < a) P num D" using pd by (simp add: ready_def n2(3))
  moreover have "visit_neighbors g v lr (w # ws) s = visit_neighbors g v (lr \<and> \<not> c < a) ws (s\<lparr>ts_nodes := ns\<rparr>)"
    using n1(1,2) n2(1) sz v wV r1(2) by (simp add: ts_get_eq)
  ultimately show thesis using that n2(3) by simp
qed


text \<open>An unvisited node on top of the visitation stack, or a node whose pending neighbour has been finished.\<close>

definition fresh_top :: "'n Graph \<Rightarrow> 'n TarjanScc \<Rightarrow> ('n \<times> bool) list \<Rightarrow> 'n \<Rightarrow> bool" where
  "fresh_top g s P w \<longleftrightarrow> w \<in> graph_V g \<and> nd_root (node_data g s w) = None \<and>
     (\<forall>t f Q. P = (t, f) # Q \<longrightarrow> nd_pending (node_data g s t) = Some w)"

definition resumable :: "'n Graph \<Rightarrow> 'n TarjanScc \<Rightarrow> ('n \<times> bool) list \<Rightarrow> 'n set \<Rightarrow> bool" where
  "resumable g s P D \<longleftrightarrow>
     (\<forall>t f Q. P = (t, f) # Q \<longrightarrow> (\<exists>w. nd_pending (node_data g s t) = Some w \<and> w \<in> set (ts_stack s) \<union> D))"

lemma visit_new_neighbor:
  assumes r: "ready g s v lr P num D" and w: "nd_neighbors (node_data g s v) = w # ws" "nd_root (node_data g s w) = None" "w \<in> graph_V g"
  obtains ns where "visit_neighbors g v lr (w # ws) s = Some (None, s\<lparr>ts_nodes := ns, ts_visitation_stack := (w, True) # (v, lr) # P\<rparr>)"
    "scc_inv g (s\<lparr>ts_nodes := ns\<rparr>) ((v, lr) # P) num D" "fresh_top g (s\<lparr>ts_nodes := ns\<rparr>) ((v, lr) # P) w"
proof -
  let ?d = "node_data g s"
  have inv: "scc_inv g s ((v, lr) # P) num D" and pd: "nd_pending (?d v) = None" "ts_visitation_stack s = P"
    using r by (simp_all add: ready_def)
  note si = scc_inv_search [OF inv]
  have v: "v \<in> graph_V g" by (rule search_top(3) [OF si])
  have sz: "sized g s" using inv by (simp add: scc_inv_def)
  have vw: "v \<noteq> w" using w(2) search_root_bound(4) [OF si _ search_top(5) [OF si]] by auto
  obtain ns1 where n1: "ts_put g s v (?d v\<lparr>nd_neighbors := ws\<rparr>) = Some (s\<lparr>ts_nodes := ns1\<rparr>)" "sized g (s\<lparr>ts_nodes := ns1\<rparr>)"
    "node_data g (s\<lparr>ts_nodes := ns1\<rparr>) = (?d)(v := ?d v\<lparr>nd_neighbors := ws\<rparr>)" using ts_put_eq [OF sz v] .
  obtain ns where "ts_put g (s\<lparr>ts_nodes := ns1\<rparr>) v (?d v\<lparr>nd_neighbors := ws, nd_pending := Some w\<rparr>) = Some (s\<lparr>ts_nodes := ns1\<rparr>\<lparr>ts_nodes := ns\<rparr>)"
    "sized g (s\<lparr>ts_nodes := ns1\<rparr>\<lparr>ts_nodes := ns\<rparr>)"
    "node_data g (s\<lparr>ts_nodes := ns1\<rparr>\<lparr>ts_nodes := ns\<rparr>) = (node_data g (s\<lparr>ts_nodes := ns1\<rparr>))(v := ?d v\<lparr>nd_neighbors := ws, nd_pending := Some w\<rparr>)"
    using ts_put_eq [OF n1(2) v] .
  then have n2: "ts_put g (s\<lparr>ts_nodes := ns1\<rparr>) v (?d v\<lparr>nd_neighbors := ws, nd_pending := Some w\<rparr>) = Some (s\<lparr>ts_nodes := ns\<rparr>)"
    "sized g (s\<lparr>ts_nodes := ns\<rparr>)" "node_data g (s\<lparr>ts_nodes := ns\<rparr>) = (?d)(v := ?d v\<lparr>nd_neighbors := ws, nd_pending := Some w\<rparr>)"
    by (simp_all add: n1(3))
  have "visit_neighbors g v lr (w # ws) s = Some (None, s\<lparr>ts_nodes := ns, ts_visitation_stack := (w, True) # (v, lr) # P\<rparr>)"
    using n1 n2(1) vw w sz v pd by (simp add: ts_get_eq)
  moreover have "scc_inv g (s\<lparr>ts_nodes := ns\<rparr>) ((v, lr) # P) num D"
    using inv n2(2) search_push [OF si w(1) pd(1)] unfolding scc_inv_def n2(3) upd_eta by (simp add: upd_same)
  moreover have "fresh_top g (s\<lparr>ts_nodes := ns\<rparr>) ((v, lr) # P) w" using w vw by (simp add: fresh_top_def n2(3))
  ultimately show thesis by (rule that)
qed

lemma visit_neighbors_inv:
  assumes g: "scc_graph g" and r: "ready g s v lr P num D" and ws: "nd_neighbors (node_data g s v) = ws"
  shows "(\<exists>ns lr' w. visit_neighbors g v lr ws s = Some (None, s\<lparr>ts_nodes := ns, ts_visitation_stack := (w, True) # (v, lr') # P\<rparr>) \<and>
      scc_inv g (s\<lparr>ts_nodes := ns\<rparr>) ((v, lr') # P) num D \<and> fresh_top g (s\<lparr>ts_nodes := ns\<rparr>) ((v, lr') # P) w) \<or>
    (\<exists>ns lr'. visit_neighbors g v lr ws s = Some (Some lr', s\<lparr>ts_nodes := ns\<rparr>) \<and> ready g (s\<lparr>ts_nodes := ns\<rparr>) v lr' P num D \<and>
      nd_neighbors (node_data g (s\<lparr>ts_nodes := ns\<rparr>) v) = [])"
  using r ws
proof (induction ws arbitrary: s lr)
  case Nil
  then show ?case by (intro disjI2 exI [of _ "ts_nodes s"] exI [of _ lr]) simp
next
  case (Cons w ws)
  have inv: "scc_inv g s ((v, lr) # P) num D" using Cons.prems by (simp add: ready_def)
  note si = scc_inv_search [OF inv]
  have "(v, w) \<in> graph_E g" using search_neighbor_edge [OF si search_top(3) [OF si]] Cons.prems(2) by simp
  then have wV: "w \<in> graph_V g" using scc_graph_edge [OF g] by blast
  show ?case
  proof (cases "nd_root (node_data g s w) = None")
    case True
    obtain ns where "visit_neighbors g v lr (w # ws) s = Some (None, s\<lparr>ts_nodes := ns, ts_visitation_stack := (w, True) # (v, lr) # P\<rparr>)"
      "scc_inv g (s\<lparr>ts_nodes := ns\<rparr>) ((v, lr) # P) num D" "fresh_top g (s\<lparr>ts_nodes := ns\<rparr>) ((v, lr) # P) w"
      using visit_new_neighbor [OF Cons.prems True wV] .
    then show ?thesis by blast
  next
    case False
    obtain lr' ns where n: "visit_neighbors g v lr (w # ws) s = visit_neighbors g v lr' ws (s\<lparr>ts_nodes := ns\<rparr>)"
      "ready g (s\<lparr>ts_nodes := ns\<rparr>) v lr' P num D" "nd_neighbors (node_data g (s\<lparr>ts_nodes := ns\<rparr>) v) = ws"
      using visit_seen_neighbor [OF g Cons.prems False] .
    from Cons.IH [OF n(2,3)] show ?thesis unfolding n(1) by simp
  qed
qed

section \<open>Entering and leaving a node\<close>

lemma take_pending_None:
  assumes "sized g s" "v \<in> graph_V g" "nd_pending (node_data g s v) = None"
  obtains ns where "take_pending g v lr s = Some (lr, s\<lparr>ts_nodes := ns\<rparr>)" "sized g (s\<lparr>ts_nodes := ns\<rparr>)"
    "node_data g (s\<lparr>ts_nodes := ns\<rparr>) = node_data g s"
proof -
  obtain ns where ns: "ts_put g s v (node_data g s v\<lparr>nd_pending := None\<rparr>) = Some (s\<lparr>ts_nodes := ns\<rparr>)" "sized g (s\<lparr>ts_nodes := ns\<rparr>)"
    "node_data g (s\<lparr>ts_nodes := ns\<rparr>) = (node_data g s)(v := node_data g s v\<lparr>nd_pending := None\<rparr>)" using ts_put_eq [OF assms(1,2)] .
  have "(node_data g s)(v := node_data g s v\<lparr>nd_pending := None\<rparr>) = node_data g s"
    by (rule upd_same) (simp add: assms(3) [symmetric])
  with ns assms show thesis by (intro that [of ns]) (simp_all add: take_pending_def ts_get_eq)
qed

lemma enter_fresh:
  assumes g: "scc_graph g" and inv: "scc_inv g s P num D" and f: "fresh_top g s P v" and P: "ts_visitation_stack s = P"
  obtains s1 ns i num' where "enter_node g v s = Some s1" "take_pending g v True s1 = Some (True, s\<lparr>ts_nodes := ns, ts_dfs_index := i\<rparr>)"
    "ready g (s\<lparr>ts_nodes := ns, ts_dfs_index := i\<rparr>) v True P num' D"
proof -
  let ?d = "node_data g s"
  note si = scc_inv_search [OF inv]
  have v: "v \<in> graph_V g" "nd_root (?d v) = None" and sz: "sized g s" and dfs: "ts_dfs_index s = card (active (ts_stack s) P) + 1"
    using f inv by (simp_all add: fresh_top_def scc_inv_def)
  have pd: "nd_pending (?d v) = None" by (rule search_unvisited_pending [OF si v])
  let ?n = "card (active (ts_stack s) P) + 1"
  obtain ns1 where n1: "ts_put g s v (?d v\<lparr>nd_root := Some ?n\<rparr>) = Some (s\<lparr>ts_nodes := ns1\<rparr>)" "sized g (s\<lparr>ts_nodes := ns1\<rparr>)"
    "node_data g (s\<lparr>ts_nodes := ns1\<rparr>) = (?d)(v := ?d v\<lparr>nd_root := Some ?n\<rparr>)" using ts_put_eq [OF sz v(1)] .
  let ?s1 = "s\<lparr>ts_nodes := ns1, ts_dfs_index := ?n + 1\<rparr>"
  have e: "enter_node g v s = Some ?s1"
    using n1(1) v sz dfs by (simp add: enter_node_def ts_get_eq NonZeroUsize_new_def)
  have "sized g ?s1" "nd_pending (node_data g ?s1 v) = None" using n1(2,3) pd by simp_all
  then obtain ns where n2: "take_pending g v True ?s1 = Some (True, ?s1\<lparr>ts_nodes := ns\<rparr>)" "sized g (?s1\<lparr>ts_nodes := ns\<rparr>)"
    "node_data g (?s1\<lparr>ts_nodes := ns\<rparr>) = node_data g ?s1" using take_pending_None v(1) by metis
  let ?s2 = "s\<lparr>ts_nodes := ns, ts_dfs_index := ?n + 1\<rparr>"
  have s2: "?s1\<lparr>ts_nodes := ns\<rparr> = ?s2" by simp
  have d2: "node_data g ?s2 = (?d)(v := ?d v\<lparr>nd_root := Some ?n\<rparr>)" using n2(3) n1(3) unfolding s2 by simp
  have top: "nd_pending (?d t) = Some v \<and> (t, v) \<in> graph_E g" if "P = (t, b) # Q" for t b Q
  proof -
    have "nd_pending (?d t) = Some v" using f that by (simp add: fresh_top_def)
    moreover have "t \<in> graph_V g" using si that by (auto dest: search_top(3))
    ultimately show ?thesis using search_pending_edge [OF si] by blast
  qed
  have "v \<notin> active (ts_stack s) P" using search_visited [OF si v(1)] v(2) by blast
  then have "scc_inv g ?s2 ((v, True) # P) (num(v := ?n)) D"
    using n2(2) search_enter [OF si v top] unfolding scc_inv_def d2 upd_eta s2 by (simp add: upd_same)
  then have "ready g ?s2 v True P (num(v := ?n)) D" using pd P unfolding ready_def d2 by simp
  with e n2(1) show thesis unfolding s2 by (intro that [of ?s1 "?n + 1" ns "num(v := ?n)"]) auto
qed

lemma enter_resumed:
  assumes g: "scc_graph g" and inv: "scc_inv g s ((v, lr) # P) num D" and r: "resumable g s ((v, lr) # P) D" and P: "ts_visitation_stack s = P"
  obtains ns lr' where "enter_node g v s = Some s" "take_pending g v lr s = Some (lr', s\<lparr>ts_nodes := ns\<rparr>)"
    "ready g (s\<lparr>ts_nodes := ns\<rparr>) v lr' P num D"
proof -
  let ?d = "node_data g s"
  note si = scc_inv_search [OF inv]
  have v: "v \<in> graph_V g" by (rule search_top(3) [OF si])
  have sz: "sized g s" using inv by (simp add: scc_inv_def)
  obtain w where w: "nd_pending (?d v) = Some w" "w \<in> set (ts_stack s) \<union> D" using r by (auto simp: resumable_def)
  have wV: "w \<in> graph_V g" using scc_graph_edge [OF g search_pending_edge [OF si v w(1)]] by simp
  obtain a where a: "nd_root (?d v) = Some a" using search_root_bound(4) [OF si _ search_top(5) [OF si]] by auto
  have "nd_root (?d w) \<noteq> None" using w(2) search_visited [OF si wV] by (auto simp: active_def)
  then obtain c where c: "nd_root (?d w) = Some c" by blast
  obtain ns1 where n1: "ts_put g s v (?d v\<lparr>nd_pending := None\<rparr>) = Some (s\<lparr>ts_nodes := ns1\<rparr>)" "sized g (s\<lparr>ts_nodes := ns1\<rparr>)"
    "node_data g (s\<lparr>ts_nodes := ns1\<rparr>) = (?d)(v := ?d v\<lparr>nd_pending := None\<rparr>)" using ts_put_eq [OF sz v] .
  have r1: "nd_root (node_data g (s\<lparr>ts_nodes := ns1\<rparr>) v) = Some a" "nd_root (node_data g (s\<lparr>ts_nodes := ns1\<rparr>) w) = Some c"
    using a c by (auto simp: n1(3))
  obtain ns where n2: "lower_root g v w lr (s\<lparr>ts_nodes := ns1\<rparr>) = Some (lr \<and> \<not> c < a, s\<lparr>ts_nodes := ns\<rparr>)" "sized g (s\<lparr>ts_nodes := ns\<rparr>)"
    "node_data g (s\<lparr>ts_nodes := ns\<rparr>) = (?d)(v := ?d v\<lparr>nd_pending := None, nd_root := if c < a then Some c else Some a\<rparr>)"
    using lower_root_eq [OF n1(2) v wV r1, where lr = lr] by (auto simp: n1(3))
  have "search_inv (graph_V g) (graph_E g) ((\<lambda>u. nd_root (?d u))(v := if c < a then Some c else Some a))
      ((\<lambda>u. nd_pending (?d u))(v := None)) (\<lambda>u. nd_neighbors (?d u)) (ts_scc_index s) (ts_stack s) ((v, lr \<and> \<not> c < a) # P) num D"
    using search_seen_pending [OF si _ scc_graph_card [OF g] wV _ w(1)] by (simp only: a c option.sel finite_set option.distinct not_False_eq_True)
  then have "scc_inv g (s\<lparr>ts_nodes := ns\<rparr>) ((v, lr \<and> \<not> c < a) # P) num D"
    using inv n2(2) unfolding scc_inv_def n2(3) upd_eta by (simp add: upd_same)
  then have "ready g (s\<lparr>ts_nodes := ns\<rparr>) v (lr \<and> \<not> c < a) P num D" using P by (simp add: ready_def n2(3))
  moreover have "enter_node g v s = Some s" using a v sz by (simp add: enter_node_def ts_get_eq)
  moreover have "take_pending g v lr s = Some (lr \<and> \<not> c < a, s\<lparr>ts_nodes := ns\<rparr>)"
    using n1(1) n2(1) w(1) v sz by (simp add: take_pending_def ts_get_eq)
  ultimately show thesis using that by blast
qed


section \<open>Closing a component\<close>

lemma scan_component_eq:
  assumes "sized g s" "v \<in> graph_V g" "set (S1 @ S2) \<subseteq> graph_V g" "distinct S2" "v \<notin> set S2"
    and "\<forall>x \<in> set S1. option_lt (nd_root (node_data g s x)) (nd_root (node_data g s v))"
    and "\<forall>x \<in> set S2. \<not> option_lt (nd_root (node_data g s x)) (nd_root (node_data g s v))"
  shows "\<exists>ns. scan_component g v i (rev (S1 @ S2)) n s = Some (length S1, n + length S2, s\<lparr>ts_nodes := ns\<rparr>) \<and>
    sized g (s\<lparr>ts_nodes := ns\<rparr>) \<and>
    node_data g (s\<lparr>ts_nodes := ns\<rparr>) = (\<lambda>x. if x \<in> set S2 then node_data g s x\<lparr>nd_root := i\<rparr> else node_data g s x)"
  using assms
proof (induction S2 arbitrary: s n rule: rev_induct)
  case Nil
  show ?case
  proof (cases S1 rule: rev_cases)
    case Nil
    then show ?thesis using \<open>sized g s\<close> by (intro exI [of _ "ts_nodes s"]) simp
  next
    case (snoc ys y)
    then show ?thesis using Nil.prems by (intro exI [of _ "ts_nodes s"]) (simp add: ts_get_eq)
  qed
next
  case (snoc x S2)
  have x: "x \<in> graph_V g" "x \<noteq> v" "x \<notin> set S2" using snoc.prems by auto
  obtain ns1 where n1: "ts_put g s x (node_data g s x\<lparr>nd_root := i\<rparr>) = Some (s\<lparr>ts_nodes := ns1\<rparr>)" "sized g (s\<lparr>ts_nodes := ns1\<rparr>)"
    "node_data g (s\<lparr>ts_nodes := ns1\<rparr>) = (node_data g s)(x := node_data g s x\<lparr>nd_root := i\<rparr>)" using ts_put_eq [OF snoc.prems(1) x(1)] .
  have xS1: "x \<notin> set S1" using snoc.prems(6,7) by auto
  have d: "node_data g (s\<lparr>ts_nodes := ns1\<rparr>) v = node_data g s v"
    "\<And>u. u \<in> set S1 \<union> set S2 \<Longrightarrow> node_data g (s\<lparr>ts_nodes := ns1\<rparr>) u = node_data g s u"
    using x(2,3) xS1 by (auto simp: n1(3))
  have hyp: "\<forall>u \<in> set S1. option_lt (nd_root (node_data g (s\<lparr>ts_nodes := ns1\<rparr>) u)) (nd_root (node_data g (s\<lparr>ts_nodes := ns1\<rparr>) v))"
    "\<forall>u \<in> set S2. \<not> option_lt (nd_root (node_data g (s\<lparr>ts_nodes := ns1\<rparr>) u)) (nd_root (node_data g (s\<lparr>ts_nodes := ns1\<rparr>) v))"
    using snoc.prems(6,7) d by simp_all
  have pre: "set (S1 @ S2) \<subseteq> graph_V g" "distinct S2" "v \<notin> set S2" using snoc.prems(3-5) by auto
  from snoc.IH [OF n1(2) snoc.prems(2) pre hyp, of "Suc n"] obtain ns where ns:
    "scan_component g v i (rev (S1 @ S2)) (Suc n) (s\<lparr>ts_nodes := ns1\<rparr>) = Some (length S1, Suc n + length S2, s\<lparr>ts_nodes := ns\<rparr>)"
    "sized g (s\<lparr>ts_nodes := ns\<rparr>)"
    "node_data g (s\<lparr>ts_nodes := ns\<rparr>) =
      (\<lambda>u. if u \<in> set S2 then node_data g (s\<lparr>ts_nodes := ns1\<rparr>) u\<lparr>nd_root := i\<rparr> else node_data g (s\<lparr>ts_nodes := ns1\<rparr>) u)"
    by auto
  have "scan_component g v i (rev (S1 @ S2 @ [x])) n s = Some (length S1, n + length (S2 @ [x]), s\<lparr>ts_nodes := ns\<rparr>)"
    using n1(1) ns(1) x snoc.prems(1,2,7) by (simp add: ts_get_eq)
  moreover have "node_data g (s\<lparr>ts_nodes := ns\<rparr>) =
      (\<lambda>u. if u \<in> set (S2 @ [x]) then node_data g s u\<lparr>nd_root := i\<rparr> else node_data g s u)"
    unfolding ns(3) n1(3) using x(3) by auto
  ultimately show ?case using ns(2) by auto
qed

text \<open>The state after the component at the top of the stack has been found and removed again.\<close>

lemma close_component_inv:
  assumes g: "scc_graph g" and r: "ready g s v True P num D" and nb: "nd_neighbors (node_data g s v) = []"
  obtains s' start where "close_component g v s = Some (start, s')" "ts_visitation_stack s' = P" "ts_unchecked_nodes s' = ts_unchecked_nodes s"
    "drop start (ts_stack s') = component_of num (ts_stack s) v"
    "scc_inv g (begin_next_scc s') P num (D \<union> set (component_of num (ts_stack s) v))"
    "active (ts_stack (begin_next_scc s')) P \<union> set (component_of num (ts_stack s) v) = active (ts_stack s) ((v, True) # P)"
    "resumable g (begin_next_scc s') P (D \<union> set (component_of num (ts_stack s) v))"
proof -
  let ?d = "node_data g s" let ?S = "ts_stack s" let ?k = "ts_scc_index s"
  have inv: "scc_inv g s ((v, True) # P) num D" and pd: "nd_pending (?d v) = None" and P: "ts_visitation_stack s = P"
    using r by (simp_all add: ready_def)
  note si = scc_inv_search [OF inv]
  have v: "v \<in> graph_V g" by (rule search_top(3) [OF si])
  have sz: "sized g s" and dfs: "ts_dfs_index s = card (active ?S ((v, True) # P)) + 1" using inv by (simp_all add: scc_inv_def)
  define S1 where "S1 = takeWhile (\<lambda>x. num x < num v) ?S"
  define S2 where "S2 = dropWhile (\<lambda>x. num x < num v) ?S"
  have S: "?S = S1 @ S2" by (simp add: S1_def S2_def)
  have C: "component_of num ?S v = S2 @ [v]" by (simp add: component_of_def S2_def)
  note split = close_split [OF si nb pd, folded S1_def S2_def]
  have k: "0 < ?k" using search_scc_index [OF si _ scc_graph_card [OF g]] by simp
  have dist: "distinct (S1 @ S2)" "set (S1 @ S2) \<subseteq> graph_V g" using si unfolding search_inv_def inv_sets_def S by (auto simp: active_def)
  have vS: "v \<notin> set S2" using search_top(1) [OF si] unfolding S by simp
  have root: "nd_root (?d x) \<noteq> None" if "x \<in> set ?S \<union> {v}" for x
    using search_root_bound(4) [OF si] that by (auto simp: active_def)
  have lt: "option_lt (nd_root (?d x)) (nd_root (?d v)) \<longleftrightarrow> the (nd_root (?d x)) < num v" if "x \<in> set ?S" for x
    using root [of x] root [of v] that split(1) by auto
  have 1: "\<forall>x \<in> set S1. option_lt (nd_root (?d x)) (nd_root (?d v))" "\<forall>x \<in> set S2. \<not> option_lt (nd_root (?d x)) (nd_root (?d v))"
    using lt split(2,3) unfolding S by fastforce+
  obtain ns1 where n1: "scan_component g v (Some ?k) (rev ?S) 1 s = Some (length S1, 1 + length S2, s\<lparr>ts_nodes := ns1\<rparr>)"
    "sized g (s\<lparr>ts_nodes := ns1\<rparr>)" "node_data g (s\<lparr>ts_nodes := ns1\<rparr>) = (\<lambda>x. if x \<in> set S2 then ?d x\<lparr>nd_root := Some ?k\<rparr> else ?d x)"
    using scan_component_eq [OF sz v dist(2) _ vS 1, of "Some ?k" 1] dist(1) unfolding S by auto
  obtain ns where n2': "ts_put g (s\<lparr>ts_nodes := ns1\<rparr>) v (?d v\<lparr>nd_root := Some ?k\<rparr>) = Some (s\<lparr>ts_nodes := ns1\<rparr>\<lparr>ts_nodes := ns\<rparr>)"
    "sized g (s\<lparr>ts_nodes := ns1\<rparr>\<lparr>ts_nodes := ns\<rparr>)"
    "node_data g (s\<lparr>ts_nodes := ns1\<rparr>\<lparr>ts_nodes := ns\<rparr>) = (node_data g (s\<lparr>ts_nodes := ns1\<rparr>))(v := ?d v\<lparr>nd_root := Some ?k\<rparr>)"
    using ts_put_eq [OF n1(2) v] .
  have d: "node_data g (s\<lparr>ts_nodes := ns\<rparr>) = (\<lambda>x. if x \<in> set (S2 @ [v]) then ?d x\<lparr>nd_root := Some ?k\<rparr> else ?d x)"
    using n2'(3) unfolding n1(3) by auto
  have sz': "sized g (s\<lparr>ts_nodes := ns\<rparr>)" using n2'(2) by simp
  let ?s' = "s\<lparr>ts_nodes := ns, ts_stack := ?S @ [v], ts_scc_start := Some (length S1), ts_scc_len := Some (1 + length S2)\<rparr>"
  have close: "close_component g v s = Some (length S1, ?s')"
    using n1 n2'(1) v vS k by (simp add: close_component_def Let_def NonZeroUsize_new_def ts_get_eq)
  have beg: "ts_stack (begin_next_scc ?s') = S1" "ts_dfs_index (begin_next_scc ?s') = ts_dfs_index s - (1 + length S2)"
    "ts_scc_index (begin_next_scc ?s') = ?k - 1" "node_data g (begin_next_scc ?s') = node_data g (s\<lparr>ts_nodes := ns\<rparr>)"
    "sized g (begin_next_scc ?s')"
    using sz' by (simp_all add: begin_next_scc_def S)
  note sc = search_close [OF si nb pd _ k, folded S1_def, unfolded C, simplified finite_set, OF TrueI]
  have card: "card (set (S2 @ [v])) = 1 + length S2" using dist(1) vS by (simp add: distinct_card)
  have eta: "(\<lambda>x. nd_root (if x \<in> A then ?d x\<lparr>nd_root := Some ?k\<rparr> else ?d x)) = (\<lambda>x. if x \<in> A then Some ?k else nd_root (?d x))"
    "(\<lambda>x. nd_pending (if x \<in> A then ?d x\<lparr>nd_root := Some ?k\<rparr> else ?d x)) = (\<lambda>x. nd_pending (?d x))"
    "(\<lambda>x. nd_neighbors (if x \<in> A then ?d x\<lparr>nd_root := Some ?k\<rparr> else ?d x)) = (\<lambda>x. nd_neighbors (?d x))" for A
    by auto
  have inv': "scc_inv g (begin_next_scc ?s') P num (D \<union> set (S2 @ [v]))"
    using sc card dfs beg(5) unfolding scc_inv_def beg(1-4) d eta by simp
  have "active S1 P \<union> set (S2 @ [v]) = active ?S ((v, True) # P)" by (auto simp: active_def S)
  moreover have "resumable g (begin_next_scc ?s') P (D \<union> set (S2 @ [v]))"
    unfolding resumable_def beg(4) d using si by (auto dest: search_linked)
  moreover have "drop (length S1) (?S @ [v]) = S2 @ [v]" by (simp add: S)
  ultimately show thesis using inv' P beg(1) by (intro that [OF close]) (simp_all only: C, simp_all)
qed


section \<open>The search as a whole\<close>

definition loop_inv :: "'n Graph \<Rightarrow> 'n TarjanScc \<Rightarrow> ('n \<Rightarrow> nat) \<Rightarrow> 'n set \<Rightarrow> bool" where
  "loop_inv g s num D \<longleftrightarrow>
     set (ts_unchecked_nodes s) \<subseteq> graph_V g \<and>
     (\<exists>P. scc_inv g s P num D \<and>
        (ts_visitation_stack s = P \<and> resumable g s P D \<or> (\<exists>w. ts_visitation_stack s = (w, True) # P \<and> fresh_top g s P w)) \<and>
        graph_V g \<subseteq> set (ts_unchecked_nodes s) \<union> active (ts_stack s) P \<union> D \<union> fst ` set (ts_visitation_stack s))"

text \<open>A component that can follow those in \<open>D\<close>: strongly connected, and its edges stay inside or lead to \<open>D\<close>.\<close>

definition new_component :: "'n set \<Rightarrow> ('n \<times> 'n) set \<Rightarrow> 'n set \<Rightarrow> 'n list \<Rightarrow> bool" where
  "new_component V E D c \<longleftrightarrow> c \<noteq> [] \<and> distinct c \<and> set c \<subseteq> V - D \<and> (\<forall>x \<in> set c. \<forall>y \<in> set c. (x, y) \<in> E\<^sup>*) \<and>
     (\<forall>x \<in> set c. \<forall>y. (x, y) \<in> E \<longrightarrow> y \<in> set c \<union> D)"

lemma scc_inv_more [simp]:
  "scc_inv g (s\<lparr>ts_visitation_stack := c\<rparr>) P num D = scc_inv g s P num D"
  "scc_inv g (s\<lparr>ts_unchecked_nodes := e\<rparr>) P num D = scc_inv g s P num D"
  "fresh_top g (s\<lparr>ts_visitation_stack := c\<rparr>) P w = fresh_top g s P w"
  "fresh_top g (s\<lparr>ts_unchecked_nodes := e\<rparr>) P w = fresh_top g s P w"
  "resumable g (s\<lparr>ts_visitation_stack := c\<rparr>) P D = resumable g s P D"
  "resumable g (s\<lparr>ts_unchecked_nodes := e\<rparr>) P D = resumable g s P D"
  by (simp_all add: scc_inv_def fresh_top_def resumable_def)

definition visit_rest :: "'n Graph \<Rightarrow> 'n \<Rightarrow> bool \<Rightarrow> 'n TarjanScc \<Rightarrow> (nat option \<times> 'n TarjanScc) option" where
  "visit_rest g v lr s = do {
     nv \<leftarrow> ts_get g s v;
     (r, s3) \<leftarrow> visit_neighbors g v lr (nd_neighbors nv) s;
     (case r of
        None \<Rightarrow> Some (None, s3)
      | Some False \<Rightarrow> Some (None, s3\<lparr>ts_stack := ts_stack s3 @ [v]\<rparr>)
      | Some True \<Rightarrow> do { (start, s4) \<leftarrow> close_component g v s3; Some (Some start, s4) })
   }"

definition visit_result :: "'n Graph \<Rightarrow> 'n set \<Rightarrow> (nat option \<times> 'n TarjanScc) option \<Rightarrow> bool" where
  "visit_result g D x \<longleftrightarrow> (\<exists>s' num'. x = Some (None, s') \<and> loop_inv g s' num' D) \<or>
     (\<exists>start s' num'. x = Some (Some start, s') \<and> new_component (graph_V g) (graph_E g) D (drop start (ts_stack s')) \<and>
        loop_inv g (begin_next_scc s') num' (D \<union> set (drop start (ts_stack s'))))"

lemma begin_next_scc_fields [simp]:
  "ts_visitation_stack (begin_next_scc s) = ts_visitation_stack s" "ts_unchecked_nodes (begin_next_scc s) = ts_unchecked_nodes s"
  by (auto simp: begin_next_scc_def split: option.splits)

lemma component_new:
  assumes "ready g s v True P num D" "nd_neighbors (node_data g s v) = []"
  shows "new_component (graph_V g) (graph_E g) D (component_of num (ts_stack s) v)"
proof -
  have inv: "scc_inv g s ((v, True) # P) num D" and pd: "nd_pending (node_data g s v) = None" using assms(1) by (simp_all add: ready_def)
  note si = scc_inv_search [OF inv]
  have sets: "active (ts_stack s) ((v, True) # P) \<subseteq> graph_V g - D" "distinct (ts_stack s)" "v \<notin> set (ts_stack s)"
    using si by (auto simp: search_inv_def inv_sets_def)
  have "distinct (component_of num (ts_stack s) v)"
    using sets(2,3) set_dropWhileD by (fastforce simp: component_of_def)
  moreover have "set (component_of num (ts_stack s) v) \<subseteq> graph_V g - D"
    using close_members(1) [OF si assms(2) pd] sets(1) by blast
  moreover have "component_of num (ts_stack s) v \<noteq> []" by (simp add: component_of_def)
  ultimately show ?thesis unfolding new_component_def
    using close_strongly_connected [OF si assms(2) pd] close_edges [OF si assms(2) pd] by blast
qed

lemma visit_rest_inv:
  assumes g: "scc_graph g" and r: "ready g s v lr P num D"
    and cover: "graph_V g \<subseteq> set (ts_unchecked_nodes s) \<union> active (ts_stack s) ((v, lr) # P) \<union> D"
    and sub: "set (ts_unchecked_nodes s) \<subseteq> graph_V g"
  shows "visit_result g D (visit_rest g v lr s)"
proof -
  have inv: "scc_inv g s ((v, lr) # P) num D" using r by (simp add: ready_def)
  have get: "ts_get g s v = Some (node_data g s v)"
    using inv search_top(3) [OF scc_inv_search [OF inv]] by (simp add: ts_get_eq scc_inv_def)
  from visit_neighbors_inv [OF g r refl] show ?thesis
  proof (elim disjE exE conjE)
    fix ns lr' w
    assume v: "visit_neighbors g v lr (nd_neighbors (node_data g s v)) s = Some (None, s\<lparr>ts_nodes := ns, ts_visitation_stack := (w, True) # (v, lr') # P\<rparr>)"
      and i: "scc_inv g (s\<lparr>ts_nodes := ns\<rparr>) ((v, lr') # P) num D" "fresh_top g (s\<lparr>ts_nodes := ns\<rparr>) ((v, lr') # P) w"
    have "loop_inv g (s\<lparr>ts_nodes := ns, ts_visitation_stack := (w, True) # (v, lr') # P\<rparr>) num D"
      unfolding loop_inv_def using i cover sub by (intro conjI exI [of _ "(v, lr') # P"]) auto
    then show ?thesis using v get by (auto simp: visit_rest_def visit_result_def)
  next
    fix ns lr'
    let ?s = "s\<lparr>ts_nodes := ns\<rparr>"
    assume v: "visit_neighbors g v lr (nd_neighbors (node_data g s v)) s = Some (Some lr', ?s)"
      and r': "ready g ?s v lr' P num D" and nb: "nd_neighbors (node_data g ?s v) = []"
    have inv': "scc_inv g ?s ((v, lr') # P) num D" and pd: "nd_pending (node_data g ?s v) = None" and P: "ts_visitation_stack ?s = P"
      using r' by (simp_all add: ready_def)
    note si = scc_inv_search [OF inv']
    show ?thesis
    proof (cases lr')
      case False
      then have lr': "lr' = False" by simp
      let ?t = "?s\<lparr>ts_stack := ts_stack ?s @ [v]\<rparr>"
      have "scc_inv g ?t P num D"
        using inv' search_leave [OF si [unfolded lr']] nb pd lr' by (simp add: scc_inv_def active_snoc)
      moreover have "resumable g ?t P D"
        unfolding resumable_def using si by (auto dest: search_linked)
      ultimately have "loop_inv g ?t num D"
        unfolding loop_inv_def using P cover sub by (intro conjI exI [of _ P]) (auto simp: active_snoc)
      then show ?thesis using v get False by (auto simp: visit_rest_def visit_result_def)
    next
      case True
      then have lr': "lr' = True" by simp
      note r1 = r' [unfolded lr']
      let ?c = "component_of num (ts_stack ?s) v"
      obtain s' start where c: "close_component g v ?s = Some (start, s')" "ts_visitation_stack s' = P" "ts_unchecked_nodes s' = ts_unchecked_nodes ?s"
        "drop start (ts_stack s') = ?c" "scc_inv g (begin_next_scc s') P num (D \<union> set ?c)"
        "active (ts_stack (begin_next_scc s')) P \<union> set ?c = active (ts_stack ?s) ((v, True) # P)"
        "resumable g (begin_next_scc s') P (D \<union> set ?c)"
        using close_component_inv [OF g r1 nb] .
      have "graph_V g \<subseteq> set (ts_unchecked_nodes s') \<union> active (ts_stack (begin_next_scc s')) P \<union> (D \<union> set ?c)"
        using cover c(6) unfolding c(3) by auto
      then have "loop_inv g (begin_next_scc s') num (D \<union> set ?c)"
        unfolding loop_inv_def using c(2,3,5,7) sub by (intro conjI exI [of _ P]) auto
      then have "visit_result g D (Some (Some start, s'))"
        unfolding visit_result_def using component_new [OF r1 nb] c(4) by auto
      moreover have "visit_rest g v lr s = Some (Some start, s')" using v get True c(1) by (simp add: visit_rest_def)
      ultimately show ?thesis by simp
    qed
  qed
qed

lemma visit_once_inv:
  assumes g: "scc_graph g" and l: "loop_inv g s num D" and vs: "ts_visitation_stack s = (v, lr) # vs"
  shows "visit_result g D (TarjanScc_visit_once g v lr (s\<lparr>ts_visitation_stack := vs\<rparr>))"
proof -
  let ?s = "s\<lparr>ts_visitation_stack := vs\<rparr>"
  have sub: "set (ts_unchecked_nodes s) \<subseteq> graph_V g" using l by (simp add: loop_inv_def)
  have once: "TarjanScc_visit_once g v lr ?s = visit_rest g v lr' s2"
    if "enter_node g v ?s = Some s1" "take_pending g v lr s1 = Some (lr', s2)" for s1 lr' s2
    using that by (simp add: TarjanScc_visit_once_def visit_rest_def)
  from l obtain P where P: "scc_inv g s P num D"
    "ts_visitation_stack s = P \<and> resumable g s P D \<or> (\<exists>w. ts_visitation_stack s = (w, True) # P \<and> fresh_top g s P w)"
    and cover: "graph_V g \<subseteq> set (ts_unchecked_nodes s) \<union> active (ts_stack s) P \<union> D \<union> fst ` set (ts_visitation_stack s)"
    unfolding loop_inv_def by blast
  from P(2) show ?thesis
  proof (elim disjE exE conjE)
    assume v: "ts_visitation_stack s = P" "resumable g s P D"
    then have P': "P = (v, lr) # vs" using vs by simp
    have i: "scc_inv g ?s ((v, lr) # vs) num D" "resumable g ?s ((v, lr) # vs) D" "ts_visitation_stack ?s = vs"
      using P(1) v(2) unfolding P' by simp_all
    obtain ns lr' where e: "enter_node g v ?s = Some ?s" "take_pending g v lr ?s = Some (lr', ?s\<lparr>ts_nodes := ns\<rparr>)"
      "ready g (?s\<lparr>ts_nodes := ns\<rparr>) v lr' vs num D" using enter_resumed [OF g i] .
    have "graph_V g \<subseteq> set (ts_unchecked_nodes s) \<union> active (ts_stack s) ((v, lr') # vs) \<union> D"
      using cover unfolding v(1) P' by (auto simp: active_def)
    then show ?thesis unfolding once [OF e(1,2)] using sub by (intro visit_rest_inv [OF g e(3)]) simp_all
  next
    fix w
    assume w: "ts_visitation_stack s = (w, True) # P" "fresh_top g s P w"
    then have eq: "w = v" "lr = True" "P = vs" using vs by auto
    have i: "scc_inv g ?s vs num D" "fresh_top g ?s vs v" "ts_visitation_stack ?s = vs" using P(1) w(2) eq by simp_all
    obtain s1 ns i num' where e: "enter_node g v ?s = Some s1" "take_pending g v True s1 = Some (True, ?s\<lparr>ts_nodes := ns, ts_dfs_index := i\<rparr>)"
      "ready g (?s\<lparr>ts_nodes := ns, ts_dfs_index := i\<rparr>) v True vs num' D" using enter_fresh [OF g i] .
    have vsa: "fst ` set vs \<subseteq> active (ts_stack s) vs" by (auto simp: active_def)
    have "graph_V g \<subseteq> set (ts_unchecked_nodes s) \<union> active (ts_stack s) ((v, True) # vs) \<union> D"
      using cover vsa unfolding w(1) eq by auto
    then have "visit_result g D (visit_rest g v True (?s\<lparr>ts_nodes := ns, ts_dfs_index := i\<rparr>))"
      using sub by (intro visit_rest_inv [OF g e(3)]) simp_all
    moreover have "take_pending g v lr s1 = Some (True, ?s\<lparr>ts_nodes := ns, ts_dfs_index := i\<rparr>)" using e(2) eq(2) by simp
    note once [OF e(1) this]
    ultimately show ?thesis by simp
  qed
qed


definition next_result :: "'n Graph \<Rightarrow> 'n set \<Rightarrow> ('n list option \<times> 'n TarjanScc) option \<Rightarrow> bool" where
  "next_result g D x \<longleftrightarrow> (\<exists>s'. x = Some (None, s') \<and> D = graph_V g) \<or>
     (\<exists>c s' num'. x = Some (Some c, s') \<and> new_component (graph_V g) (graph_E g) D c \<and>
        loop_inv g (begin_next_scc s') num' (D \<union> set c))"

lemma next_scc_loop_inv: "scc_graph g \<Longrightarrow> loop_inv g s num D \<Longrightarrow> next_result g D (next_scc_loop g s)"
proof (induction g s arbitrary: num rule: next_scc_loop.induct)
  case (1 g s)
  note g = "1.prems"(1)
  show ?case
  proof (cases "ts_visitation_stack s")
    case Nil
    with "1.prems"(2) have inv: "scc_inv g s [] num D" and cover: "graph_V g \<subseteq> set (ts_unchecked_nodes s) \<union> active (ts_stack s) [] \<union> D"
      unfolding loop_inv_def by auto
    note si = scc_inv_search [OF inv]
    have S: "ts_stack s = []" by (rule search_path_empty [OF si]) simp
    show ?thesis
    proof (cases "ts_unchecked_nodes s")
      case Nil
      have "D \<subseteq> graph_V g" using si by (simp add: search_inv_def inv_sets_def)
      then have "D = graph_V g" using cover Nil S by (auto simp: active_def)
      then show ?thesis using \<open>ts_visitation_stack s = []\<close> Nil by (simp add: next_scc_loop.simps [of g s] next_result_def)
    next
      case (Cons node nodes)
      have sz: "sized g s" using inv by (simp add: scc_inv_def)
      have node: "node \<in> graph_V g" "set nodes \<subseteq> graph_V g" using "1.prems"(2) Cons by (auto simp: loop_inv_def)
      note get = ts_get_eq [OF sz node(1)]
      let ?s = "if nd_root (node_data g s node) = None then s\<lparr>ts_unchecked_nodes := nodes, ts_visitation_stack := [(node, True)]\<rparr>
        else s\<lparr>ts_unchecked_nodes := nodes\<rparr>"
      have "loop_inv g ?s num D"
      proof (cases "nd_root (node_data g s node) = None")
        case True
        then show ?thesis unfolding loop_inv_def
          using inv cover node Cons by (auto simp: fresh_top_def intro!: exI [of _ "[]"])
      next
        case False
        then have "node \<in> D" using search_visited [OF si node(1)] S by (auto simp: active_def)
        then show ?thesis unfolding loop_inv_def
          using inv cover node Cons False Nil by (auto simp: resumable_def intro!: exI [of _ "[]"])
      qed
      from "1.IH"(1) [OF Nil Cons get g this] show ?thesis using Nil Cons get by (simp add: next_scc_loop.simps [of g s])
    qed
  next
    case (Cons x vs)
    obtain v lr where x: "x = (v, lr)" by (cases x)
    note vs = Cons [unfolded x]
    from visit_once_inv [OF g "1.prems"(2) vs] show ?thesis unfolding visit_result_def
    proof (elim disjE exE conjE)
      fix s' num'
      assume v: "TarjanScc_visit_once g v lr (s\<lparr>ts_visitation_stack := vs\<rparr>) = Some (None, s')" and l: "loop_inv g s' num' D"
      have "next_result g D (next_scc_loop g s')" using "1.IH"(2) [OF Cons x [symmetric] v refl _ g l] by simp
      then show ?thesis using vs v by (simp add: next_scc_loop.simps [of g s])
    next
      fix start s' num'
      assume v: "TarjanScc_visit_once g v lr (s\<lparr>ts_visitation_stack := vs\<rparr>) = Some (Some start, s')"
        and c: "new_component (graph_V g) (graph_E g) D (drop start (ts_stack s'))"
        "loop_inv g (begin_next_scc s') num' (D \<union> set (drop start (ts_stack s')))"
      have "next_scc_loop g s = Some (Some (drop start (ts_stack s')), s')" using vs v by (simp add: next_scc_loop.simps [of g s])
      with c show ?thesis unfolding next_result_def by blast
    qed
  qed
qed


section \<open>All components\<close>

fun components :: "'n set \<Rightarrow> ('n \<times> 'n) set \<Rightarrow> 'n set \<Rightarrow> 'n list list \<Rightarrow> bool" where
  "components V E D [] \<longleftrightarrow> D = V"
| "components V E D (c # cs) \<longleftrightarrow> new_component V E D c \<and> components V E (D \<union> set c) cs"

lemma collect_sccs_inv:
  "scc_graph g \<Longrightarrow> loop_inv g (begin_next_scc s) num D \<Longrightarrow>
    \<exists>cs. collect_sccs g s = Some cs \<and> components (graph_V g) (graph_E g) D cs"
proof (induction g s arbitrary: num D rule: collect_sccs.induct)
  case (1 g s)
  from next_scc_loop_inv [OF "1.prems"] show ?case unfolding next_result_def
  proof (elim disjE exE conjE)
    fix c s' num'
    assume n: "next_scc_loop g (begin_next_scc s) = Some (Some c, s')" and c: "new_component (graph_V g) (graph_E g) D c"
      and l: "loop_inv g (begin_next_scc s') num' (D \<union> set c)"
    have n': "TarjanScc_next_scc g s = Some (Some c, s')" using n by (simp add: TarjanScc_next_scc_def)
    from "1.IH" [OF n' refl refl "1.prems"(1) l] obtain cs where
      "collect_sccs g s' = Some cs" "components (graph_V g) (graph_E g) (D \<union> set c) cs" by blast
    then show ?thesis using n' c by (intro exI [of _ "c # cs"]) (simp add: collect_sccs.simps [of g s])
  qed (simp add: collect_sccs.simps [of g s] TarjanScc_next_scc_def)
qed

lemma new_tarjan_scc_inv:
  assumes "scc_graph g"
  shows "loop_inv g (begin_next_scc (new_tarjan_scc g)) num {}"
proof -
  let ?s = "new_tarjan_scc g"
  have wf: "digraph_wf g" using assms by (simp add: scc_graph_def)
  have sz: "sized g ?s" by (simp add: sized_def new_tarjan_scc_def Graph_node_list_def)
  have beg: "begin_next_scc ?s = ?s" by (simp add: begin_next_scc_def new_tarjan_scc_def)
  have d: "node_data g ?s v = \<lparr>nd_root = None, nd_pending = None, nd_neighbors = Graph_neighbors True g v\<rparr>" if v: "v \<in> graph_V g" for v
  proof -
    obtain i where i: "Graph_to_index g v = Some i" "i < length (g_nodes g)" using to_index_mem [OF v] .
    have "Graph_node_list g ! i = v" using position_Some [OF i(1) [unfolded Graph_to_index_def]] by (simp add: Graph_node_list_def)
    then show ?thesis using i by (simp add: node_data_def ts_get_def new_tarjan_scc_def Graph_node_list_def)
  qed
  have "search_inv (graph_V g) (graph_E g) (\<lambda>v. nd_root (node_data g ?s v)) (\<lambda>v. nd_pending (node_data g ?s v))
      (\<lambda>v. nd_neighbors (node_data g ?s v)) (2 ^ 64 - 1) [] [] num {}"
    by (rule search_init) (simp add: d set_neighbors [OF wf])
  then have "scc_inv g ?s [] num {}" using sz by (simp add: scc_inv_def new_tarjan_scc_def active_def)
  then show ?thesis unfolding beg loop_inv_def
    by (intro conjI exI [of _ "[]"]) (auto simp: resumable_def new_tarjan_scc_def)
qed

lemma iter_sccs_components: "scc_graph g \<Longrightarrow> \<exists>cs. iter_sccs g = Some cs \<and> components (graph_V g) (graph_E g) {} cs"
  unfolding iter_sccs_def by (rule collect_sccs_inv [OF _ new_tarjan_scc_inv [of g "\<lambda>_. 0"]])

section \<open>What the components are\<close>

lemma rtrancl_closed: "(x, y) \<in> E\<^sup>* \<Longrightarrow> x \<in> A \<Longrightarrow> (\<forall>u v. u \<in> A \<longrightarrow> (u, v) \<in> E \<longrightarrow> v \<in> A) \<Longrightarrow> y \<in> A"
  by (induction rule: rtrancl_induct) auto

lemma components_spec:
  assumes "components V E D cs" "D \<subseteq> V" "\<forall>u v. u \<in> D \<longrightarrow> (u, v) \<in> E \<longrightarrow> v \<in> D"
  shows "distinct (concat cs)" "set (concat cs) = V - D" "[] \<notin> set cs"
    "\<forall>c \<in> set cs. \<forall>x \<in> set c. set c = {y. (x, y) \<in> E\<^sup>* \<and> (y, x) \<in> E\<^sup>*}"
    "sorted_wrt (\<lambda>c d. \<forall>x \<in> set c. \<forall>y \<in> set d. (x, y) \<notin> E\<^sup>*) cs"
proof -
  have "distinct (concat cs) \<and> set (concat cs) = V - D \<and> [] \<notin> set cs \<and>
    (\<forall>c \<in> set cs. \<forall>x \<in> set c. set c = {y. (x, y) \<in> E\<^sup>* \<and> (y, x) \<in> E\<^sup>*}) \<and>
    sorted_wrt (\<lambda>c d. \<forall>x \<in> set c. \<forall>y \<in> set d. (x, y) \<notin> E\<^sup>*) cs"
    using assms
  proof (induction cs arbitrary: D)
    case (Cons c cs)
    have c: "new_component V E D c" and cs: "components V E (D \<union> set c) cs" using Cons.prems(1) by simp_all
    have closed: "\<forall>u v. u \<in> D \<union> set c \<longrightarrow> (u, v) \<in> E \<longrightarrow> v \<in> D \<union> set c"
      using c Cons.prems(3) unfolding new_component_def by blast
    have sub: "D \<union> set c \<subseteq> V" "set c \<inter> D = {}" using c Cons.prems(2) unfolding new_component_def by blast+
    note IH = Cons.IH [OF cs sub(1) closed]
    have "set c = {y. (x, y) \<in> E\<^sup>* \<and> (y, x) \<in> E\<^sup>*}" if x: "x \<in> set c" for x
    proof -
      have "y \<in> set c" if y: "(x, y) \<in> E\<^sup>*" "(y, x) \<in> E\<^sup>*" for y
      proof -
        have "y \<in> D \<union> set c" by (rule rtrancl_closed [OF y(1) _ closed]) (use x in simp)
        moreover have "y \<notin> D" using rtrancl_closed [OF y(2) _ Cons.prems(3)] x sub(2) by blast
        ultimately show ?thesis by blast
      qed
      then show ?thesis using c x unfolding new_component_def by blast
    qed
    moreover have "(x, y) \<notin> E\<^sup>*" if "x \<in> set c" "d \<in> set cs" "y \<in> set d" for x d y
    proof
      assume "(x, y) \<in> E\<^sup>*"
      then have "y \<in> D \<union> set c" by (rule rtrancl_closed [OF _ _ closed]) (use that(1) in simp)
      moreover have "y \<in> V - (D \<union> set c)" using that(2,3) IH by auto
      ultimately show False by blast
    qed
    moreover have "distinct c" "c \<noteq> []" "set c \<subseteq> V - D" using c by (simp_all add: new_component_def)
    ultimately show ?case using IH sub by auto
  qed simp
  then show "distinct (concat cs)" "set (concat cs) = V - D" "[] \<notin> set cs"
    "\<forall>c \<in> set cs. \<forall>x \<in> set c. set c = {y. (x, y) \<in> E\<^sup>* \<and> (y, x) \<in> E\<^sup>*}"
    "sorted_wrt (\<lambda>c d. \<forall>x \<in> set c. \<forall>y \<in> set d. (x, y) \<notin> E\<^sup>*) cs" by blast+
qed

section \<open>Properties\<close>

text \<open>
  C30. The component iterator returns on every well-formed graph, without a failed index: each node occurs exactly once in
  its output, each yielded slice is a strongly connected component, that is, all nodes reachable from one of its nodes
  and back, and no component reaches one that is yielded later, so that the order is reverse topological.
\<close>

theorem iter_sccs_correct:
  assumes "digraph_wf g" "Graph_node_count g < 2 ^ 63 - 1"
  shows "\<exists>cs. iter_sccs g = Some cs \<and> distinct (concat cs) \<and> set (concat cs) = set (Graph_node_list g) \<and> [] \<notin> set cs \<and>
    (\<forall>c \<in> set cs. \<forall>x \<in> set c. set c = {y. (x, y) \<in> (set (g_edges g))\<^sup>* \<and> (y, x) \<in> (set (g_edges g))\<^sup>*}) \<and>
    sorted_wrt (\<lambda>c d. \<forall>x \<in> set c. \<forall>y \<in> set d. (x, y) \<notin> (set (g_edges g))\<^sup>*) cs"
proof -
  have "scc_graph g" using assms by (simp add: scc_graph_def)
  then obtain cs where cs: "iter_sccs g = Some cs" "components (graph_V g) (graph_E g) {} cs" using iter_sccs_components by blast
  from components_spec [OF cs(2)] cs(1) show ?thesis by simp
qed

definition two_cycle :: "nat Graph" where
  "two_cycle = Graph_insert_edge True (Graph_insert_edge True Graph_new 1 2) 2 1"

lemma two_cycle_facts: "digraph_wf two_cycle" "Graph_node_list two_cycle = [1, 2]" "g_edges two_cycle = [(1, 2), (2, 1)]"
proof -
  show "digraph_wf two_cycle" unfolding two_cycle_def by (intro wf_insert_edge(1) digraph_wf_new(1))
qed (simp_all add: two_cycle_def Graph_insert_edge_def Graph_new_def Graph_edge_key_def push_link_def Graph_links_def Graph_node_list_def Let_def)

theorem iter_sccs_correct_witness:
  "\<exists>cs. iter_sccs two_cycle = Some cs \<and> set (concat cs) = {1, 2} \<and> (\<forall>c \<in> set cs. 1 \<in> set c \<longrightarrow> 2 \<in> set c)"
proof -
  have "Graph_node_count two_cycle < 2 ^ 63 - 1"
    using arg_cong [OF two_cycle_facts(2), of length] by (simp add: Graph_node_list_def Graph_node_count_def)
  then obtain cs where cs: "iter_sccs two_cycle = Some cs" "set (concat cs) = set [1, 2]"
    "\<forall>c \<in> set cs. \<forall>x \<in> set c. set c = {y. (x, y) \<in> (set [(1, 2), (2, 1)])\<^sup>* \<and> (y, x) \<in> (set [(1, 2), (2, 1)])\<^sup>*}"
    using iter_sccs_correct [OF two_cycle_facts(1)] unfolding two_cycle_facts(2,3) by blast
  have e: "(1, 2) \<in> (set [(1, 2), (2, 1 :: nat)])\<^sup>*" "(2, 1) \<in> (set [(1, 2), (2, 1 :: nat)])\<^sup>*" by (auto intro: r_into_rtrancl)
  have "2 \<in> set c" if "c \<in> set cs" "1 \<in> set c" for c using cs(3) e that by blast
  then show ?thesis using cs(1,2) by auto
qed

end
