(* ===== verification/Toposort.thy ===== *)
theory Toposort
  imports SccCorrect
begin

text \<open>
  Topological sorting with its error reports (\<open>crates/voker-ecs/src/schedule/graph/toposort.rs\<close>) and the graph with a cached
  order (\<open>dag.rs\<close>). The enumeration of simple cycles for the error report is a depth-first search whose steps the argument
  \<open>fuel\<close> bounds; only the contents of that report depend on it. Hash sets are sets, or lists where the code
  iterates over them; the order of such a list stands for the iteration order. \<open>None\<close>: a failed \<open>unwrap\<close>, or not enough fuel.
\<close>

section \<open>Simple cycles of a component\<close>

record 'n CycleSearch =
  cs_path :: "'n list"
  cs_blocked :: "'n list"
  cs_unblock_together :: "'n \<Rightarrow> 'n list"
  cs_maybe_in_more_cycles :: "'n set"
  cs_stack :: "('n \<times> 'n list) list"
  cs_cycles :: "'n list list"

text \<open>The nodes and edges of one component, as a graph of its own.\<close>

definition component_subgraph :: "'n :: linorder Graph \<Rightarrow> 'n list \<Rightarrow> 'n Graph" where
  "component_subgraph g scc =
     fold (\<lambda>node sub. fold (\<lambda>successor sub. if Graph_contains_node sub successor then Graph_insert_edge True sub node successor else sub)
             (Graph_neighbors True g node) sub)
       scc (fold (\<lambda>node sub. Graph_insert_node sub node) scc Graph_new)"

text \<open>Unblock the nodes on the stack and those that wait for them; the last element of a vector is popped first.\<close>

function unblock_loop :: "'n list \<Rightarrow> 'n list \<Rightarrow> ('n \<Rightarrow> 'n list) \<Rightarrow> 'n list \<times> ('n \<Rightarrow> 'n list)" where
  "unblock_loop [] blocked together = (blocked, together)"
| "unblock_loop (n # unblock_stack) blocked together =
     (if n \<in> set blocked
      then unblock_loop (rev (together n) @ unblock_stack) (removeAll n blocked) (together(n := []))
      else unblock_loop unblock_stack blocked together)"
  by pat_completeness auto

termination
  by (relation "measures [\<lambda>(st, blocked, tg). length blocked, \<lambda>(st, blocked, tg). length st]")
    (auto intro: length_removeAll_less)

text \<open>The exit from the node on top of the stack, once its successors are used up.\<close>

definition leave_cycle_node :: "'n Graph \<Rightarrow> 'n \<Rightarrow> 'n CycleSearch \<Rightarrow> 'n CycleSearch" where
  "leave_cycle_node subgraph node s =
     (let s1 =
        (if node \<in> cs_maybe_in_more_cycles s
         then let (blocked, together) = unblock_loop [node] (cs_blocked s) (cs_unblock_together s)
              in s\<lparr>cs_blocked := blocked, cs_unblock_together := together\<rparr>
         else s\<lparr>cs_unblock_together :=
                fold (\<lambda>successor together. together(successor := List.insert node (together successor)))
                  (Graph_neighbors True subgraph node) (cs_unblock_together s)\<rparr>)
      in s1\<lparr>cs_path := butlast (cs_path s1), cs_stack := tl (cs_stack s1)\<rparr>)"

text \<open>
  The test \<open>successors.peekable().peek().is_none()\<close>: \<open>peekable\<close> wraps a reference to the iterator, so that \<open>peek\<close> takes the next
  successor out of it, and the temporary wrapper is dropped together with that successor.
\<close>

definition peek_and_leave :: "'n Graph \<Rightarrow> 'n \<Rightarrow> 'n list \<Rightarrow> ('n \<times> 'n list) list \<Rightarrow> 'n CycleSearch \<Rightarrow> 'n CycleSearch" where
  "peek_and_leave subgraph node successors stack s =
     (case successors of
        [] \<Rightarrow> leave_cycle_node subgraph node (s\<lparr>cs_stack := (node, []) # stack\<rparr>)
      | peeked # rest \<Rightarrow> s\<lparr>cs_stack := (node, rest) # stack\<rparr>)"

definition cycle_step :: "'n Graph \<Rightarrow> 'n \<Rightarrow> 'n \<Rightarrow> 'n list \<Rightarrow> ('n \<times> 'n list) list \<Rightarrow> 'n CycleSearch \<Rightarrow> 'n CycleSearch" where
  "cycle_step subgraph root node successors stack s =
     (case successors of
        [] \<Rightarrow> peek_and_leave subgraph node [] stack s
      | next # rest \<Rightarrow>
          (if next = root
           then peek_and_leave subgraph node rest stack
                  (s\<lparr>cs_maybe_in_more_cycles := cs_maybe_in_more_cycles s \<union> set (cs_path s), cs_cycles := cs_cycles s @ [cs_path s]\<rparr>)
           else if next \<notin> set (cs_blocked s)
           then s\<lparr>cs_maybe_in_more_cycles := cs_maybe_in_more_cycles s - {next}, cs_path := cs_path s @ [next],
                  cs_blocked := next # cs_blocked s,
                  cs_stack := (next, Graph_neighbors True subgraph next) # (node, rest) # stack\<rparr>
           else peek_and_leave subgraph node rest stack s))"

fun cycle_loop :: "nat \<Rightarrow> 'n Graph \<Rightarrow> 'n \<Rightarrow> 'n CycleSearch \<Rightarrow> 'n list list option" where
  "cycle_loop fuel subgraph root s =
     (case cs_stack s of
        [] \<Rightarrow> Some (cs_cycles s)
      | (node, successors) # stack \<Rightarrow>
          (case fuel of
             0 \<Rightarrow> None
           | Suc fuel' \<Rightarrow> cycle_loop fuel' subgraph root (cycle_step subgraph root node successors stack s)))"

definition cycles_from_root :: "nat \<Rightarrow> 'n Graph \<Rightarrow> 'n \<Rightarrow> 'n list list \<Rightarrow> 'n list list option" where
  "cycles_from_root fuel subgraph root cycles =
     cycle_loop fuel subgraph root
       \<lparr>cs_path = [root], cs_blocked = [root], cs_unblock_together = (\<lambda>_. []), cs_maybe_in_more_cycles = {},
        cs_stack = [(root, Graph_neighbors True subgraph root)], cs_cycles = cycles\<rparr>"

text \<open>The outer loop over the components that remain; the list has the top of the vector \<open>sccs\<close> first.\<close>

fun cycles_loop :: "nat \<Rightarrow> 'n :: linorder Graph \<Rightarrow> 'n list list \<Rightarrow> 'n list list \<Rightarrow> 'n list list option" where
  "cycles_loop fuel g [] cycles = Some cycles"
| "cycles_loop 0 g (scc # sccs) cycles = None"
| "cycles_loop (Suc fuel) g (scc # sccs) cycles =
     (if scc = [] then None
      else do {
        let subgraph = component_subgraph g scc;
        let root = last scc;
        cycles1 \<leftarrow> cycles_from_root fuel subgraph root cycles;
        parts \<leftarrow> iter_sccs (Graph_remove_node True subgraph root);
        cycles_loop fuel g (rev (filter (\<lambda>part. 1 < length part) parts) @ sccs) cycles1
      })"

definition simple_cycles_in_component :: "nat \<Rightarrow> 'n :: linorder Graph \<Rightarrow> 'n list \<Rightarrow> 'n list list option" where
  "simple_cycles_in_component fuel g scc = cycles_loop fuel g [scc] []"

section \<open>Topological sort\<close>

datatype 'n ToposortError = Loop 'n | Cycle "'n list list"

fun collect_cycles :: "nat \<Rightarrow> 'n :: linorder Graph \<Rightarrow> 'n list list \<Rightarrow> 'n list list option" where
  "collect_cycles fuel g [] = Some []"
| "collect_cycles fuel g (scc # sccs) = do {
     cycles \<leftarrow> simple_cycles_in_component fuel g scc;
     rest \<leftarrow> collect_cycles fuel g sccs;
     Some (cycles @ rest)
   }"

definition DiGraph_toposort :: "nat \<Rightarrow> 'n :: linorder Graph \<Rightarrow> ('n ToposortError + 'n list) option" where
  "DiGraph_toposort fuel g =
     (case List.find (\<lambda>(x, y). x = y) (Graph_all_edges g) of
        Some (node, _) \<Rightarrow> Some (Inl (Loop node))
      | None \<Rightarrow> do {
          sccs \<leftarrow> iter_sccs g;
          let top_sorted_nodes = concat sccs;
          let sccs_with_cycles = filter (\<lambda>scc. 1 < length scc) sccs;
          if sccs_with_cycles = [] then Some (Inr (rev top_sorted_nodes))
          else do { cycles \<leftarrow> collect_cycles fuel g sccs_with_cycles; Some (Inl (Cycle cycles)) }
        })"


section \<open>A search that does not end\<close>

definition cycle_next :: "'n Graph \<Rightarrow> 'n \<Rightarrow> 'n CycleSearch \<Rightarrow> 'n CycleSearch" where
  "cycle_next subgraph root s =
     (case cs_stack s of [] \<Rightarrow> s | (node, successors) # stack \<Rightarrow> cycle_step subgraph root node successors stack s)"

declare cycle_loop.simps [simp del]

lemma cycle_loop_iter:
  "cycle_loop fuel g root s =
     (let t = (cycle_next g root ^^ fuel) s in if cs_stack t = [] then Some (cs_cycles t) else None)"
proof (induction fuel arbitrary: s)
  case 0
  then show ?case by (auto simp: cycle_loop.simps [of 0] Let_def split: list.splits)
next
  case (Suc fuel)
  show ?case
  proof (cases "cs_stack s")
    case Nil
    then have "cycle_next g root s = s" by (simp add: cycle_next_def)
    then have "(cycle_next g root ^^ Suc fuel) s = s" by (induction fuel) (simp_all add: funpow_swap1)
    then show ?thesis using Nil by (simp add: cycle_loop.simps [of "Suc fuel"] Let_def)
  next
    case (Cons x st)
    then have "cycle_loop (Suc fuel) g root s = cycle_loop fuel g root (cycle_next g root s)"
      by (cases x) (simp add: cycle_loop.simps [of "Suc fuel"] cycle_next_def)
    then show ?thesis using Suc.IH by (simp add: funpow_swap1)
  qed
qed

lemma cycle_next_finished:
  assumes "cs_stack ((cycle_next g root ^^ n) s) = []"
  shows "cs_stack ((cycle_next g root ^^ (n + m)) s) = []"
proof (induction m)
  case (Suc m)
  have "cs_stack (cycle_next g root t) = []" if "cs_stack t = []" for t :: "'a CycleSearch"
    using that by (simp add: cycle_next_def)
  then show ?case using Suc by simp
qed (use assms in simp)

text \<open>A graph of five nodes in one strongly connected component, given by the neighbours of each node.\<close>

definition knot :: "nat Graph" where
  "knot = fold (\<lambda>(a, b) g. Graph_insert_edge True g a b)
     [(0, 3), (0, 2), (1, 3), (1, 4), (1, 2), (2, 3), (2, 1), (3, 4), (3, 2), (3, 0), (3, 1), (4, 0)] Graph_new"

fun knot_neighbors :: "nat \<Rightarrow> nat list" where
  "knot_neighbors n = (if n = 0 then [3, 2] else if n = 1 then [3, 4, 2] else if n = 2 then [3, 1] else if n = 3 then [4, 2, 0, 1]
     else if n = 4 then [0] else [])"

text \<open>The state that comes back, on top of any stack.\<close>

definition knot_state :: "nat list \<Rightarrow> (nat \<times> nat list) list \<Rightarrow> nat list list \<Rightarrow> nat CycleSearch" where
  "knot_state path stack cycles =
     \<lparr>cs_path = path, cs_blocked = [1, 0], cs_unblock_together = (\<lambda>_. [])(4 := [1]), cs_maybe_in_more_cycles = {0, 2, 3, 4},
      cs_stack = (1, [3, 4, 2]) # stack, cs_cycles = cycles\<rparr>"

lemmas cycle_defs = cycle_next_def cycle_step_def peek_and_leave_def leave_cycle_node_def

lemma knot_period:
  assumes nb: "\<And>n. Graph_neighbors True g n = knot_neighbors n" and p: "set path = {0, 1, 2}"
  shows "\<exists>cycles'. (cycle_next g 0 ^^ 20) (knot_state path stack cycles) = knot_state (path @ [2, 1]) ((2, []) # (1, []) # stack) cycles'"
  unfolding knot_state_def using p
  by (simp add: numeral_eq_Suc cycle_defs nb butlast_append) (auto simp: fun_eq_iff)

lemma knot_start:
  assumes nb: "\<And>n. Graph_neighbors True g n = knot_neighbors n"
  shows "\<exists>cycles'. (cycle_next g 0 ^^ 18)
    \<lparr>cs_path = [0], cs_blocked = [0], cs_unblock_together = (\<lambda>_. []), cs_maybe_in_more_cycles = {},
     cs_stack = [(0, Graph_neighbors True g 0)], cs_cycles = cycles\<rparr> = knot_state [0, 2, 1] [(2, []), (0, [])] cycles'"
  unfolding knot_state_def by (simp add: numeral_eq_Suc cycle_defs nb) (auto simp: fun_eq_iff)

lemma knot_again:
  assumes nb: "\<And>n. Graph_neighbors True g n = knot_neighbors n"
  shows "set path = {0, 1, 2} \<Longrightarrow> cs_stack ((cycle_next g 0 ^^ (20 * k)) (knot_state path stack cycles)) \<noteq> []"
proof (induction k arbitrary: path stack cycles)
  case (Suc k)
  obtain cycles' where "(cycle_next g 0 ^^ 20) (knot_state path stack cycles) = knot_state (path @ [2, 1]) ((2, []) # (1, []) # stack) cycles'"
    using knot_period [OF nb Suc.prems] by blast
  moreover have "set (path @ [2, 1]) = {0, 1, 2 :: nat}" using Suc.prems by auto
  moreover have "(cycle_next g 0 ^^ (20 * Suc k)) s = (cycle_next g 0 ^^ (20 * k)) ((cycle_next g 0 ^^ 20) s)" for s
    by (simp add: funpow_add mult_Suc_right add.commute [of 20])
  ultimately show ?case using Suc.IH by metis
qed (simp add: knot_state_def)

lemma knot_never_ends:
  assumes "\<And>n. Graph_neighbors True g n = knot_neighbors n"
  shows "cycles_from_root fuel g 0 cycles = None"
proof -
  let ?s = "\<lparr>cs_path = [0], cs_blocked = [0], cs_unblock_together = (\<lambda>_. []), cs_maybe_in_more_cycles = {},
     cs_stack = [(0, Graph_neighbors True g 0)], cs_cycles = cycles\<rparr>"
  obtain cycles' where s: "(cycle_next g 0 ^^ 18) ?s = knot_state [0, 2, 1] [(2, []), (0, [])] cycles'" using knot_start [OF assms] by blast
  have "cs_stack ((cycle_next g 0 ^^ fuel) ?s) \<noteq> []"
  proof
    assume "cs_stack ((cycle_next g 0 ^^ fuel) ?s) = []"
    from cycle_next_finished [OF this, of "18 + 19 * fuel"]
    have "cs_stack ((cycle_next g 0 ^^ (20 * fuel + 18)) ?s) = []" by (simp add: algebra_simps)
    then have "cs_stack ((cycle_next g 0 ^^ (20 * fuel)) ((cycle_next g 0 ^^ 18) ?s)) = []" by (simp add: funpow_add)
    then show False using knot_again [OF assms, of "[0, 2, 1]"] unfolding s by auto
  qed
  then show ?thesis by (simp add: cycles_from_root_def cycle_loop_iter Let_def)
qed


lemma knot_eq: "knot = \<lparr>g_nodes = [(0, [(3, Outgoing), (2, Outgoing), (3, Incoming), (4, Incoming)]),
    (3, [(0, Incoming), (1, Incoming), (2, Incoming), (4, Outgoing), (2, Outgoing), (0, Outgoing), (1, Outgoing)]),
    (2, [(0, Incoming), (1, Incoming), (3, Outgoing), (1, Outgoing), (3, Incoming)]),
    (1, [(3, Outgoing), (4, Outgoing), (2, Outgoing), (2, Incoming), (3, Incoming)]), (4, [(1, Incoming), (3, Incoming), (0, Outgoing)])],
    g_edges = [(0, 3), (0, 2), (1, 3), (1, 4), (1, 2), (2, 3), (2, 1), (3, 4), (3, 2), (3, 0), (3, 1), (4, 0)]\<rparr>"
  unfolding knot_def
  by (simp add: Graph_insert_edge_def Graph_new_def Graph_edge_key_def push_link_def Graph_links_def Let_def)

lemmas scc_eval = iter_sccs_def collect_sccs.simps TarjanScc_next_scc_def begin_next_scc_def next_scc_loop.simps TarjanScc_visit_once_def
  enter_node_def take_pending_def lower_root_def close_component_def ts_get_def ts_put_def Graph_to_index_def NonZeroUsize_new_def
  new_tarjan_scc_def Graph_node_list_def Graph_neighbors_def Graph_links_def

lemma knot_sccs: "\<exists>c. iter_sccs knot = Some [c] \<and> c = [4, 1, 2, 3, 0]"
  unfolding knot_eq by (simp add: scc_eval Let_def)


lemma knot_subgraph: "Graph_neighbors True (component_subgraph knot [4, 1, 2, 3, 0]) n = knot_neighbors n"
proof -
  have "component_subgraph knot [4, 1, 2, 3, 0] =
    \<lparr>g_nodes = [(4, [(0, Outgoing), (1, Incoming), (3, Incoming)]),
      (1, [(3, Outgoing), (4, Outgoing), (2, Outgoing), (2, Incoming), (3, Incoming)]),
      (2, [(1, Incoming), (3, Outgoing), (1, Outgoing), (3, Incoming), (0, Incoming)]),
      (3, [(1, Incoming), (2, Incoming), (4, Outgoing), (2, Outgoing), (0, Outgoing), (1, Outgoing), (0, Incoming)]),
      (0, [(4, Incoming), (3, Incoming), (3, Outgoing), (2, Outgoing)])],
     g_edges = [(4, 0), (1, 3), (1, 4), (1, 2), (2, 3), (2, 1), (3, 4), (3, 2), (3, 0), (3, 1), (0, 3), (0, 2)]\<rparr>"
    unfolding component_subgraph_def knot_eq
    by (simp add: Graph_insert_edge_def Graph_insert_node_def Graph_new_def Graph_edge_key_def push_link_def Graph_links_def
        Graph_neighbors_def Graph_contains_node_def Let_def)
  then show ?thesis by (simp add: Graph_neighbors_def Graph_links_def)
qed

definition triangle :: "nat Graph" where
  "triangle = fold (\<lambda>(a, b) g. Graph_insert_edge True g a b) [(1, 2), (2, 1), (2, 3), (3, 1)] Graph_new"

lemma triangle_eq: "triangle = \<lparr>g_nodes = [(1, [(2, Outgoing), (2, Incoming), (3, Incoming)]), (2, [(1, Incoming), (1, Outgoing), (3, Outgoing)]),
    (3, [(2, Incoming), (1, Outgoing)])], g_edges = [(1, 2), (2, 1), (2, 3), (3, 1)]\<rparr>"
  unfolding triangle_def
  by (simp add: Graph_insert_edge_def Graph_new_def Graph_edge_key_def push_link_def Graph_links_def Let_def)

lemma triangle_cycles: "DiGraph_toposort 9 triangle = Some (Inl (Cycle [[1, 2]]))"
proof -
  have scc: "iter_sccs triangle = Some [[3, 2, 1]]" unfolding triangle_eq by (simp add: scc_eval Let_def)
  have sub: "component_subgraph triangle [3, 2, 1] =
    \<lparr>g_nodes = [(3, [(1, Outgoing), (2, Incoming)]), (2, [(1, Outgoing), (3, Outgoing), (1, Incoming)]),
      (1, [(3, Incoming), (2, Incoming), (2, Outgoing)])], g_edges = [(3, 1), (2, 1), (2, 3), (1, 2)]\<rparr>"
    unfolding component_subgraph_def triangle_eq
    by (simp add: Graph_insert_edge_def Graph_insert_node_def Graph_new_def Graph_edge_key_def push_link_def Graph_links_def
        Graph_neighbors_def Graph_contains_node_def Let_def)
  have cyc: "cycles_from_root 8 (component_subgraph triangle [3, 2, 1]) 1 [] = Some [[1, 2]]"
    unfolding sub by (simp add: numeral_eq_Suc cycles_from_root_def cycle_loop.simps cycle_defs Graph_neighbors_def Graph_links_def)
  have rest: "iter_sccs (Graph_remove_node True (component_subgraph triangle [3, 2, 1]) 1) = Some [[3], [2]]"
    unfolding sub Graph_remove_node_def
    by (simp add: remove_incident_def Graph_remove_link_def swap_remove_def Graph_edge_key_def scc_eval Let_def)
  have "cycles_loop (Suc n) triangle [[3, 2, 1]] [] = Some [[1, 2]]"
    if "cycles_from_root n (component_subgraph triangle [3, 2, 1]) 1 [] = Some [[1, 2]]" for n using that rest by simp
  from this [OF cyc] have "simple_cycles_in_component 9 triangle [3, 2, 1] = Some [[1, 2]]" by (simp add: simple_cycles_in_component_def)
  moreover have "g_edges triangle = [(1, 2), (2, 1), (2, 3), (3, 1)]" by (simp add: triangle_eq)
  ultimately show ?thesis using scc by (simp add: DiGraph_toposort_def Graph_all_edges_def)
qed

lemma knot_toposort: "DiGraph_toposort fuel knot = None"
proof -
  have "simple_cycles_in_component fuel knot [4, 1, 2, 3, 0] = None"
  proof (cases fuel)
    case (Suc n)
    then show ?thesis using knot_never_ends [OF knot_subgraph, of n "[]"] by (simp add: simple_cycles_in_component_def)
  qed (simp add: simple_cycles_in_component_def)
  moreover have "g_edges knot = [(0, 3), (0, 2), (1, 3), (1, 4), (1, 2), (2, 3), (2, 1), (3, 4), (3, 2), (3, 0), (3, 1), (4, 0)]"
    by (simp add: knot_eq)
  moreover have "iter_sccs knot = Some [[4, 1, 2, 3, 0]]" using knot_sccs by blast
  ultimately show ?thesis by (simp add: DiGraph_toposort_def Graph_all_edges_def)
qed

section \<open>Correctness of the order\<close>

text \<open>Every node once, and every edge from an earlier to a later place.\<close>

definition topological :: "'n Graph \<Rightarrow> 'n list \<Rightarrow> bool" where
  "topological g order \<longleftrightarrow> distinct order \<and> set order = set (Graph_node_list g) \<and>
     (\<forall>(a, b) \<in> set (g_edges g). \<exists>i j. i < j \<and> j < length order \<and> order ! i = a \<and> order ! j = b)"

lemma topological_edge:
  "topological g order \<Longrightarrow> (a, b) \<in> set (g_edges g) \<Longrightarrow> \<exists>i j. i < j \<and> j < length order \<and> order ! i = a \<and> order ! j = b"
  by (auto simp: topological_def)

lemma singleton_components:
  assumes "[] \<notin> set cs" "filter (\<lambda>c. 1 < length c) cs = []"
  shows "cs = map (\<lambda>x. [x]) (concat cs)"
  using assms
proof (induction cs)
  case (Cons c cs)
  then have "length c = 1" by (cases c) (auto split: if_splits)
  then obtain x where "c = [x]" by (auto simp: length_Suc_conv)
  then show ?case using Cons by (auto split: if_splits)
qed simp

lemma topological_acyclic:
  assumes "topological g order"
  shows "acyclic (set (g_edges g))"
proof (rule acyclicI, intro allI)
  have ex: "\<exists>i j. i < j \<and> j < length order \<and> order ! i = a \<and> order ! j = b" if "(a, b) \<in> (set (g_edges g))\<^sup>+" for a b
    using that
  proof (induction rule: trancl_induct)
    case (base b)
    then show ?case by (rule topological_edge [OF assms])
  next
    case (step b c)
    from step.IH obtain i j where ij: "i < j" "j < length order" "order ! i = a" "order ! j = b" by blast
    from topological_edge [OF assms step.hyps(2)] obtain k l where
      kl: "k < l" "l < length order" "order ! k = b" "order ! l = c" by blast
    have "j = k" using ij kl assms nth_eq_iff_index_eq [of order j k] by (simp add: topological_def)
    then have "i < l" using ij(1) kl(1) by simp
    then show ?case using ij(3) kl(2,4) by blast
  qed
  fix x
  show "(x, x) \<notin> (set (g_edges g))\<^sup>+"
  proof
    assume "(x, x) \<in> (set (g_edges g))\<^sup>+"
    from ex [OF this] obtain i j where "i < j" "j < length order" "order ! i = x" "order ! j = x" by blast
    then show False using assms nth_eq_iff_index_eq [of order i j] by (simp add: topological_def)
  qed
qed

lemma reverse_components_topological:
  assumes wf: "digraph_wf g" and loops: "\<forall>x. (x, x) \<notin> set (g_edges g)"
    and xs: "distinct xs" "set xs = set (Graph_node_list g)" "sorted_wrt (\<lambda>x y. (x, y) \<notin> (set (g_edges g))\<^sup>*) xs"
  shows "topological g (rev xs)"
  unfolding topological_def
proof (intro conjI ballI)
  fix e
  assume e: "e \<in> set (g_edges g)"
  obtain a b where ab: "e = (a, b)" by (cases e)
  have "a \<in> set xs" "b \<in> set xs" using node_of_edge [OF wf] e ab xs(2) by auto
  then obtain i j where ij: "i < length xs" "xs ! i = a" "j < length xs" "xs ! j = b" by (metis in_set_conv_nth)
  have "i \<noteq> j" using loops e ab ij by auto
  moreover have "\<not> i < j" using sorted_wrt_nth_less [OF xs(3), of i j] ij e ab by (auto intro: r_into_rtrancl)
  ultimately have "j < i" by simp
  then have "length xs - Suc i < length xs - Suc j \<and> length xs - Suc j < length (rev xs) \<and>
      rev xs ! (length xs - Suc i) = a \<and> rev xs ! (length xs - Suc j) = b"
    using ij by (auto simp: rev_nth)
  then show "case e of (a, b) \<Rightarrow> \<exists>i j. i < j \<and> j < length (rev xs) \<and> rev xs ! i = a \<and> rev xs ! j = b"
    unfolding ab by blast
qed (use xs in auto)


lemma find_loop:
  "List.find (\<lambda>(x, y). x = y) es = None \<longleftrightarrow> (\<forall>x. (x, x) \<notin> set es)"
  "List.find (\<lambda>(x, y). x = y) es = Some (a, b) \<Longrightarrow> a = b \<and> (a, a) \<in> set es"
  by (induction es) (auto split: if_splits)

lemma toposort_no_loop:
  assumes wf: "digraph_wf g" "Graph_node_count g < 2 ^ 63 - 1" and loops: "\<forall>x. (x, x) \<notin> set (g_edges g)"
  obtains sccs where "DiGraph_toposort fuel g =
      (if filter (\<lambda>scc. 1 < length scc) sccs = [] then Some (Inr (rev (concat sccs)))
       else map_option (\<lambda>cycles. Inl (Cycle cycles)) (collect_cycles fuel g (filter (\<lambda>scc. 1 < length scc) sccs)))"
    "filter (\<lambda>scc. 1 < length scc) sccs = [] \<longleftrightarrow> acyclic (set (g_edges g))"
    "filter (\<lambda>scc. 1 < length scc) sccs = [] \<Longrightarrow> topological g (rev (concat sccs))"
proof -
  let ?E = "set (g_edges g)"
  have "scc_graph g" using wf by (simp add: scc_graph_def)
  then obtain sccs where sccs: "iter_sccs g = Some sccs" "components (set (Graph_node_list g)) ?E {} sccs" using iter_sccs_components by blast
  note c = components_spec [OF sccs(2), simplified]
  have "List.find (\<lambda>(x, y). x = y) (Graph_all_edges g) = None" using loops by (simp add: Graph_all_edges_def find_loop(1))
  then have t: "DiGraph_toposort fuel g =
      (if filter (\<lambda>scc. 1 < length scc) sccs = [] then Some (Inr (rev (concat sccs)))
       else map_option (\<lambda>cycles. Inl (Cycle cycles)) (collect_cycles fuel g (filter (\<lambda>scc. 1 < length scc) sccs)))"
    using sccs(1) by (cases "collect_cycles fuel g (filter (\<lambda>scc. 1 < length scc) sccs)") (simp_all add: DiGraph_toposort_def)
  have top: "topological g (rev (concat sccs))" if "filter (\<lambda>scc. 1 < length scc) sccs = []"
  proof (rule reverse_components_topological [OF wf(1) loops])
    have s: "sccs = map (\<lambda>x. [x]) (concat sccs)" using singleton_components c(3) that by blast
    have "sorted_wrt (\<lambda>c d. \<forall>x \<in> set c. \<forall>y \<in> set d. (x, y) \<notin> ?E\<^sup>*) (map (\<lambda>x. [x]) (concat sccs))" using c(5) s by simp
    then show "sorted_wrt (\<lambda>x y. (x, y) \<notin> ?E\<^sup>*) (concat sccs)" by (simp add: sorted_wrt_map)
  qed (use c(1,2) in auto)
  have cyc: "\<not> acyclic ?E" if m: "scc \<in> set sccs" "1 < length scc" for scc
  proof -
    obtain x y zs where scc: "scc = x # y # zs" using m(2) by (cases scc; cases "tl scc") auto
    have "distinct scc" using c(1) m(1) by (simp add: distinct_concat_iff)
    then have "x \<noteq> y" using scc by simp
    moreover have "(x, y) \<in> ?E\<^sup>*" "(y, x) \<in> ?E\<^sup>*" using bspec [OF bspec [OF c(4) m(1)], of x] scc by auto
    ultimately show ?thesis using antisymD [OF acyclic_impl_antisym_rtrancl, of ?E x y] by blast
  qed
  have "filter (\<lambda>scc. 1 < length scc) sccs = [] \<longleftrightarrow> acyclic ?E"
  proof
    assume "acyclic ?E"
    then show "filter (\<lambda>scc. 1 < length scc) sccs = []" using cyc by (auto simp: filter_empty_conv)
  qed (use top topological_acyclic in blast)
  from that [OF t this top] show thesis .
qed

section \<open>Dag\<close>

record 'n Dag =
  dag_graph :: "'n Graph"
  dag_toposort :: "'n list"
  dag_dirty :: bool

definition Dag_new :: "'n Dag" where
  "Dag_new = \<lparr>dag_graph = Graph_new, dag_toposort = [], dag_dirty = False\<rparr>"

definition Dag_from :: "'n Graph \<Rightarrow> 'n Dag" where
  "Dag_from value = \<lparr>dag_graph = value, dag_toposort = [], dag_dirty = True\<rparr>"

text \<open>A change through the reference that \<open>graph_mut\<close> returns.\<close>

definition Dag_graph_mut :: "('n Graph \<Rightarrow> 'n Graph) \<Rightarrow> 'n Dag \<Rightarrow> 'n Dag" where
  "Dag_graph_mut f d = d\<lparr>dag_graph := f (dag_graph d), dag_dirty := True\<rparr>"

definition Dag_is_dirty :: "'n Dag \<Rightarrow> bool" where
  "Dag_is_dirty d = dag_dirty d"

definition Dag_is_toposorted :: "'n Dag \<Rightarrow> bool" where
  "Dag_is_toposorted d = (\<not> dag_dirty d)"

text \<open>On an error the cached order has been taken out and the graph stays dirty.\<close>

definition Dag_ensure_toposorted :: "nat \<Rightarrow> 'n :: linorder Dag \<Rightarrow> (('n ToposortError + unit) \<times> 'n Dag) option" where
  "Dag_ensure_toposorted fuel d =
     (if dag_dirty d
      then do {
        r \<leftarrow> DiGraph_toposort fuel (dag_graph d);
        (case r of
           Inl e \<Rightarrow> Some (Inl e, d\<lparr>dag_toposort := []\<rparr>)
         | Inr order \<Rightarrow> Some (Inr (), d\<lparr>dag_toposort := order, dag_dirty := False\<rparr>))
      }
      else Some (Inr (), d))"

definition Dag_get_toposort :: "'n Dag \<Rightarrow> 'n list option" where
  "Dag_get_toposort d = (if dag_dirty d then None else Some (dag_toposort d))"

definition Dag_toposort :: "nat \<Rightarrow> 'n :: linorder Dag \<Rightarrow> (('n ToposortError + 'n list) \<times> 'n Dag) option" where
  "Dag_toposort fuel d = do {
     (r, d1) \<leftarrow> Dag_ensure_toposorted fuel d;
     (case r of Inl e \<Rightarrow> Some (Inl e, d1) | Inr _ \<Rightarrow> Some (Inr (dag_toposort d1), d1))
   }"

definition Dag_toposort_and_graph :: "nat \<Rightarrow> 'n :: linorder Dag \<Rightarrow> (('n ToposortError + 'n list \<times> 'n Graph) \<times> 'n Dag) option" where
  "Dag_toposort_and_graph fuel d = do {
     (r, d1) \<leftarrow> Dag_ensure_toposorted fuel d;
     (case r of Inl e \<Rightarrow> Some (Inl e, d1) | Inr _ \<Rightarrow> Some (Inr (dag_toposort d1, dag_graph d1), d1))
   }"

text \<open>The histories of a dag: changes by the operations of its graph, and sorting, with either result.\<close>

inductive dag_reach :: "'n :: linorder Dag \<Rightarrow> bool" where
  dag_new: "dag_reach Dag_new"
| dag_from: "digraph_wf g \<Longrightarrow> dag_reach (Dag_from g)"
| dag_change: "dag_reach d \<Longrightarrow> graph_step dbg x (dag_graph d) = Some (out, g) \<Longrightarrow> dag_reach (Dag_graph_mut (\<lambda>_. g) d)"
| dag_sort: "dag_reach d \<Longrightarrow> Graph_node_count (dag_graph d) < 2 ^ 63 - 1 \<Longrightarrow> Dag_toposort fuel d = Some (r, d') \<Longrightarrow> dag_reach d'"

lemma graph_step_wf: "digraph_wf g \<Longrightarrow> graph_step dbg x g = Some (out, g') \<Longrightarrow> digraph_wf g'"
  using graph_spec_total [of "[x]" "Graph_abs g"] digraph.sim [of g x _ _ dbg] by (fastforce split: option.splits)

lemma Inr_toposort:
  assumes "digraph_wf g" "Graph_node_count g < 2 ^ 63 - 1" "DiGraph_toposort fuel g = Some (Inr order)"
  shows "topological g order"
proof -
  have "List.find (\<lambda>(x, y). x = y) (Graph_all_edges g) = None"
    using assms(3) by (auto simp: DiGraph_toposort_def split: option.splits)
  then have "\<forall>x. (x, x) \<notin> set (g_edges g)" by (simp add: find_loop(1) Graph_all_edges_def)
  from toposort_no_loop [OF assms(1,2) this] obtain sccs where "DiGraph_toposort fuel g =
      (if filter (\<lambda>scc. 1 < length scc) sccs = [] then Some (Inr (rev (concat sccs)))
       else map_option (\<lambda>cycles. Inl (Cycle cycles)) (collect_cycles fuel g (filter (\<lambda>scc. 1 < length scc) sccs)))"
    "filter (\<lambda>scc. 1 < length scc) sccs = [] \<Longrightarrow> topological g (rev (concat sccs))" by metis
  then show ?thesis using assms(3) by (auto simp: map_option_case split: if_splits option.splits)
qed

lemma dag_reach_inv: "dag_reach d \<Longrightarrow> digraph_wf (dag_graph d) \<and> (\<not> dag_dirty d \<longrightarrow> topological (dag_graph d) (dag_toposort d))"
proof (induction rule: dag_reach.induct)
  case dag_new
  have "topological Graph_new []" by (simp add: topological_def Graph_new_def Graph_node_list_def)
  then show ?case by (simp add: Dag_new_def)
next
  case (dag_sort d fuel r d')
  then show ?case using Inr_toposort [of "dag_graph d" fuel]
    by (auto simp: Dag_toposort_def Dag_ensure_toposorted_def split: if_splits sum.splits bind_splits)
qed (auto simp: Dag_from_def Dag_graph_mut_def intro: graph_step_wf)


definition one_edge :: "nat Graph" where
  "one_edge = Graph_insert_edge True Graph_new 1 2"

lemma one_edge_facts:
  "digraph_wf one_edge" "Graph_node_count one_edge < 2 ^ 63 - 1" "acyclic (set (g_edges one_edge))" "Graph_node_list one_edge = [1, 2]"
proof -
  have g: "one_edge = \<lparr>g_nodes = [(1, [(2, Outgoing)]), (2, [(1, Incoming)])], g_edges = [(1, 2)]\<rparr>"
    by (simp add: one_edge_def Graph_insert_edge_def Graph_new_def Graph_edge_key_def push_link_def Graph_links_def Let_def)
  show "digraph_wf one_edge" unfolding one_edge_def by (intro wf_insert_edge(1) digraph_wf_new(1))
  have "(2, 1 :: nat) \<notin> {(1, 2)}\<^sup>*" by (auto elim: converse_rtranclE)
  then show "acyclic (set (g_edges one_edge))" unfolding g by (simp add: acyclic_insert) (simp add: acyclic_def)
qed (simp_all add: one_edge_def Graph_insert_edge_def Graph_new_def Graph_edge_key_def push_link_def Graph_links_def Let_def
    Graph_node_count_def Graph_node_list_def)

section \<open>Properties\<close>

text \<open>
  C29. \<open>DiGraph::toposort\<close> is right about orders: on an acyclic graph it returns an order that contains every node once and puts
  the source of every edge before its target, whatever the fuel of the error report; it returns an order for no
  other graph; a graph with a self loop gets the error \<open>Loop\<close> at a node with a self loop.
\<close>

theorem toposort_correct:
  assumes "digraph_wf g" "Graph_node_count g < 2 ^ 63 - 1"
  shows "(acyclic (set (g_edges g)) \<longrightarrow> (\<exists>order. DiGraph_toposort fuel g = Some (Inr order) \<and> topological g order)) \<and>
    (\<forall>order. DiGraph_toposort fuel g = Some (Inr order) \<longrightarrow> acyclic (set (g_edges g)) \<and> topological g order) \<and>
    ((\<exists>x. (x, x) \<in> set (g_edges g)) \<longrightarrow> (\<exists>x. DiGraph_toposort fuel g = Some (Inl (Loop x)) \<and> (x, x) \<in> set (g_edges g)))"
proof (intro conjI impI allI)
  assume ac: "acyclic (set (g_edges g))"
  then have "\<forall>x. (x, x) \<notin> set (g_edges g)" by (auto simp: acyclic_def)
  from toposort_no_loop [OF assms this, of fuel] ac
  show "\<exists>order. DiGraph_toposort fuel g = Some (Inr order) \<and> topological g order" by metis
next
  fix order
  assume "DiGraph_toposort fuel g = Some (Inr order)"
  from Inr_toposort [OF assms this] show "acyclic (set (g_edges g))" "topological g order" by (auto intro: topological_acyclic)
next
  assume "\<exists>x. (x, x) \<in> set (g_edges g)"
  then obtain a b where "List.find (\<lambda>(x, y). x = y) (g_edges g) = Some (a, b)" using find_loop(1) [of "g_edges g"] by (metis not_Some_eq surj_pair)
  with find_loop(2) [OF this] show "\<exists>x. DiGraph_toposort fuel g = Some (Inl (Loop x)) \<and> (x, x) \<in> set (g_edges g)"
    by (auto simp: DiGraph_toposort_def Graph_all_edges_def)
qed

theorem toposort_correct_witness:
  "\<exists>order. DiGraph_toposort 0 one_edge = Some (Inr order) \<and> set order = {1, 2}"
proof -
  obtain order where "DiGraph_toposort 0 one_edge = Some (Inr order)" "topological one_edge order"
    using toposort_correct [OF one_edge_facts(1,2), of 0] one_edge_facts(3) by blast
  then show ?thesis using one_edge_facts(4) by (auto simp: topological_def)
qed

text \<open>
  C31. \<open>peekable().peek()\<close> swallows a successor whenever the cycle search meets the root or a blocked node, and two things
  follow. For the edges 1-2, 2-1, 2-3, 3-1 the error lists the cycle 1, 2 only, although 1, 2, 3 is a
  simple cycle too. And on a graph of five nodes without self loops, \<open>toposort\<close> never returns: its components are found, but
  the search from the root of the only one goes on forever, deeper and deeper.
\<close>

theorem cycle_search_skips_successors:
  "DiGraph_toposort 9 triangle = Some (Inl (Cycle [[1, 2]])) \<and> {(1, 2), (2, 3), (3, 1)} \<subseteq> set (g_edges triangle) \<and>
   (\<forall>x. (x, x) \<notin> set (g_edges knot)) \<and> iter_sccs knot = Some [[4, 1, 2, 3, 0]] \<and>
   (\<forall>fuel. DiGraph_toposort fuel knot = None \<and> cycles_from_root fuel (component_subgraph knot [4, 1, 2, 3, 0]) 0 [] = None)"
  using triangle_cycles knot_sccs knot_toposort knot_never_ends [OF knot_subgraph]
  by (auto simp: triangle_eq knot_eq)

text \<open>
  C33. The cached order of a dag is never stale: after any history of changes of its graph and of sorting, successful
  or not, \<open>get_toposort\<close> returns nothing or a topological order of the current graph.
\<close>

theorem dag_cached_order_valid:
  assumes "dag_reach d" "Dag_get_toposort d = Some order"
  shows "topological (dag_graph d) order"
  using dag_reach_inv [OF assms(1)] assms(2) by (auto simp: Dag_get_toposort_def split: if_splits)

theorem dag_cached_order_valid_witness:
  "\<exists>d order. dag_reach d \<and> Dag_get_toposort d = Some order \<and> dag_graph d = one_edge \<and> topological one_edge order"
proof -
  have loops: "\<forall>x. (x, x) \<notin> set (g_edges one_edge)" using one_edge_facts(3) by (auto simp: acyclic_def)
  obtain order where o: "DiGraph_toposort 0 one_edge = Some (Inr order)"
    using toposort_no_loop [OF one_edge_facts(1,2) loops, of 0] one_edge_facts(3) by metis
  let ?d = "\<lparr>dag_graph = one_edge, dag_toposort = order, dag_dirty = False\<rparr>"
  have "Dag_toposort 0 (Dag_from one_edge) = Some (Inr order, ?d)"
    using o by (simp add: Dag_toposort_def Dag_ensure_toposorted_def Dag_from_def)
  moreover have "Graph_node_count (dag_graph (Dag_from one_edge)) < 2 ^ 63 - 1" using one_edge_facts(2) by (simp add: Dag_from_def)
  ultimately have r: "dag_reach ?d" using dag_sort [OF dag_from [OF one_edge_facts(1)]] by blast
  have "Dag_get_toposort ?d = Some order" by (simp add: Dag_get_toposort_def)
  from dag_cached_order_valid [OF r this] r this show ?thesis by auto
qed

end
