(* ===== verification/Spec2Isabelle.thy ===== *)
theory Spec2Isabelle
  imports WorldTicks EntityAlloc Messages Access Toposort
begin

text \<open>
  A verification development of the entity component system of the \<^emph>\<open>voker\<close> engine
  (\<open>src/crates/voker-ecs\<close>). All paths below are relative to \<open>src/crates/voker-ecs/src\<close>.

  \<^bold>\<open>The program.\<close> A world hands out entity handles (an index with a tag that counts reuses), keeps for every
  spawned entity the place where its components live, and stores the components in tables (dense, one row per
  entity) and maps (sparse, one map per component). Resources are single values of the world; messages are
  double-buffered queues read through cursors. Every stored value carries two ticks of the world's clock, which
  change detection compares. Systems declare what they read and write, and the scheduler runs systems
  side by side whose declarations do not conflict.

  \<^bold>\<open>Conventions.\<close> A Rust struct is a record whose fields carry a short prefix, an enum is a datatype, a method
  \<open>T::m\<close> is a definition \<open>T_m\<close> that returns the updated state. Integers that the code lets wrap are words; lengths and
  indices of vectors are natural numbers. An operation that can panic or run into undefined behaviour
  returns an \<open>outcome\<close> (theory \<open>Prelude\<close>) or \<open>None\<close>, as the theory says. Debug assertions are left out, as in a release
  build, except in the schedule graphs, whose operations take the build mode as an argument, and in message queues,
  where they are separate predicates with lemmas that say when they hold. Component values are elements of a type
  variable; the values on which a drop function is called are returned as lists, so that ownership becomes an
  equation between multisets. Hash maps are association lists or maps, hash sets are sets. Drop functions,
  closures and \<open>FromWorld\<close> implementations are arguments where the code takes them and return normally.

  \<^bold>\<open>Theories.\<close>
  \<^item> \<open>Prelude\<close>: machine integers, outcomes, vector growth. \<open>Simulation\<close>: runs of operations, the locale
    \<open>simulation\<close> for functional refinement, and conservation of values along runs.
  \<^item> \<open>Ticks\<close> (\<open>tick.rs\<close>, clock of \<open>world/world.rs\<close>): wrapping ticks, their comparison and maintenance. The locale \<open>tick_pass\<close>
    says what the clock relies on of the validation pass; an invariant over all runs of the clock gives that comparisons agree
    with true time up to the maximum age. \<open>WorldTicks\<close> (\<open>system/system.rs\<close>, \<open>schedule/schedule.rs\<close>, \<open>world/world.rs\<close>) models the
    pass over systems, resources, tables and maps, interprets the locale on it, with the rows of sparse maps that
    the pass leaves out, and shows that the operations of the storages are steps of such runs.
  \<^item> \<open>EntityIds\<close> (\<open>entity/ident.rs\<close>): packing, ordering and tags. \<open>FreeBuffer\<close>, \<open>EntityAlloc\<close> (\<open>entity/allocator.rs\<close>):
    the chunked free list behind the locale \<open>entity_store\<close>, its packed atomic counter, fresh ids, the local
    cache and remote allocation; no id is handed out twice. The retry loop of remote allocation is bounded by an argument
    \<open>rounds\<close>: one round suffices when no other thread interferes, and rounds of several threads are not interleaved.
  \<^item> \<open>Entities\<close> (\<open>entity/info.rs\<close>, \<open>error.rs\<close>): the registry of locations with all error branches; the locale
    \<open>entity_registry\<close> states what storage relies on, and handles of recycled indices are refused.
  \<^item> \<open>Columns\<close>, \<open>Tables\<close>, \<open>TableLife\<close> (\<open>storage/column\<close>, \<open>storage/dense\<close>): cells, rows, row removal and row moves; a table
    refines a list of rows, and values are dropped exactly once.
  \<^item> \<open>SparseMaps\<close> (\<open>storage/sparse\<close>): a map refines a finite map; \<open>ResourceStore\<close> (\<open>storage/global\<close>, \<open>resource\<close>,
    \<open>world/methods/resource.rs\<close>): so do resources. Both interpret \<open>simulation\<close>.
  \<^item> \<open>Messages\<close> (\<open>message/queue.rs\<close>, \<open>message/iterators.rs\<close>): a queue is a window on the history of messages; readers
    receive every message once.
  \<^item> \<open>Access\<close> (\<open>system/access\<close>, \<open>initialize\<close> of \<open>system/system.rs\<close>): declared accesses. Accepted and parallelizable declarations never
    conflict, also of piped systems, for systems without \<open>&World\<close> in which the queries under one filter agree on
    whether they hold \<open>EntityRef\<close>; two further theorems show that both restrictions are needed.
  \<^item> \<open>ScheduleGraph\<close> (\<open>schedule/graph\<close>): the adjacency-list graphs of the scheduler refine edge sets. \<open>Sccs\<close>, \<open>SccInvariant\<close>,
    \<open>SccCorrect\<close>: the iterative search for strongly connected components, its invariant, and its correctness and
    termination. \<open>Toposort\<close>: topological sorting, the search for cycles and the cached order of a \<open>Dag\<close>.

  \<^bold>\<open>Bounds.\<close> Row counts stay below \<open>2 ^ 31\<close> where a table or map must grow, since the code aborts when a capacity
  leaves 32 bits. Ids of tables and maps are 32-bit values other than the maximum, and registering panics when they run out.
  Runs of the clock ask for validation at least once every \<open>2 ^ 28\<close> ticks. Graphs have fewer than
  \<open>2 ^ 63 - 1\<close> nodes, so that the indices of the component search do not wrap. Message queues hold fewer than \<open>2 ^ 64\<close> messages. Functions that loop are total: structural
  recursion, or \<open>function\<close> with a measure; only the search for cycles takes a step bound
  \<open>fuel\<close>, on which nothing but the contents of an error report depends, since that search may not end.

  \<^bold>\<open>What modelling showed.\<close> Some theorems state what the code does where its comments say otherwise: the clock
  never records its maintenance pass, the highest row of a sparse map misses tick maintenance, a mutation inside
  \<open>resource_scope\<close> is not seen by change detection, a read that starts in the older message buffer stops there,
  \<open>&World\<close> is not seen by the scheduler's conflict test, merged queries can lose \<open>EntityRef\<close>, the counter of fresh entity ids
  wraps when its overflow panic is survived, and the search for cycles skips successors and may not end.

  \<^bold>\<open>Not modelled.\<close> Memory layouts, pointers and zero-sized types below the column; formatting, logging and
  reflection; the composition of allocator, registry and storages in the spawn, insert and remove operations of the
  world, with archetypes, bundles and hooks; events, observers and commands, which call user code; interleavings of threads inside
  atomic retry loops; the generic query and system machinery that
  only instantiates traits; the other crates of the engine (rendering-free utilities, assets, tasks, reflection,
  windowing), which the entity component system does not depend on for the behaviour stated here.
\<close>

end
